(* ===== verification/Pintos_Prelude.thy ===== *)
theory Pintos_Prelude
  imports Main "HOL-Library.Word" "HOL-Library.Monad_Syntax" "HOL-Library.Multiset"
begin

text \<open>
  Shared vocabulary of the development.

  A kernel routine is a HOL function; where it can stop the kernel (a failed
  \<^verbatim>\<open>ASSERT\<close>, a \<^verbatim>\<open>PANIC\<close>, a null or wild dereference) its result is an
  \<^verbatim>\<open>option\<close> and \<^term>\<open>None\<close> is "the kernel stops here". The
  \<^verbatim>\<open>do\<close> notation of \<^verbatim>\<open>Monad_Syntax\<close> sequences such steps, so that a
  model reads like the C statements it translates. Unsigned machine integers that only count
  or index are \<^typ>\<open>nat\<close> with the 32-bit wrap-around written out by
  \<open>size_wrap\<close>; values on which the code works bitwise are words.
\<close>

section \<open>Types and results\<close>

type_synonym u8 = "8 word"
type_synonym u32 = "32 word"
type_synonym u64 = "64 word"

text \<open>Addresses are natural numbers; objects do not wrap around the address space.\<close>

type_synonym ptr = nat

abbreviation NULL :: ptr where
  "NULL \<equiv> 0"

text \<open>\<^verbatim>\<open>ASSERT (CONDITION)\<close> of \<^verbatim>\<open>lib/debug.h\<close>: it panics the kernel when the condition is false.\<close>

definition ASSERT :: "bool \<Rightarrow> unit option" where
  "ASSERT b = (if b then Some () else None)"

text \<open>\<^verbatim>\<open>size_t\<close> arithmetic: 32 bits, unsigned.\<close>

definition SIZE_MAX :: nat where
  "SIZE_MAX = 2 ^ 32 - 1"

definition size_wrap :: "nat \<Rightarrow> nat" where
  "size_wrap n = n mod 2 ^ 32"

text \<open>An access to an array that has the given contents; outside of it, the access is wild.\<close>

definition aget :: "'a list \<Rightarrow> nat \<Rightarrow> 'a option" where
  "aget xs i = (if i < length xs then Some (xs ! i) else None)"

definition aset :: "'a list \<Rightarrow> nat \<Rightarrow> 'a \<Rightarrow> 'a list option" where
  "aset xs i v = (if i < length xs then Some (xs[i := v]) else None)"

text \<open>The rounding macros of \<^verbatim>\<open>lib/round.h\<close>, on unsigned values that do not wrap.\<close>

definition ROUND_UP :: "nat \<Rightarrow> nat \<Rightarrow> nat" where
  "ROUND_UP x step = (x + step - 1) div step * step"

definition DIV_ROUND_UP :: "nat \<Rightarrow> nat \<Rightarrow> nat" where
  "DIV_ROUND_UP x step = (x + step - 1) div step"

definition ROUND_DOWN :: "nat \<Rightarrow> nat \<Rightarrow> nat" where
  "ROUND_DOWN x step = x div step * step"

section \<open>Collections of rewrite rules\<close>

named_theorems kres \<open>evaluation of the result type\<close>
named_theorems rep_simps \<open>unfolding of representation predicates\<close>

lemma ASSERT_simps [simp, kres]:
  "ASSERT True = Some ()"
  "ASSERT False = None"
  by (simp_all add: ASSERT_def)

lemma ASSERT_eq_Some [simp]: "ASSERT b = Some u \<longleftrightarrow> b"
  by (simp add: ASSERT_def)

lemma bind_ASSERT_eq_Some [kres]:
  "(ASSERT b \<bind> f) = Some y \<longleftrightarrow> b \<and> f () = Some y"
  by (cases b) simp_all

lemma bind_ASSERT_True [simp]: "b \<Longrightarrow> (ASSERT b \<bind> f) = f ()"
  by simp

lemma size_wrap_small [simp]: "n < 2 ^ 32 \<Longrightarrow> size_wrap n = n"
  by (simp add: size_wrap_def)

lemma size_wrap_less [simp]: "size_wrap n < 2 ^ 32"
  by (simp add: size_wrap_def)

lemma aget_ok [simp]: "i < length xs \<Longrightarrow> aget xs i = Some (xs ! i)"
  by (simp add: aget_def)

lemma aset_ok [simp]: "i < length xs \<Longrightarrow> aset xs i v = Some (xs[i := v])"
  by (simp add: aset_def)

lemma aget_eq_Some: "aget xs i = Some x \<longleftrightarrow> i < length xs \<and> xs ! i = x"
  by (auto simp: aget_def)

lemma aset_eq_Some: "aset xs i v = Some ys \<longleftrightarrow> i < length xs \<and> ys = xs[i := v]"
  by (auto simp: aset_def)

lemma DIV_ROUND_UP_bounds:
  assumes "0 < s"
  shows "x \<le> DIV_ROUND_UP x s * s" and "DIV_ROUND_UP x s * s < x + s"
proof -
  have q: "(x + s - 1) div s * s + (x + s - 1) mod s = x + s - 1"
    by (rule div_mult_mod_eq)
  have "(x + s - 1) mod s < s" using assms by simp
  with q assms show "x \<le> DIV_ROUND_UP x s * s" and "DIV_ROUND_UP x s * s < x + s"
    unfolding DIV_ROUND_UP_def by linarith+
qed

lemma DIV_ROUND_UP_le_iff:
  assumes "0 < s"
  shows "DIV_ROUND_UP x s \<le> k \<longleftrightarrow> x \<le> k * s"
proof
  assume "DIV_ROUND_UP x s \<le> k"
  then have "DIV_ROUND_UP x s * s \<le> k * s" by simp
  with DIV_ROUND_UP_bounds(1) [OF assms, of x] show "x \<le> k * s" by linarith
next
  assume "x \<le> k * s"
  with DIV_ROUND_UP_bounds(2) [OF assms, of x] have "DIV_ROUND_UP x s * s < Suc k * s"
    by simp
  then have "DIV_ROUND_UP x s < Suc k"
    using mult_less_cancel2 by blast
  then show "DIV_ROUND_UP x s \<le> k" by simp
qed

section \<open>Lists\<close>

lemma list_update_append1_nth:
  "i < length xs \<Longrightarrow> (xs @ ys)[i := v] = xs[i := v] @ ys"
  by (simp add: list_update_append)

lemma sorted_wrt_append_iff [simp]:
  "sorted_wrt P (xs @ ys) \<longleftrightarrow>
     sorted_wrt P xs \<and> sorted_wrt P ys \<and> (\<forall>x\<in>set xs. \<forall>y\<in>set ys. P x y)"
  by (simp add: sorted_wrt_append)

end
