(* ===== verification/Klist.thy ===== *)
theory Klist
  imports Pintos_Prelude
begin

text \<open>
  The doubly linked list of \<^verbatim>\<open>lib/kernel/list.c\<close>, at the level of its pointers.

  The memory the routines read and write is a partial map from addresses to
  \<^verbatim>\<open>struct list_elem\<close>; address 0 is the null pointer. A \<^verbatim>\<open>struct list *\<close> is the
  address of its first member \<^verbatim>\<open>head\<close>; the member \<^verbatim>\<open>tail\<close> follows it at offset
  \<^verbatim>\<open>sizeof (struct list_elem)\<close>, which is 8. A comparison callback
  \<^verbatim>\<open>list_less_func\<close> with its \<^verbatim>\<open>aux\<close> is a predicate on two element addresses.
  Every routine returns \<^term>\<open>None\<close> where the C code stops the kernel; a loop, which on a
  cyclic structure would not end, is a \<^theory_text>\<open>partial_function\<close>, so that not returning
  is \<^term>\<open>None\<close> too.
\<close>

section \<open>Data\<close>

record list_elem =
  le_prev :: ptr
  le_next :: ptr

type_synonym lheap = "ptr \<rightharpoonup> list_elem"
type_synonym less_func = "ptr \<Rightarrow> ptr \<Rightarrow> bool"

definition head_of :: "ptr \<Rightarrow> ptr" where
  "head_of l = l"

definition tail_of :: "ptr \<Rightarrow> ptr" where
  "tail_of l = l + 8"

text \<open>Reading a structure through a pointer, and assigning to one of its members.\<close>

definition rd :: "lheap \<Rightarrow> ptr \<Rightarrow> list_elem option" where
  "rd h p = (if p = NULL then None else h p)"

definition set_prev :: "lheap \<Rightarrow> ptr \<Rightarrow> ptr \<Rightarrow> lheap option" where
  "set_prev h p v = do { e \<leftarrow> rd h p; Some (h(p \<mapsto> e\<lparr>le_prev := v\<rparr>)) }"

definition set_next :: "lheap \<Rightarrow> ptr \<Rightarrow> ptr \<Rightarrow> lheap option" where
  "set_next h p v = do { e \<leftarrow> rd h p; Some (h(p \<mapsto> e\<lparr>le_next := v\<rparr>)) }"

section \<open>Classification of elements\<close>

definition is_head :: "lheap \<Rightarrow> ptr \<Rightarrow> bool option" where
  "is_head h elem =
     (if elem = NULL then Some False
      else do { e \<leftarrow> rd h elem; Some (le_prev e = NULL \<and> le_next e \<noteq> NULL) })"

definition is_interior :: "lheap \<Rightarrow> ptr \<Rightarrow> bool option" where
  "is_interior h elem =
     (if elem = NULL then Some False
      else do { e \<leftarrow> rd h elem; Some (le_prev e \<noteq> NULL \<and> le_next e \<noteq> NULL) })"

definition is_tail :: "lheap \<Rightarrow> ptr \<Rightarrow> bool option" where
  "is_tail h elem =
     (if elem = NULL then Some False
      else do { e \<leftarrow> rd h elem; Some (le_prev e \<noteq> NULL \<and> le_next e = NULL) })"

section \<open>Traversal\<close>

definition list_init :: "lheap \<Rightarrow> ptr \<Rightarrow> lheap option" where
  "list_init h l = do {
     ASSERT (l \<noteq> NULL);
     Some (h(head_of l \<mapsto> \<lparr>le_prev = NULL, le_next = tail_of l\<rparr>,
             tail_of l \<mapsto> \<lparr>le_prev = head_of l, le_next = NULL\<rparr>)) }"

definition list_begin :: "lheap \<Rightarrow> ptr \<Rightarrow> ptr option" where
  "list_begin h l = do { ASSERT (l \<noteq> NULL); e \<leftarrow> rd h (head_of l); Some (le_next e) }"

definition list_next :: "lheap \<Rightarrow> ptr \<Rightarrow> ptr option" where
  "list_next h elem = do {
     hd \<leftarrow> is_head h elem;
     int \<leftarrow> is_interior h elem;
     ASSERT (hd \<or> int);
     e \<leftarrow> rd h elem;
     Some (le_next e) }"

definition list_end :: "ptr \<Rightarrow> ptr option" where
  "list_end l = do { ASSERT (l \<noteq> NULL); Some (tail_of l) }"

definition list_rbegin :: "lheap \<Rightarrow> ptr \<Rightarrow> ptr option" where
  "list_rbegin h l = do { ASSERT (l \<noteq> NULL); e \<leftarrow> rd h (tail_of l); Some (le_prev e) }"

definition list_prev :: "lheap \<Rightarrow> ptr \<Rightarrow> ptr option" where
  "list_prev h elem = do {
     int \<leftarrow> is_interior h elem;
     tl \<leftarrow> is_tail h elem;
     ASSERT (int \<or> tl);
     e \<leftarrow> rd h elem;
     Some (le_prev e) }"

definition list_rend :: "ptr \<Rightarrow> ptr option" where
  "list_rend l = do { ASSERT (l \<noteq> NULL); Some (head_of l) }"

definition list_head :: "ptr \<Rightarrow> ptr option" where
  "list_head l = do { ASSERT (l \<noteq> NULL); Some (head_of l) }"

definition list_tail :: "ptr \<Rightarrow> ptr option" where
  "list_tail l = do { ASSERT (l \<noteq> NULL); Some (tail_of l) }"

section \<open>Insertion and removal\<close>

definition list_insert :: "lheap \<Rightarrow> ptr \<Rightarrow> ptr \<Rightarrow> lheap option" where
  "list_insert h before elem = do {
     int \<leftarrow> is_interior h before;
     tl \<leftarrow> is_tail h before;
     ASSERT (int \<or> tl);
     ASSERT (elem \<noteq> NULL);
     b \<leftarrow> rd h before;
     h \<leftarrow> set_prev h elem (le_prev b);
     h \<leftarrow> set_next h elem before;
     b \<leftarrow> rd h before;
     h \<leftarrow> set_next h (le_prev b) elem;
     set_prev h before elem }"

definition list_splice :: "lheap \<Rightarrow> ptr \<Rightarrow> ptr \<Rightarrow> ptr \<Rightarrow> lheap option" where
  "list_splice h before first lst = do {
     int \<leftarrow> is_interior h before;
     tl \<leftarrow> is_tail h before;
     ASSERT (int \<or> tl);
     if first = lst then Some h
     else do {
       lst \<leftarrow> list_prev h lst;
       fi \<leftarrow> is_interior h first;
       ASSERT fi;
       li \<leftarrow> is_interior h lst;
       ASSERT li;
       f \<leftarrow> rd h first;
       la \<leftarrow> rd h lst;
       h \<leftarrow> set_next h (le_prev f) (le_next la);
       la \<leftarrow> rd h lst;
       f \<leftarrow> rd h first;
       h \<leftarrow> set_prev h (le_next la) (le_prev f);
       b \<leftarrow> rd h before;
       h \<leftarrow> set_prev h first (le_prev b);
       h \<leftarrow> set_next h lst before;
       b \<leftarrow> rd h before;
       h \<leftarrow> set_next h (le_prev b) first;
       set_prev h before lst } }"

definition list_push_front :: "lheap \<Rightarrow> ptr \<Rightarrow> ptr \<Rightarrow> lheap option" where
  "list_push_front h l elem = do { b \<leftarrow> list_begin h l; list_insert h b elem }"

definition list_push_back :: "lheap \<Rightarrow> ptr \<Rightarrow> ptr \<Rightarrow> lheap option" where
  "list_push_back h l elem = do { e \<leftarrow> list_end l; list_insert h e elem }"

definition list_remove :: "lheap \<Rightarrow> ptr \<Rightarrow> (ptr \<times> lheap) option" where
  "list_remove h elem = do {
     int \<leftarrow> is_interior h elem;
     ASSERT int;
     e \<leftarrow> rd h elem;
     h \<leftarrow> set_next h (le_prev e) (le_next e);
     e \<leftarrow> rd h elem;
     h \<leftarrow> set_prev h (le_next e) (le_prev e);
     e \<leftarrow> rd h elem;
     Some (le_next e, h) }"

definition list_empty :: "lheap \<Rightarrow> ptr \<Rightarrow> bool option" where
  "list_empty h l = do { b \<leftarrow> list_begin h l; e \<leftarrow> list_end l; Some (b = e) }"

definition list_front :: "lheap \<Rightarrow> ptr \<Rightarrow> ptr option" where
  "list_front h l = do {
     emp \<leftarrow> list_empty h l; ASSERT (\<not> emp);
     e \<leftarrow> rd h (head_of l); Some (le_next e) }"

definition list_back :: "lheap \<Rightarrow> ptr \<Rightarrow> ptr option" where
  "list_back h l = do {
     emp \<leftarrow> list_empty h l; ASSERT (\<not> emp);
     e \<leftarrow> rd h (tail_of l); Some (le_prev e) }"

definition list_pop_front :: "lheap \<Rightarrow> ptr \<Rightarrow> (ptr \<times> lheap) option" where
  "list_pop_front h l = do {
     front \<leftarrow> list_front h l; (_, h) \<leftarrow> list_remove h front; Some (front, h) }"

definition list_pop_back :: "lheap \<Rightarrow> ptr \<Rightarrow> (ptr \<times> lheap) option" where
  "list_pop_back h l = do {
     back \<leftarrow> list_back h l; (_, h) \<leftarrow> list_remove h back; Some (back, h) }"

section \<open>Size and reversal\<close>

partial_function (option) list_size_loop :: "lheap \<Rightarrow> ptr \<Rightarrow> ptr \<Rightarrow> nat \<Rightarrow> nat option" where
  "list_size_loop h e lst cnt =
     (if e = lst then Some cnt
      else do { e' \<leftarrow> list_next h e; list_size_loop h e' lst (size_wrap (cnt + 1)) })"

definition list_size :: "lheap \<Rightarrow> ptr \<Rightarrow> nat option" where
  "list_size h l = do {
     b \<leftarrow> list_begin h l; e \<leftarrow> list_end l; list_size_loop h b e 0 }"

text \<open>
  \<^verbatim>\<open>swap\<close> exchanges two pointer variables. \<^verbatim>\<open>list_reverse\<close> calls it on the two
  links of one element, and then twice on links of the two list headers.
\<close>

definition swap_links :: "lheap \<Rightarrow> ptr \<Rightarrow> lheap option" where
  "swap_links h p = do {
     e \<leftarrow> rd h p;
     h \<leftarrow> set_prev h p (le_next e);
     set_next h p (le_prev e) }"

definition swap_next_prev :: "lheap \<Rightarrow> ptr \<Rightarrow> ptr \<Rightarrow> lheap option" where
  "swap_next_prev h a b = do {
     t \<leftarrow> rd h a;
     u \<leftarrow> rd h b;
     h \<leftarrow> set_next h a (le_prev u);
     set_prev h b (le_next t) }"

definition swap_prev_next :: "lheap \<Rightarrow> ptr \<Rightarrow> ptr \<Rightarrow> lheap option" where
  "swap_prev_next h a b = do {
     t \<leftarrow> rd h a;
     u \<leftarrow> rd h b;
     h \<leftarrow> set_prev h a (le_next u);
     set_next h b (le_prev t) }"

partial_function (option) list_reverse_loop :: "lheap \<Rightarrow> ptr \<Rightarrow> ptr \<Rightarrow> lheap option" where
  "list_reverse_loop h e lst =
     (if e = lst then Some h
      else do {
        h \<leftarrow> swap_links h e;
        ee \<leftarrow> rd h e;
        list_reverse_loop h (le_prev ee) lst })"

definition list_reverse :: "lheap \<Rightarrow> ptr \<Rightarrow> lheap option" where
  "list_reverse h l = do {
     emp \<leftarrow> list_empty h l;
     if emp then Some h
     else do {
       b \<leftarrow> list_begin h l;
       e \<leftarrow> list_end l;
       h \<leftarrow> list_reverse_loop h b e;
       h \<leftarrow> swap_next_prev h (head_of l) (tail_of l);
       hd \<leftarrow> rd h (head_of l);
       tl \<leftarrow> rd h (tail_of l);
       swap_prev_next h (le_next hd) (le_prev tl) } }"

section \<open>Sorting\<close>

partial_function (option) is_sorted_loop :: "lheap \<Rightarrow> less_func \<Rightarrow> ptr \<Rightarrow> ptr \<Rightarrow> bool option" where
  "is_sorted_loop h lessf a b = do {
     a \<leftarrow> list_next h a;
     if a = b then Some True
     else do {
       p \<leftarrow> list_prev h a;
       if lessf a p then Some False else is_sorted_loop h lessf a b } }"

definition is_sorted :: "lheap \<Rightarrow> less_func \<Rightarrow> ptr \<Rightarrow> ptr \<Rightarrow> bool option" where
  "is_sorted h lessf a b = (if a \<noteq> b then is_sorted_loop h lessf a b else Some True)"

partial_function (option) find_end_of_run_loop :: "lheap \<Rightarrow> less_func \<Rightarrow> ptr \<Rightarrow> ptr \<Rightarrow> ptr option" where
  "find_end_of_run_loop h lessf a b = do {
     a \<leftarrow> list_next h a;
     if a = b then Some a
     else do {
       p \<leftarrow> list_prev h a;
       if lessf a p then Some a else find_end_of_run_loop h lessf a b } }"

definition find_end_of_run :: "lheap \<Rightarrow> less_func \<Rightarrow> ptr \<Rightarrow> ptr \<Rightarrow> ptr option" where
  "find_end_of_run h lessf a b = do {
     ASSERT (a \<noteq> NULL);
     ASSERT (b \<noteq> NULL);
     ASSERT (a \<noteq> b);
     find_end_of_run_loop h lessf a b }"

partial_function (option) inplace_merge_loop :: "lheap \<Rightarrow> less_func \<Rightarrow> ptr \<Rightarrow> ptr \<Rightarrow> ptr \<Rightarrow> lheap option" where
  "inplace_merge_loop h lessf a0 a1b0 b1 =
     (if a0 = a1b0 \<or> a1b0 = b1 then Some h
      else if \<not> lessf a1b0 a0 then do {
        a0 \<leftarrow> list_next h a0;
        inplace_merge_loop h lessf a0 a1b0 b1 }
      else do {
        a1b0 \<leftarrow> list_next h a1b0;
        p \<leftarrow> list_prev h a1b0;
        h \<leftarrow> list_splice h a0 p a1b0;
        inplace_merge_loop h lessf a0 a1b0 b1 })"

definition inplace_merge :: "lheap \<Rightarrow> less_func \<Rightarrow> ptr \<Rightarrow> ptr \<Rightarrow> ptr \<Rightarrow> lheap option" where
  "inplace_merge h lessf a0 a1b0 b1 = do {
     ASSERT (a0 \<noteq> NULL);
     ASSERT (a1b0 \<noteq> NULL);
     ASSERT (b1 \<noteq> NULL);
     s1 \<leftarrow> is_sorted h lessf a0 a1b0;
     ASSERT s1;
     s2 \<leftarrow> is_sorted h lessf a1b0 b1;
     ASSERT s2;
     inplace_merge_loop h lessf a0 a1b0 b1 }"

text \<open>One pass of \<^verbatim>\<open>list_sort\<close>: the \<^verbatim>\<open>for\<close> loop, which also counts the runs it outputs.\<close>

partial_function (option) list_sort_pass :: "lheap \<Rightarrow> less_func \<Rightarrow> ptr \<Rightarrow> ptr \<Rightarrow> nat \<Rightarrow> (lheap \<times> nat) option" where
  "list_sort_pass h lessf a0 e output_run_cnt =
     (if a0 = e then Some (h, output_run_cnt)
      else do {
        a1b0 \<leftarrow> find_end_of_run h lessf a0 e;
        if a1b0 = e then Some (h, size_wrap (output_run_cnt + 1))
        else do {
          b1 \<leftarrow> find_end_of_run h lessf a1b0 e;
          h \<leftarrow> inplace_merge h lessf a0 a1b0 b1;
          list_sort_pass h lessf b1 e (size_wrap (output_run_cnt + 1)) } })"

partial_function (option) list_sort_loop :: "lheap \<Rightarrow> less_func \<Rightarrow> ptr \<Rightarrow> lheap option" where
  "list_sort_loop h lessf l = do {
     b \<leftarrow> list_begin h l;
     e \<leftarrow> list_end l;
     (h, output_run_cnt) \<leftarrow> list_sort_pass h lessf b e 0;
     if output_run_cnt > 1 then list_sort_loop h lessf l else Some h }"

definition list_sort :: "lheap \<Rightarrow> less_func \<Rightarrow> ptr \<Rightarrow> lheap option" where
  "list_sort h lessf l = do {
     ASSERT (l \<noteq> NULL);
     h \<leftarrow> list_sort_loop h lessf l;
     b \<leftarrow> list_begin h l;
     e \<leftarrow> list_end l;
     s \<leftarrow> is_sorted h lessf b e;
     ASSERT s;
     Some h }"

section \<open>Operations on ordered lists\<close>

partial_function (option) find_position :: "lheap \<Rightarrow> less_func \<Rightarrow> ptr \<Rightarrow> ptr \<Rightarrow> ptr \<Rightarrow> ptr option" where
  "find_position h lessf elem e lst =
     (if e = lst then Some e
      else if lessf elem e then Some e
      else do { e \<leftarrow> list_next h e; find_position h lessf elem e lst })"

definition list_insert_ordered :: "lheap \<Rightarrow> less_func \<Rightarrow> ptr \<Rightarrow> ptr \<Rightarrow> lheap option" where
  "list_insert_ordered h lessf l elem = do {
     ASSERT (l \<noteq> NULL);
     ASSERT (elem \<noteq> NULL);
     b \<leftarrow> list_begin h l;
     t \<leftarrow> list_end l;
     e \<leftarrow> find_position h lessf elem b t;
     list_insert h e elem }"

partial_function (option) list_unique_loop :: "lheap \<Rightarrow> less_func \<Rightarrow> ptr \<Rightarrow> ptr \<Rightarrow> ptr \<Rightarrow> lheap option" where
  "list_unique_loop h lessf duplicates elem t = do {
     nxt \<leftarrow> list_next h elem;
     if nxt = t then Some h
     else if \<not> lessf elem nxt \<and> \<not> lessf nxt elem then do {
       (_, h) \<leftarrow> list_remove h nxt;
       h \<leftarrow> (if duplicates \<noteq> NULL then list_push_back h duplicates nxt else Some h);
       list_unique_loop h lessf duplicates elem t }
     else list_unique_loop h lessf duplicates nxt t }"

definition list_unique :: "lheap \<Rightarrow> less_func \<Rightarrow> ptr \<Rightarrow> ptr \<Rightarrow> lheap option" where
  "list_unique h lessf l duplicates = do {
     ASSERT (l \<noteq> NULL);
     emp \<leftarrow> list_empty h l;
     if emp then Some h
     else do {
       b \<leftarrow> list_begin h l;
       t \<leftarrow> list_end l;
       list_unique_loop h lessf duplicates b t } }"

partial_function (option) list_max_loop :: "lheap \<Rightarrow> less_func \<Rightarrow> ptr \<Rightarrow> ptr \<Rightarrow> ptr \<Rightarrow> ptr option" where
  "list_max_loop h lessf mx e t =
     (if e = t then Some mx
      else do {
        e' \<leftarrow> list_next h e;
        list_max_loop h lessf (if lessf mx e then e else mx) e' t })"

definition list_max :: "lheap \<Rightarrow> less_func \<Rightarrow> ptr \<Rightarrow> ptr option" where
  "list_max h lessf l = do {
     mx \<leftarrow> list_begin h l;
     t \<leftarrow> list_end l;
     if mx \<noteq> t then do { e \<leftarrow> list_next h mx; list_max_loop h lessf mx e t }
     else Some mx }"

partial_function (option) list_min_loop :: "lheap \<Rightarrow> less_func \<Rightarrow> ptr \<Rightarrow> ptr \<Rightarrow> ptr \<Rightarrow> ptr option" where
  "list_min_loop h lessf mn e t =
     (if e = t then Some mn
      else do {
        e' \<leftarrow> list_next h e;
        list_min_loop h lessf (if lessf e mn then e else mn) e' t })"

definition list_min :: "lheap \<Rightarrow> less_func \<Rightarrow> ptr \<Rightarrow> ptr option" where
  "list_min h lessf l = do {
     mn \<leftarrow> list_begin h l;
     t \<leftarrow> list_end l;
     if mn \<noteq> t then do { e \<leftarrow> list_next h mn; list_min_loop h lessf mn e t }
     else Some mn }"

end
