(* ===== verification/Klist_Spec.thy ===== *)
theory Klist_Spec
  imports Pintos_Prelude
begin

text \<open>
  What \<^verbatim>\<open>lib/kernel/list.c\<close> promises, on plain sequences.

  The locale \<open>strict_weak_order\<close> is the contract a comparison callback
  \<^verbatim>\<open>list_less_func\<close> has to meet; the callbacks of the kernel (thread priority, wake-up
  time, lock priority, condition-waiter priority) are interpretations of it. Inside the locale
  stand, once for all callbacks, the facts about ordered insertion, merging and runs on which
  the proofs about \<^verbatim>\<open>list_insert_ordered\<close> and \<^verbatim>\<open>list_sort\<close> and every ordered
  queue of the kernel rest.
\<close>

section \<open>Operations on sequences\<close>

text \<open>Nondecreasing order: no later element is less than an earlier one.\<close>

abbreviation nondecreasing :: "('a \<Rightarrow> 'a \<Rightarrow> bool) \<Rightarrow> 'a list \<Rightarrow> bool" where
  "nondecreasing lessf \<equiv> sorted_wrt (\<lambda>x y. \<not> lessf y x)"

definition equiv_under :: "('a \<Rightarrow> 'a \<Rightarrow> bool) \<Rightarrow> 'a \<Rightarrow> 'a \<Rightarrow> bool" where
  "equiv_under lessf a b \<longleftrightarrow> \<not> lessf a b \<and> \<not> lessf b a"

fun insert_seq :: "('a \<Rightarrow> 'a \<Rightarrow> bool) \<Rightarrow> 'a \<Rightarrow> 'a list \<Rightarrow> 'a list" where
  "insert_seq lessf x [] = [x]"
| "insert_seq lessf x (y # ys) = (if lessf x y then x # y # ys else y # insert_seq lessf x ys)"

fun merge_seq :: "('a \<Rightarrow> 'a \<Rightarrow> bool) \<Rightarrow> 'a list \<Rightarrow> 'a list \<Rightarrow> 'a list" where
  "merge_seq lessf [] bs = bs"
| "merge_seq lessf (a # as) [] = a # as"
| "merge_seq lessf (a # as) (b # bs) =
     (if \<not> lessf b a then a # merge_seq lessf as (b # bs) else b # merge_seq lessf (a # as) bs)"

text \<open>The maximal run that starts at a given element, and what follows it.\<close>

fun take_run :: "('a \<Rightarrow> 'a \<Rightarrow> bool) \<Rightarrow> 'a \<Rightarrow> 'a list \<Rightarrow> 'a list \<times> 'a list" where
  "take_run lessf a [] = ([a], [])"
| "take_run lessf a (b # bs) =
     (if lessf b a then ([a], b # bs)
      else (let (r, rest) = take_run lessf b bs in (a # r, rest)))"

lemma take_run_append: "take_run lessf a bs = (r, rest) \<Longrightarrow> r @ rest = a # bs"
  by (induction lessf a bs arbitrary: r rest rule: take_run.induct)
    (auto split: if_splits prod.splits)

lemma take_run_Cons: "take_run lessf a bs = (r, rest) \<Longrightarrow> \<exists>r'. r = a # r'"
  by (cases bs) (auto split: if_splits prod.splits)

lemma take_run_length: "take_run lessf a bs = (r, rest) \<Longrightarrow> length rest \<le> length bs"
  using take_run_append [of lessf a bs r rest] take_run_Cons [of lessf a bs r rest]
  by auto

text \<open>One pass of the natural merge sort: adjacent runs are merged in pairs; the number of runs it puts out is counted.\<close>

function pass_seq :: "('a \<Rightarrow> 'a \<Rightarrow> bool) \<Rightarrow> 'a list \<Rightarrow> 'a list \<times> nat" where
  "pass_seq lessf [] = ([], 0)"
| "pass_seq lessf (x # xs) =
     (case take_run lessf x xs of
        (r1, []) \<Rightarrow> (r1, 1)
      | (r1, y # ys) \<Rightarrow>
          (case take_run lessf y ys of
             (r2, rest) \<Rightarrow>
               (let (zs, n) = pass_seq lessf rest in (merge_seq lessf r1 r2 @ zs, n + 1))))"
  by pat_completeness auto
termination
  by (relation "measure (\<lambda>(lessf, xs). length xs)") (auto dest!: sym [THEN take_run_length])

declare pass_seq.simps(2) [simp del]

text \<open>The number of places where a sequence steps down.\<close>

fun descents :: "('a \<Rightarrow> 'a \<Rightarrow> bool) \<Rightarrow> 'a list \<Rightarrow> nat" where
  "descents lessf (x # y # zs) = (if lessf y x then 1 else 0) + descents lessf (y # zs)"
| "descents lessf xs = 0"

text \<open>The adjacent elements that are equal to the last kept one are dropped, the first is kept.\<close>

fun unique_seq :: "('a \<Rightarrow> 'a \<Rightarrow> bool) \<Rightarrow> 'a \<Rightarrow> 'a list \<Rightarrow> 'a list \<times> 'a list" where
  "unique_seq lessf x [] = ([x], [])"
| "unique_seq lessf x (y # ys) =
     (if \<not> lessf x y \<and> \<not> lessf y x
      then (let (ks, ds) = unique_seq lessf x ys in (ks, y # ds))
      else (let (ks, ds) = unique_seq lessf y ys in (x # ks, ds)))"

fun max_seq :: "('a \<Rightarrow> 'a \<Rightarrow> bool) \<Rightarrow> 'a \<Rightarrow> 'a list \<Rightarrow> 'a" where
  "max_seq lessf m [] = m"
| "max_seq lessf m (x # xs) = max_seq lessf (if lessf m x then x else m) xs"

fun min_seq :: "('a \<Rightarrow> 'a \<Rightarrow> bool) \<Rightarrow> 'a \<Rightarrow> 'a list \<Rightarrow> 'a" where
  "min_seq lessf m [] = m"
| "min_seq lessf m (x # xs) = min_seq lessf (if lessf x m then x else m) xs"

section \<open>Facts that need no order\<close>

lemma take_run_successively:
  "take_run lessf a bs = (r, rest) \<Longrightarrow> successively (\<lambda>x y. \<not> lessf y x) r"
proof (induction lessf a bs arbitrary: r rest rule: take_run.induct)
  case (2 lessf a b bs)
  show ?case
  proof (cases "lessf b a")
    case False
    obtain r' rest' where t: "take_run lessf b bs = (r', rest')" by force
    with False "2.IH" have "successively (\<lambda>x y. \<not> lessf y x) r'" by blast
    moreover obtain r'' where "r' = b # r''" using take_run_Cons [OF t] by blast
    ultimately show ?thesis using "2.prems" False t by auto
  qed (use "2.prems" in auto)
qed auto

lemma take_run_split:
  "take_run lessf a bs = (r, c # cs) \<Longrightarrow> lessf c (last r)"
proof (induction lessf a bs arbitrary: r rule: take_run.induct)
  case (2 lessf a b bs)
  show ?case
  proof (cases "lessf b a")
    case False
    obtain r' rest' where t: "take_run lessf b bs = (r', rest')" by force
    moreover obtain r'' where "r' = b # r''" using take_run_Cons [OF t] by blast
    ultimately show ?thesis using "2.prems" "2.IH" [OF False, of r'] False by auto
  qed (use "2.prems" in auto)
qed auto

lemma set_insert_seq [simp]: "set (insert_seq lessf x xs) = insert x (set xs)"
  by (induction xs) auto

lemma mset_insert_seq [simp]: "mset (insert_seq lessf x xs) = add_mset x (mset xs)"
  by (induction xs) auto

lemma length_insert_seq [simp]: "length (insert_seq lessf x xs) = Suc (length xs)"
  by (induction xs) auto

lemma insert_seq_nonempty [simp]: "insert_seq lessf x xs \<noteq> []"
  by (cases xs) auto

lemma distinct_insert_seq [simp]:
  "distinct (insert_seq lessf x xs) \<longleftrightarrow> x \<notin> set xs \<and> distinct xs"
  by (induction xs) auto

text \<open>Induction over a merge with the callback kept fixed.\<close>

lemma merge_seq_fixed_induct [case_names Nil1 Nil2 Cons]:
  fixes lessf :: "'a \<Rightarrow> 'a \<Rightarrow> bool"
  assumes "\<And>bs. P [] bs" and "\<And>a as. P (a # as) []"
    and "\<And>a as b bs. (\<not> lessf b a \<Longrightarrow> P as (b # bs)) \<Longrightarrow> (lessf b a \<Longrightarrow> P (a # as) bs) \<Longrightarrow>
      P (a # as) (b # bs)"
  shows "P as bs"
proof -
  have "l = lessf \<longrightarrow> P as bs" for l
    by (induction l as bs rule: merge_seq.induct) (use assms in blast)+
  then show ?thesis by blast
qed

lemma set_merge_seq [simp]: "set (merge_seq lessf as bs) = set as \<union> set bs"
  by (induction lessf as bs rule: merge_seq.induct) auto

lemma mset_merge_seq [simp]: "mset (merge_seq lessf as bs) = mset as + mset bs"
  by (induction lessf as bs rule: merge_seq.induct) auto

lemma length_merge_seq [simp]: "length (merge_seq lessf as bs) = length as + length bs"
  by (induction lessf as bs rule: merge_seq.induct) auto

lemma mset_unique_seq:
  "unique_seq lessf x ys = (ks, ds) \<Longrightarrow> mset ks + mset ds = add_mset x (mset ys)"
  by (induction lessf x ys arbitrary: ks ds rule: unique_seq.induct)
    (fastforce split: if_splits prod.splits)+

lemma unique_seq_Cons: "unique_seq lessf x ys = (ks, ds) \<Longrightarrow> \<exists>ks'. ks = x # ks'"
  by (induction lessf x ys arbitrary: ks ds rule: unique_seq.induct)
    (fastforce split: if_splits prod.splits)+

lemma max_seq_in: "max_seq lessf m xs \<in> insert m (set xs)"
  by (induction lessf m xs rule: max_seq.induct) (auto split: if_splits)

lemma min_seq_in: "min_seq lessf m xs \<in> insert m (set xs)"
  by (induction lessf m xs rule: min_seq.induct) (auto split: if_splits)

lemma descents_0_iff: "descents lessf xs = 0 \<longleftrightarrow> successively (\<lambda>x y. \<not> lessf y x) xs"
  by (induction lessf xs rule: descents.induct) auto

lemma descents_append:
  "xs \<noteq> [] \<Longrightarrow> ys \<noteq> [] \<Longrightarrow>
     descents lessf (xs @ ys) =
       descents lessf xs + (if lessf (hd ys) (last xs) then 1 else 0) + descents lessf ys"
  by (induction lessf xs rule: descents.induct) (cases ys; auto)+

lemma pass_seq_one:
  "take_run lessf x xs = (r1, []) \<Longrightarrow> pass_seq lessf (x # xs) = (r1, 1)"
  by (simp add: pass_seq.simps(2))

lemma pass_seq_two:
  "take_run lessf x xs = (r1, y # ys) \<Longrightarrow> take_run lessf y ys = (r2, rest) \<Longrightarrow>
   pass_seq lessf rest = (zs, n) \<Longrightarrow>
   pass_seq lessf (x # xs) = (merge_seq lessf r1 r2 @ zs, n + 1)"
  by (simp add: pass_seq.simps(2))

text \<open>The cases of one pass: nothing left, one last run, or two runs and a rest.\<close>

lemma pass_seq_cases [case_names Nil One Two]:
  assumes "\<And>xs. xs = [] \<Longrightarrow> P xs"
    and "\<And>x xs r1. take_run lessf x xs = (r1, []) \<Longrightarrow> P (x # xs)"
    and "\<And>x xs r1 y ys r2 rest. take_run lessf x xs = (r1, y # ys) \<Longrightarrow>
      take_run lessf y ys = (r2, rest) \<Longrightarrow> length rest < length (x # xs) \<Longrightarrow> P rest \<Longrightarrow> P (x # xs)"
  shows "P xs"
proof (induction xs rule: measure_induct_rule [of length])
  case (less xs)
  show ?case
  proof (cases xs)
    case (Cons x xs')
    obtain r1 rest1 where t1: "take_run lessf x xs' = (r1, rest1)" by force
    show ?thesis
    proof (cases rest1)
      case Nil
      with t1 assms(2) Cons show ?thesis by blast
    next
      case (Cons y ys)
      obtain r2 rest where t2: "take_run lessf y ys = (r2, rest)" by force
      have "length rest < length (x # xs')"
        using take_run_length [OF t1] take_run_length [OF t2] Cons by simp
      then show ?thesis
        using assms(3) [of x xs' r1 y ys r2 rest] t1 t2 Cons \<open>xs = x # xs'\<close> less by simp
    qed
  qed (use assms(1) in simp)
qed

lemma mset_pass_seq: "mset (fst (pass_seq lessf xs)) = mset xs"
proof (induction xs rule: pass_seq_cases [of _ lessf])
  case (One x xs r1)
  then show ?case using take_run_append [OF One] by (simp add: pass_seq_one)
next
  case (Two x xs r1 y ys r2 rest)
  obtain zs n where z: "pass_seq lessf rest = (zs, n)" by force
  have "x # xs = r1 @ r2 @ rest"
    using take_run_append [OF Two(1)] take_run_append [OF Two(2)] by simp
  then have "mset (x # xs) = mset r1 + mset r2 + mset rest"
    by (simp only: mset_append add.assoc)
  then show ?case using Two(4) z by (simp add: pass_seq_two [OF Two(1,2) z])
qed simp

lemma length_pass_seq: "length (fst (pass_seq lessf xs)) = length xs"
  using mset_pass_seq [of lessf xs] by (metis size_mset)

lemma pass_seq_count_le: "snd (pass_seq lessf xs) \<le> length xs"
proof (induction xs rule: pass_seq_cases [of _ lessf])
  case (Two x xs r1 y ys r2 rest)
  obtain zs n where z: "pass_seq lessf rest = (zs, n)" by force
  then show ?case using Two by (simp add: pass_seq_two)
qed (simp_all add: pass_seq_one)

lemma pass_seq_count_descents:
  "xs \<noteq> [] \<Longrightarrow> 2 * snd (pass_seq lessf xs) \<le> descents lessf xs + 2"
proof (induction xs rule: pass_seq_cases [of _ lessf])
  case (Two x xs r1 y ys r2 rest)
  obtain zs n where z: "pass_seq lessf rest = (zs, n)" by force
  have xs: "x # xs = r1 @ r2 @ rest" and r2: "r2 @ rest = y # ys"
    using take_run_append [OF Two(1)] take_run_append [OF Two(2)] by simp_all
  have ne: "r1 \<noteq> []" "r2 \<noteq> []" and hd2: "hd r2 = y"
    using take_run_Cons [OF Two(1)] take_run_Cons [OF Two(2)] by auto
  have d1: "descents lessf (x # xs) \<ge> 1 + descents lessf (r2 @ rest)"
    using ne hd2 take_run_split [OF Two(1)] by (simp add: xs descents_append)
  show ?case
  proof (cases rest)
    case Nil
    then show ?thesis using z d1 Two by (simp add: pass_seq_two)
  next
    case (Cons c cs)
    have "descents lessf (r2 @ rest) \<ge> 1 + descents lessf rest"
      using ne take_run_split [OF Two(2) [unfolded Cons]] by (simp add: Cons descents_append)
    then show ?thesis using z d1 Two Cons by (simp add: pass_seq_two)
  qed
qed (simp_all add: pass_seq_one)

section \<open>The contract of a comparison callback\<close>

locale strict_weak_order =
  fixes lessf :: "'a \<Rightarrow> 'a \<Rightarrow> bool"
  assumes asym: "lessf a b \<Longrightarrow> \<not> lessf b a"
    and ntrans: "lessf a c \<Longrightarrow> lessf a b \<or> lessf b c"
begin

lemma irrefl [simp]: "\<not> lessf a a"
  using asym by blast

lemma le_trans: "\<not> lessf b a \<Longrightarrow> \<not> lessf c b \<Longrightarrow> \<not> lessf c a"
  using ntrans by blast

lemma less_le_trans: "lessf b a \<Longrightarrow> \<not> lessf a' a \<Longrightarrow> lessf b a'"
  using ntrans by blast

lemma transp_le: "transp (\<lambda>x y. \<not> lessf y x)"
  by (rule transpI) (use le_trans in blast)

lemma equiv_trans: "equiv_under lessf a b \<Longrightarrow> equiv_under lessf a c \<Longrightarrow> equiv_under lessf b c"
  unfolding equiv_under_def using ntrans by blast

lemma run_nondecreasing:
  "take_run lessf a bs = (r, rest) \<Longrightarrow> nondecreasing lessf r"
  using take_run_successively [of lessf a bs r rest] successively_conv_sorted_wrt [OF transp_le]
  by blast

lemma insert_nondecreasing:
  assumes "nondecreasing lessf xs"
  shows "nondecreasing lessf (insert_seq lessf x xs)"
  using assms by (induction xs) (auto dest: asym intro: less_le_trans dest: le_trans)

lemma merge_nondecreasing:
  assumes "nondecreasing lessf as" and "nondecreasing lessf bs"
  shows "nondecreasing lessf (merge_seq lessf as bs)"
  using assms
  by (induction as bs rule: merge_seq_fixed_induct [of _ lessf])
    (auto dest: asym le_trans less_le_trans)

text \<open>Stability: elements that compare equal keep their order.\<close>

lemma less_excludes_equiv:
  assumes "lessf b a" and "nondecreasing lessf (a # as)" and "equiv_under lessf k b"
  shows "filter (equiv_under lessf k) (a # as) = []"
proof -
  have "\<not> equiv_under lessf k z" if "z \<in> set (a # as)" for z
  proof
    assume "equiv_under lessf k z"
    with assms(3) have "equiv_under lessf b z" by (rule equiv_trans)
    moreover have "lessf b z"
      using assms(1,2) that by (auto intro: less_le_trans)
    ultimately show False by (simp add: equiv_under_def)
  qed
  then show ?thesis by (metis filter_False)
qed

lemma insert_stable:
  assumes "nondecreasing lessf xs"
  shows "filter (equiv_under lessf k) (insert_seq lessf x xs) =
    filter (equiv_under lessf k) (xs @ [x])"
  using assms
proof (induction xs)
  case (Cons y ys)
  show ?case
  proof (cases "lessf x y")
    case True
    then show ?thesis using less_excludes_equiv [OF True Cons.prems, of k] by fastforce
  qed (use Cons in auto)
qed simp

lemma merge_stable:
  assumes "nondecreasing lessf as"
  shows "filter (equiv_under lessf k) (merge_seq lessf as bs) =
    filter (equiv_under lessf k) (as @ bs)"
  using assms
proof (induction as bs rule: merge_seq_fixed_induct [of _ lessf])
  case (Cons a as b bs)
  show ?case
  proof (cases "lessf b a")
    case True
    from Cons.IH(2) [OF True Cons.prems] less_excludes_equiv [OF True Cons.prems, of k] True
    show ?thesis by (cases "equiv_under lessf k b") auto
  next
    case False
    then show ?thesis using Cons by simp
  qed
qed auto

lemma pass_descents: "descents lessf (fst (pass_seq lessf xs)) \<le> snd (pass_seq lessf xs) - 1"
proof (induction xs rule: pass_seq_cases [of _ lessf])
  case (One x xs r1)
  then have "descents lessf r1 = 0"
    using run_nondecreasing [OF One] by (simp add: descents_0_iff successively_if_sorted_wrt)
  then show ?case by (simp add: pass_seq_one [OF One])
next
  case (Two x xs r1 y ys r2 rest)
  obtain zs n where z: "pass_seq lessf rest = (zs, n)" by force
  let ?m = "merge_seq lessf r1 r2"
  have "nondecreasing lessf ?m"
    by (rule merge_nondecreasing) (use run_nondecreasing Two in blast)+
  then have m0: "descents lessf ?m = 0"
    by (simp add: descents_0_iff successively_if_sorted_wrt)
  have mne: "?m \<noteq> []"
    using take_run_Cons [OF Two(1)] by (metis length_0_conv length_merge_seq add_is_0 list.distinct(1))
  have "zs \<noteq> [] \<Longrightarrow> n \<noteq> 0"
    using z length_pass_seq [of lessf rest] by (cases rest) (auto dest: arg_cong [where f = snd]
      simp: pass_seq.simps(2) split: list.splits prod.splits)
  then have "descents lessf (?m @ zs) \<le> n"
    using Two(4) z m0 mne by (cases "zs = []") (auto simp: descents_append)
  then show ?case using Two z by (simp add: pass_seq_two)
qed simp

lemma pass_progress:
  assumes "1 < snd (pass_seq lessf xs)"
  shows "descents lessf (fst (pass_seq lessf xs)) < descents lessf xs"
proof -
  have "xs \<noteq> []" using assms by auto
  then show ?thesis
    using pass_descents [of xs] pass_seq_count_descents [of xs lessf] assms by linarith
qed

lemma pass_final:
  assumes "snd (pass_seq lessf xs) \<le> 1"
  shows "nondecreasing lessf (fst (pass_seq lessf xs))"
  using pass_descents [of xs] assms successively_conv_sorted_wrt [OF transp_le]
  by (simp add: descents_0_iff)

lemma pass_stable:
  "filter (equiv_under lessf k) (fst (pass_seq lessf xs)) = filter (equiv_under lessf k) xs"
proof (induction xs rule: pass_seq_cases [of _ lessf])
  case (One x xs r1)
  then show ?case using take_run_append [OF One] by (simp add: pass_seq_one)
next
  case (Two x xs r1 y ys r2 rest)
  obtain zs n where z: "pass_seq lessf rest = (zs, n)" by force
  have xs: "x # xs = r1 @ r2 @ rest"
    using take_run_append [OF Two(1)] take_run_append [OF Two(2)] by simp
  have "filter (equiv_under lessf k) (merge_seq lessf r1 r2) = filter (equiv_under lessf k) (r1 @ r2)"
    by (rule merge_stable) (rule run_nondecreasing [OF Two(1)])
  moreover have "filter (equiv_under lessf k) (x # xs) = filter (equiv_under lessf k) (r1 @ r2 @ rest)"
    by (simp only: xs)
  ultimately show ?case
    using Two(4) z by (simp del: filter.simps add: pass_seq_two [OF Two(1,2) z])
qed simp

lemma max_seq_max:
  "x \<in> insert m (set xs) \<Longrightarrow> \<not> lessf (max_seq lessf m xs) x"
proof (induction xs arbitrary: m x)
  case (Cons y ys)
  let ?m = "if lessf m y then y else m"
  have "\<not> lessf ?m z" if "z \<in> {m, y}" for z
    using that asym by auto
  then show ?case
    using Cons.prems Cons.IH [of _ ?m] le_trans by (metis insert_iff list.simps(15) max_seq.simps(2))
qed simp

lemma min_seq_min:
  "x \<in> insert m (set xs) \<Longrightarrow> \<not> lessf x (min_seq lessf m xs)"
proof (induction xs arbitrary: m x)
  case (Cons y ys)
  let ?m = "if lessf y m then y else m"
  have "\<not> lessf z ?m" if "z \<in> {m, y}" for z
    using that asym by auto
  then show ?case
    using Cons.prems Cons.IH [of _ ?m] le_trans by (metis insert_iff list.simps(15) min_seq.simps(2))
qed simp

end

end
