(* ===== verification/Klist_Rep.thy ===== *)
theory Klist_Rep
  imports Klist Klist_Spec
begin

text \<open>
  When does a piece of memory hold a kernel list, and what do the pointer assignments of
  \<^verbatim>\<open>lib/kernel/list.c\<close> do to it.

  \<open>chain h ps\<close> says that the addresses \<open>ps\<close>, the two headers included, are pairwise
  different, allocated, and linked both ways; \<open>klist h l xs\<close> says that the list at
  address \<open>l\<close> has the interior elements \<open>xs\<close>. The effect of every primitive is a
  lemma on chains, together with a frame: what is not in the chain is not changed.
\<close>

section \<open>Links\<close>

definition nx :: "lheap \<Rightarrow> ptr \<Rightarrow> ptr" where
  "nx h p = le_next (the (h p))"

definition pv :: "lheap \<Rightarrow> ptr \<Rightarrow> ptr" where
  "pv h p = le_prev (the (h p))"

fun linked :: "(ptr \<Rightarrow> ptr) \<Rightarrow> (ptr \<Rightarrow> ptr) \<Rightarrow> ptr list \<Rightarrow> bool" where
  "linked n v (p # q # ps) \<longleftrightarrow> n p = q \<and> v q = p \<and> linked n v (q # ps)"
| "linked n v ps \<longleftrightarrow> True"

lemma linked_append:
  "linked n v (as @ p # q # bs) \<longleftrightarrow>
     linked n v (as @ [p]) \<and> n p = q \<and> v q = p \<and> linked n v (q # bs)"
proof (induction as)
  case (Cons a as)
  then show ?case by (cases as) auto
qed auto

lemma linked_mid: "linked n v (as @ p # bs) \<longleftrightarrow> linked n v (as @ [p]) \<and> linked n v (p # bs)"
  by (cases bs) (auto simp: linked_append)

lemma linked_upd_next [simp]:
  "p \<notin> set (butlast ps) \<Longrightarrow> linked (n(p := x)) v ps = linked n v ps"
  by (induction n v ps rule: linked.induct) auto

lemma linked_upd_prev [simp]:
  "p \<notin> set (tl ps) \<Longrightarrow> linked n (v(p := x)) ps = linked n v ps"
  by (induction n v ps rule: linked.induct) auto

lemma linked_upd_fresh [simp]:
  "p \<notin> set ps \<Longrightarrow> linked (n(p := x)) v ps = linked n v ps"
  "p \<notin> set ps \<Longrightarrow> linked n (v(p := x)) ps = linked n v ps"
  by (induction n v ps rule: linked.induct; auto)+

lemma linked_app:
  "xs \<noteq> [] \<Longrightarrow> ys \<noteq> [] \<Longrightarrow> linked n v (xs @ ys) \<longleftrightarrow>
     linked n v xs \<and> linked n v ys \<and> n (last xs) = hd ys \<and> v (hd ys) = last xs"
  by (induction n v xs rule: linked.induct) (cases ys; auto)+

lemma linked_four:
  "M \<noteq> [] \<Longrightarrow> F \<noteq> [] \<Longrightarrow> linked n v (P @ p # M @ F @ t # R) \<longleftrightarrow>
     linked n v (P @ [p]) \<and> linked n v M \<and> linked n v F \<and> linked n v (t # R) \<and>
     n p = hd M \<and> v (hd M) = p \<and> n (last M) = hd F \<and> v (hd F) = last M \<and>
     n (last F) = t \<and> v t = last F"
  using linked_app [of "P @ [p]" "M @ F @ t # R" n v] linked_app [of M "F @ t # R" n v]
    linked_app [of F "t # R" n v]
  by auto

lemma distinct_ends:
  "distinct ps \<Longrightarrow> ps \<noteq> [] \<Longrightarrow> last ps \<notin> set (butlast ps)"
  "distinct ps \<Longrightarrow> ps \<noteq> [] \<Longrightarrow> hd ps \<notin> set (tl ps)"
  by (induction ps) (auto split: if_splits)

lemma linked_cong:
  "(\<And>p. p \<in> set ps \<Longrightarrow> n p = n' p \<and> v p = v' p) \<Longrightarrow> linked n v ps = linked n' v' ps"
  by (induction n v ps rule: linked.induct) auto

section \<open>Representation\<close>

definition chain :: "lheap \<Rightarrow> ptr list \<Rightarrow> bool" where
  "chain h ps \<longleftrightarrow> distinct ps \<and> NULL \<notin> set ps \<and> set ps \<subseteq> dom h \<and>
     pv h (hd ps) = NULL \<and> nx h (last ps) = NULL \<and> linked (nx h) (pv h) ps"

definition klist :: "lheap \<Rightarrow> ptr \<Rightarrow> ptr list \<Rightarrow> bool" where
  "klist h l xs \<longleftrightarrow> chain h (head_of l # xs @ [tail_of l])"

text \<open>The frame: memory outside a set of addresses is as it was.\<close>

definition same_outside :: "ptr set \<Rightarrow> lheap \<Rightarrow> lheap \<Rightarrow> bool" where
  "same_outside S h h' \<longleftrightarrow> dom h' = dom h \<and> (\<forall>q. q \<notin> S \<longrightarrow> h' q = h q)"

lemma same_outside_refl [simp]: "same_outside S h h"
  by (simp add: same_outside_def)

lemma same_outside_trans:
  "same_outside S h h' \<Longrightarrow> same_outside S h' h'' \<Longrightarrow> same_outside S h h''"
  by (simp add: same_outside_def)

lemma same_outside_mono: "same_outside S h h' \<Longrightarrow> S \<subseteq> T \<Longrightarrow> same_outside T h h'"
  by (auto simp: same_outside_def)

lemma chain_frame:
  assumes "chain h qs" and "same_outside S h h'" and "set qs \<inter> S = {}" and "qs \<noteq> []"
  shows "chain h' qs"
proof -
  have eq: "h' q = h q" if "q \<in> set qs" for q
    using assms that by (auto simp: same_outside_def)
  then have "linked (nx h') (pv h') qs = linked (nx h) (pv h) qs"
    by (intro linked_cong) (simp add: nx_def pv_def)
  moreover have "hd qs \<in> set qs" and "last qs \<in> set qs" using assms(4) by auto
  ultimately show ?thesis
    using assms(1,2) eq by (simp add: chain_def same_outside_def nx_def pv_def)
qed

lemma klist_frame:
  assumes "klist h m ys" and "same_outside S h h'"
    and "({head_of m, tail_of m} \<union> set ys) \<inter> S = {}"
  shows "klist h' m ys"
  using chain_frame [OF assms(1) [unfolded klist_def] assms(2)] assms(3)
  by (auto simp: klist_def)

section \<open>The assignments\<close>

definition upd_next :: "lheap \<Rightarrow> ptr \<Rightarrow> ptr \<Rightarrow> lheap" where
  "upd_next h p x = h(p \<mapsto> (the (h p))\<lparr>le_next := x\<rparr>)"

definition upd_prev :: "lheap \<Rightarrow> ptr \<Rightarrow> ptr \<Rightarrow> lheap" where
  "upd_prev h p x = h(p \<mapsto> (the (h p))\<lparr>le_prev := x\<rparr>)"

lemma upd_fields [simp]:
  "nx (upd_next h p x) = (nx h)(p := x)"
  "pv (upd_next h p x) = pv h"
  "nx (upd_prev h p x) = nx h"
  "pv (upd_prev h p x) = (pv h)(p := x)"
  by (auto simp: upd_next_def upd_prev_def nx_def pv_def)

lemma dom_upd [simp]:
  "p \<in> dom h \<Longrightarrow> dom (upd_next h p x) = dom h"
  "p \<in> dom h \<Longrightarrow> dom (upd_prev h p x) = dom h"
  by (auto simp: upd_next_def upd_prev_def)

lemma upd_other [simp]:
  "q \<noteq> p \<Longrightarrow> upd_next h p x q = h q"
  "q \<noteq> p \<Longrightarrow> upd_prev h p x q = h q"
  by (auto simp: upd_next_def upd_prev_def)

lemma same_outside_upd [simp]:
  "p \<in> S \<Longrightarrow> p \<in> dom h \<Longrightarrow> same_outside S h (upd_next h p x)"
  "p \<in> S \<Longrightarrow> p \<in> dom h \<Longrightarrow> same_outside S h (upd_prev h p x)"
  by (simp_all add: same_outside_def upd_other dom_upd) (auto simp: upd_next_def upd_prev_def)

lemma zero_or_pos [simp]: "n = NULL \<or> NULL < n" "NULL < n \<or> n = NULL"
  by auto

lemma rd_ok [simp]: "p \<in> dom h \<Longrightarrow> p \<noteq> NULL \<Longrightarrow> rd h p = Some (the (h p))"
  by (auto simp: rd_def)

lemma set_next_ok [simp]:
  "p \<in> dom h \<Longrightarrow> p \<noteq> NULL \<Longrightarrow> set_next h p x = Some (upd_next h p x)"
  by (simp add: set_next_def upd_next_def)

lemma set_prev_ok [simp]:
  "p \<in> dom h \<Longrightarrow> p \<noteq> NULL \<Longrightarrow> set_prev h p x = Some (upd_prev h p x)"
  by (simp add: set_prev_def upd_prev_def)

lemma the_fields [simp]:
  "le_next (the (h p)) = nx h p"
  "le_prev (the (h p)) = pv h p"
  by (simp_all add: nx_def pv_def)

lemma classify_ok [simp]:
  assumes "p \<in> dom h" and "p \<noteq> NULL"
  shows "is_head h p = Some (pv h p = NULL \<and> nx h p \<noteq> NULL)"
    and "is_interior h p = Some (pv h p \<noteq> NULL \<and> nx h p \<noteq> NULL)"
    and "is_tail h p = Some (pv h p \<noteq> NULL \<and> nx h p = NULL)"
  using assms by (simp_all add: is_head_def is_interior_def is_tail_def)

lemma list_next_ok:
  "p \<in> dom h \<Longrightarrow> p \<noteq> NULL \<Longrightarrow> nx h p \<noteq> NULL \<Longrightarrow> list_next h p = Some (nx h p)"
  by (simp add: list_next_def)

lemma list_prev_ok:
  "p \<in> dom h \<Longrightarrow> p \<noteq> NULL \<Longrightarrow> pv h p \<noteq> NULL \<Longrightarrow> list_prev h p = Some (pv h p)"
  by (simp add: list_prev_def)

section \<open>Positions in a chain\<close>

lemma chain_mem:
  assumes "chain h ps" and "p \<in> set ps"
  shows "p \<in> dom h" and "p \<noteq> NULL"
  using assms unfolding chain_def by (blast, metis)

lemma chain_adjacent:
  assumes "chain h (P @ p # q # Q)"
  shows "nx h p = q" and "pv h q = p"
  using assms by (auto simp: chain_def linked_append)

lemma chain_next:
  assumes "chain h (P @ p # q # Q)"
  shows "list_next h p = Some q"
  using chain_adjacent [OF assms] chain_mem [OF assms, of p] chain_mem [OF assms, of q]
  by (simp add: list_next_ok)

lemma chain_prev:
  assumes "chain h (P @ p # q # Q)"
  shows "list_prev h q = Some p"
  using chain_adjacent [OF assms] chain_mem [OF assms, of p] chain_mem [OF assms, of q]
  by (simp add: list_prev_ok)

text \<open>The same, where the successor is given as the first element of what follows.\<close>

lemma chain_next_hd:
  assumes "chain h (P @ p # Q)" and "Q \<noteq> []"
  shows "list_next h p = Some (hd Q)"
  using assms chain_next by (cases Q) auto

lemma chain_link:
  "chain h ps \<Longrightarrow> ps = P @ p # q # Q \<Longrightarrow> nx h p = q \<and> pv h q = p"
  using chain_adjacent by blast

lemma chain_nx_nonnull:
  assumes c: "chain h (P @ p # Q)" and "Q \<noteq> []"
  shows "nx h p \<noteq> NULL"
proof -
  obtain q Q' where Q: "Q = q # Q'" using assms(2) by (cases Q) auto
  show ?thesis
    using chain_adjacent(1) [of h P p q Q'] chain_mem(2) [OF c, of q] c Q by simp
qed

lemma chain_pv_nonnull:
  assumes c: "chain h (P @ p # Q)" and "P \<noteq> []"
  shows "pv h p \<noteq> NULL"
proof -
  obtain P' q where P: "P = P' @ [q]" using assms(2) by (cases P rule: rev_cases) auto
  show ?thesis
    using chain_adjacent(2) [of h P' q p Q] chain_mem(2) [OF c, of q] c P by simp
qed

section \<open>Insertion, removal and splicing of chains\<close>

lemma chain_insert:
  assumes c: "chain h (P @ p # b # Q)"
    and e: "e \<notin> set (P @ p # b # Q)" "e \<in> dom h" "e \<noteq> NULL"
  shows "\<exists>h'. list_insert h b e = Some h' \<and> chain h' (P @ p # e # b # Q) \<and>
    same_outside (insert e (set (P @ p # b # Q))) h h'"
proof -
  note m = chain_mem [OF c]
  have b: "b \<in> dom h" "b \<noteq> NULL" and p: "p \<in> dom h" "p \<noteq> NULL" using m by auto
  have adj: "nx h p = b" "pv h b = p" using chain_adjacent [OF c] by auto
  let ?h1 = "upd_next (upd_prev h e p) e b"
  let ?h2 = "upd_next ?h1 p e"
  let ?h' = "upd_prev ?h2 b e"
  have ne: "b \<noteq> e" "p \<noteq> e" "p \<noteq> b" using e c by (auto simp: chain_def)
  have run: "list_insert h b e = Some ?h'"
    using b p e adj ne by (simp add: list_insert_def)
  have d: "distinct (P @ p # b # Q)" and l: "linked (nx h) (pv h) (P @ p # b # Q)"
    using c by (simp_all add: chain_def)
  have "linked (nx ?h') (pv ?h') (P @ p # e # b # Q)"
    using l [unfolded linked_append] d e ne by (simp add: linked_append)
  moreover have "pv ?h' (hd (P @ p # e # b # Q)) = NULL" and "nx ?h' (last (P @ p # e # b # Q)) = NULL"
    using c d e ne by (cases P; cases Q rule: rev_cases; auto simp: chain_def)+
  ultimately have "chain ?h' (P @ p # e # b # Q)"
    using c d e b p by (auto simp: chain_def)
  moreover have "same_outside (insert e (set (P @ p # b # Q))) h ?h'"
    using b p e by (auto simp: same_outside_def)
  ultimately show ?thesis using run by blast
qed

lemma chain_remove:
  assumes c: "chain h (P @ p # e # b # Q)"
  shows "\<exists>h'. list_remove h e = Some (b, h') \<and> chain h' (P @ p # b # Q) \<and>
    same_outside (set (P @ p # b # Q)) h h' \<and> h' e = h e"
proof -
  note m = chain_mem [OF c]
  have b: "b \<in> dom h" "b \<noteq> NULL" and p: "p \<in> dom h" "p \<noteq> NULL" and e: "e \<in> dom h" "e \<noteq> NULL"
    using m by auto
  have adj: "nx h p = e" "pv h e = p" "nx h e = b" "pv h b = e"
    using chain_adjacent [OF c] chain_adjacent [of h "P @ [p]" e b Q] c by auto
  let ?h' = "upd_prev (upd_next h p b) b p"
  have d: "distinct (P @ p # e # b # Q)" and l: "linked (nx h) (pv h) (P @ p # e # b # Q)"
    using c by (simp_all add: chain_def)
  have run: "list_remove h e = Some (b, ?h')"
    using b p e adj d by (simp add: list_remove_def)
  have "linked (nx ?h') (pv ?h') (P @ p # b # Q)"
    using l [unfolded linked_append] d by (simp add: linked_append)
  moreover have "pv ?h' (hd (P @ p # b # Q)) = NULL" and "nx ?h' (last (P @ p # b # Q)) = NULL"
    using c d by (cases P; cases Q rule: rev_cases; auto simp: chain_def)+
  ultimately have "chain ?h' (P @ p # b # Q)"
    using c d b p by (auto simp: chain_def)
  moreover have "same_outside (set (P @ p # b # Q)) h ?h'"
    using b p by (auto simp: same_outside_def)
  moreover have "?h' e = h e" using d by simp
  ultimately show ?thesis using run by blast
qed

lemma chain_segment_nonnull:
  assumes c: "chain h (P @ S @ Q)" and "P \<noteq> []" and "S \<noteq> []" and "Q \<noteq> []"
  shows "nx h (hd S) \<noteq> NULL" and "pv h (hd S) \<noteq> NULL"
    and "nx h (last S) \<noteq> NULL" and "pv h (last S) \<noteq> NULL"
proof -
  obtain s S1 where S1: "S = s # S1" using assms(3) by (cases S) auto
  with c assms(2,4) chain_nx_nonnull [of h P s "S1 @ Q"] chain_pv_nonnull [of h P s "S1 @ Q"]
  show "nx h (hd S) \<noteq> NULL" and "pv h (hd S) \<noteq> NULL" by simp_all
  obtain S2 u where S2: "S = S2 @ [u]" using assms(3) by (cases S rule: rev_cases) auto
  with c assms(2,4) chain_nx_nonnull [of h "P @ S2" u Q] chain_pv_nonnull [of h "P @ S2" u Q]
  show "nx h (last S) \<noteq> NULL" and "pv h (last S) \<noteq> NULL" by simp_all
qed

text \<open>
  \<^verbatim>\<open>list_splice\<close> within one list: the segment \<open>F\<close> that ends before \<open>t\<close> moves in
  front of the segment \<open>M\<close> that precedes it.
\<close>

lemma chain_splice:
  assumes c: "chain h (P @ p # M @ F @ t # R)" and M: "M \<noteq> []" and F: "F \<noteq> []"
  shows "\<exists>h'. list_splice h (hd M) (hd F) t = Some h' \<and> chain h' (P @ p # F @ M @ t # R) \<and>
    same_outside (set (P @ p # M @ F @ t # R)) h h'"
proof -
  let ?b = "hd M" and ?q = "last M" and ?f = "hd F" and ?l = "last F"
  let ?ps = "P @ p # M @ F @ t # R"
  have d: "distinct ?ps" and l: "linked (nx h) (pv h) ?ps"
    using c by (simp_all add: chain_def)
  note links = l [unfolded linked_four [OF M F]]
  have in': "?b \<in> set M" "?q \<in> set M" "?f \<in> set F" "?l \<in> set F" using M F by auto
  have mem: "x \<in> dom h \<and> x \<noteq> NULL" if "x \<in> {p, t, ?b, ?q, ?f, ?l}" for x
    using that in' chain_mem [OF c, of x] by auto
  have ne: "?f \<noteq> t" "?b \<noteq> ?f" "?b \<noteq> ?l" "?q \<noteq> ?f" "?q \<noteq> ?l" "p \<noteq> ?b" "p \<noteq> ?q" "p \<noteq> ?f" "p \<noteq> ?l"
      "p \<noteq> t" "?b \<noteq> t" "?q \<noteq> t" "?l \<noteq> t"
    using d in' by auto
  have out: "x \<notin> set P" "x \<notin> set R" if "x \<in> {?b, ?q, ?f, ?l}" for x
    using that d in' by auto
  have out': "?q \<notin> set F" "?b \<notin> set F" "?l \<notin> set M" "?f \<notin> set M"
    using d in' by auto
  have inner: "nx h ?b \<noteq> NULL" "pv h ?b \<noteq> NULL" "nx h ?f \<noteq> NULL" "pv h ?f \<noteq> NULL"
    "nx h ?l \<noteq> NULL" "pv h ?l \<noteq> NULL"
    using chain_segment_nonnull [of h "P @ [p]" M "F @ t # R"]
      chain_segment_nonnull [of h "P @ p # M" F "t # R"] c M F
    by simp_all
  define h' where "h' = upd_prev (upd_next (upd_next (upd_prev (upd_prev (upd_next h ?q t) t ?q) ?f p) ?l ?b) p ?f) ?b ?l"
  have run: "list_splice h ?b ?f t = Some h'"
    unfolding h'_def using links mem ne inner by (simp add: list_splice_def list_prev_ok)
  have n': "nx h' = (nx h)(?q := t, ?l := ?b, p := ?f)"
    and v': "pv h' = (pv h)(t := ?q, ?f := p, ?b := ?l)"
    unfolding h'_def by simp_all
  have dom: "dom h' = dom h" unfolding h'_def using mem by simp
  have frame: "h' x = h x" if "x \<notin> set ?ps" for x
  proof -
    have "x \<noteq> p" "x \<noteq> t" "x \<noteq> ?b" "x \<noteq> ?q" "x \<noteq> ?f" "x \<noteq> ?l" using that in' by auto
    then show ?thesis by (simp add: h'_def)
  qed
  have "linked (nx h') (pv h') (P @ p # F @ M @ t # R)"
    unfolding linked_four [OF F M] n' v'
    using links d ne out out' distinct_ends [of M] distinct_ends [of F] M F
    by simp
  moreover have "pv h' (hd (P @ p # F @ M @ t # R)) = NULL"
  proof -
    have hdeq: "hd (P @ p # F @ M @ t # R) = hd (P @ [p])" "hd ?ps = hd (P @ [p])"
      by (cases P; simp)+
    have "hd (P @ [p]) \<in> set (P @ [p])" by (cases P) auto
    then have "hd (P @ [p]) \<noteq> t" "hd (P @ [p]) \<noteq> ?f" "hd (P @ [p]) \<noteq> ?b" using d in' by auto
    moreover have "pv h (hd (P @ [p])) = NULL" using c unfolding chain_def hdeq(2) by blast
    ultimately show ?thesis unfolding hdeq(1) v' by simp
  qed
  moreover have "nx h' (last (P @ p # F @ M @ t # R)) = NULL"
  proof -
    have "last (t # R) \<noteq> ?q" "last (t # R) \<noteq> ?l" "last (t # R) \<noteq> p"
      using d in' last_in_set [of "t # R"] by auto
    moreover have "nx h (last (t # R)) = NULL" using c by (simp add: chain_def)
    ultimately show ?thesis unfolding n' by simp
  qed
  moreover have "set (P @ p # F @ M @ t # R) = set ?ps" and "distinct (P @ p # F @ M @ t # R)"
    using d by auto
  ultimately have "chain h' (P @ p # F @ M @ t # R)"
    using c dom unfolding chain_def by metis
  then show ?thesis using run dom frame unfolding same_outside_def by blast
qed

end
