(* ===== verification/Klist_Refine.thy ===== *)
theory Klist_Refine
  imports Klist_Rep
begin

text \<open>
  The routines of \<^verbatim>\<open>lib/kernel/list.c\<close> implement the operations of \<open>Klist_Spec\<close>: on
  memory that holds a list they return (no assertion fails, no loop runs forever), the memory
  afterwards holds the list the specification computes, and nothing else is changed.
\<close>

definition cells :: "ptr \<Rightarrow> ptr list \<Rightarrow> ptr set" where
  "cells l xs = insert (head_of l) (insert (tail_of l) (set xs))"

lemma cells_simps [simp]:
  "cells l (xs @ ys) = cells l xs \<union> set ys"
  "cells l (x # xs) = insert x (cells l xs)"
  by (auto simp: cells_def)

text \<open>An address that may be linked into a list: allocated, and not a cell of the list.\<close>

definition linkable :: "lheap \<Rightarrow> ptr \<Rightarrow> ptr list \<Rightarrow> ptr \<Rightarrow> bool" where
  "linkable h l xs e \<longleftrightarrow> e \<in> dom h \<and> e \<noteq> NULL \<and> e \<notin> cells l xs"

section \<open>Chains split in two\<close>

lemma chain_insert_between:
  assumes c: "chain h (A @ B)" and "A \<noteq> []" and "B \<noteq> []"
    and e: "e \<notin> set (A @ B)" "e \<in> dom h" "e \<noteq> NULL"
  shows "\<exists>h'. list_insert h (hd B) e = Some h' \<and> chain h' (A @ e # B) \<and>
    same_outside (insert e (set (A @ B))) h h'"
proof -
  obtain P p where A: "A = P @ [p]" using assms(2) by (cases A rule: rev_cases) auto
  obtain b Q where B: "B = b # Q" using assms(3) by (cases B) auto
  show ?thesis using chain_insert [of h P p b Q e] c e A B by simp
qed

lemma chain_remove_between:
  assumes c: "chain h (A @ e # B)" and "A \<noteq> []" and "B \<noteq> []"
  shows "\<exists>h'. list_remove h e = Some (hd B, h') \<and> chain h' (A @ B) \<and>
    same_outside (set (A @ B)) h h' \<and> h' e = h e"
proof -
  obtain P p where A: "A = P @ [p]" using assms(2) by (cases A rule: rev_cases) auto
  obtain b Q where B: "B = b # Q" using assms(3) by (cases B) auto
  show ?thesis using chain_remove [of h P p e b Q] c A B by simp
qed

section \<open>Access\<close>

lemma klist_nonnull:
  assumes "klist h l xs"
  shows "l \<noteq> NULL" and "head_of l \<in> dom h" and "tail_of l \<in> dom h"
    and "head_of l \<noteq> NULL" and "tail_of l \<noteq> NULL"
    and "head_of l \<notin> set xs" and "tail_of l \<notin> set xs" and "distinct xs"
    and "set xs \<subseteq> dom h" and "NULL \<notin> set xs"
proof -
  have d: "distinct (head_of l # xs @ [tail_of l])" and n: "NULL \<notin> set (head_of l # xs @ [tail_of l])"
    and s: "set (head_of l # xs @ [tail_of l]) \<subseteq> dom h"
    using assms unfolding klist_def chain_def by blast+
  show "l \<noteq> NULL" using n by (simp add: head_of_def)
  show "head_of l \<in> dom h" "tail_of l \<in> dom h" "set xs \<subseteq> dom h" using s by simp_all
  show "head_of l \<noteq> NULL" "tail_of l \<noteq> NULL" "NULL \<notin> set xs" using n by (simp_all add: cells_def)
  show "head_of l \<notin> set xs" "tail_of l \<notin> set xs" "distinct xs" using d by simp_all
qed

lemma klist_split:
  "klist h l (as @ bs) \<longleftrightarrow> chain h ((head_of l # as) @ (bs @ [tail_of l]))"
  by (simp add: klist_def)

lemma list_init_klist:
  assumes "l \<noteq> NULL"
  shows "\<exists>h'. list_init h l = Some h' \<and> klist h' l [] \<and> (\<forall>q. q \<notin> cells l [] \<longrightarrow> h' q = h q)"
  using assms
  by (simp add: list_init_def klist_def chain_def nx_def pv_def head_of_def tail_of_def cells_def
      del: the_fields)

lemma list_begin_klist: "klist h l xs \<Longrightarrow> list_begin h l = Some (hd (xs @ [tail_of l]))"
  using chain_next_hd [of h "[]" "head_of l" "xs @ [tail_of l]"] klist_nonnull [of h l xs]
  by (auto simp: klist_def list_begin_def list_next_def kres)

lemma list_end_klist: "klist h l xs \<Longrightarrow> list_end l = Some (tail_of l)"
  using klist_nonnull(1) by (simp add: list_end_def)

lemma list_rbegin_klist:
  assumes k: "klist h l xs"
  shows "list_rbegin h l = Some (last (head_of l # xs))"
proof -
  have "chain h (butlast (head_of l # xs) @ last (head_of l # xs) # tail_of l # [])"
    using k append_butlast_last_id [of "head_of l # xs"] unfolding klist_def
    by (metis append.assoc append_Cons append_Nil list.distinct(1))
  then have "pv h (tail_of l) = last (head_of l # xs)" by (rule chain_adjacent(2))
  then show ?thesis using klist_nonnull [OF k] by (simp add: list_rbegin_def)
qed

lemma list_empty_klist: "klist h l xs \<Longrightarrow> list_empty h l = Some (xs = [])"
  using klist_nonnull(7) [of h l xs]
  by (cases xs) (auto simp: list_empty_def list_begin_klist list_end_klist)

lemma list_front_klist: "klist h l (x # xs) \<Longrightarrow> list_front h l = Some x"
  using list_begin_klist [of h l "x # xs"]
  by (simp add: list_front_def list_empty_klist list_begin_def klist_nonnull kres)

lemma list_back_klist: "klist h l (xs @ [x]) \<Longrightarrow> list_back h l = Some x"
  using list_rbegin_klist [of h l "xs @ [x]"]
  by (simp add: list_back_def list_empty_klist list_rbegin_def klist_nonnull kres)

lemma list_next_klist: "klist h l (as @ x # bs) \<Longrightarrow> list_next h x = Some (hd (bs @ [tail_of l]))"
  using chain_next_hd [of h "head_of l # as" x "bs @ [tail_of l]"] by (simp add: klist_def)

section \<open>Insertion and removal\<close>

lemma list_insert_klist:
  assumes "klist h l (as @ bs)" and "linkable h l (as @ bs) e"
  shows "\<exists>h'. list_insert h (hd (bs @ [tail_of l])) e = Some h' \<and> klist h' l (as @ e # bs) \<and>
    same_outside (insert e (cells l (as @ bs))) h h'"
proof -
  have s: "set ((head_of l # as) @ bs @ [tail_of l]) = cells l (as @ bs)" by (auto simp: cells_def)
  show ?thesis
    using chain_insert_between [of h "head_of l # as" "bs @ [tail_of l]" e, unfolded s] assms
    by (simp add: klist_def linkable_def)
qed

lemma list_push_front_klist:
  assumes "klist h l xs" and "linkable h l xs e"
  shows "\<exists>h'. list_push_front h l e = Some h' \<and> klist h' l (e # xs) \<and>
    same_outside (insert e (cells l xs)) h h'"
  using list_insert_klist [of h l "[]" xs e] assms
  by (simp add: list_push_front_def list_begin_klist)

lemma list_push_back_klist:
  assumes "klist h l xs" and "linkable h l xs e"
  shows "\<exists>h'. list_push_back h l e = Some h' \<and> klist h' l (xs @ [e]) \<and>
    same_outside (insert e (cells l xs)) h h'"
  using list_insert_klist [of h l xs "[]" e] assms
  by (simp add: list_push_back_def list_end_klist)

lemma list_remove_klist:
  assumes "klist h l (as @ e # bs)"
  shows "\<exists>h'. list_remove h e = Some (hd (bs @ [tail_of l]), h') \<and> klist h' l (as @ bs) \<and>
    same_outside (cells l (as @ bs)) h h' \<and> h' e = h e"
proof -
  have s: "set ((head_of l # as) @ bs @ [tail_of l]) = cells l (as @ bs)" by (auto simp: cells_def)
  show ?thesis
    using chain_remove_between [of h "head_of l # as" e "bs @ [tail_of l]", unfolded s] assms
    by (simp add: klist_def)
qed

lemma list_pop_front_klist:
  assumes "klist h l (x # xs)"
  shows "\<exists>h'. list_pop_front h l = Some (x, h') \<and> klist h' l xs \<and>
    same_outside (cells l xs) h h' \<and> h' x = h x"
  using list_remove_klist [of h l "[]" x xs] assms
  by (auto simp: list_pop_front_def list_front_klist)

lemma list_pop_back_klist:
  assumes "klist h l (xs @ [x])"
  shows "\<exists>h'. list_pop_back h l = Some (x, h') \<and> klist h' l xs \<and>
    same_outside (cells l xs) h h' \<and> h' x = h x"
  using list_remove_klist [of h l xs x "[]"] assms
  by (auto simp: list_pop_back_def list_back_klist)

section \<open>Size and position loops\<close>

lemma list_size_loop_klist:
  assumes "klist h l (as @ bs)" and "cnt + length bs < 2 ^ 32"
  shows "list_size_loop h (hd (bs @ [tail_of l])) (tail_of l) cnt = Some (cnt + length bs)"
  using assms
proof (induction bs arbitrary: as cnt)
  case (Cons b bs)
  have "b \<noteq> tail_of l" using klist_nonnull(7) [OF Cons.prems(1)] by auto
  then show ?case
    using Cons.IH [of "as @ [b]" "cnt + 1"] Cons.prems list_next_klist [OF Cons.prems(1)]
    by (subst list_size_loop.simps) simp
qed (subst list_size_loop.simps, simp)

lemma list_size_klist:
  assumes "klist h l xs" and "length xs < 2 ^ 32"
  shows "list_size h l = Some (length xs)"
  using list_size_loop_klist [of h l "[]" xs 0] assms
  by (simp add: list_size_def list_begin_klist list_end_klist)

text \<open>Where an ordered insertion splits the list.\<close>

fun split_before :: "less_func \<Rightarrow> ptr \<Rightarrow> ptr list \<Rightarrow> ptr list \<times> ptr list" where
  "split_before lessf x [] = ([], [])"
| "split_before lessf x (y # ys) =
     (if lessf x y then ([], y # ys) else (let (as, bs) = split_before lessf x ys in (y # as, bs)))"

lemma split_before_insert:
  "split_before lessf x xs = (as, bs) \<Longrightarrow> xs = as @ bs \<and> insert_seq lessf x xs = as @ x # bs"
  by (induction xs arbitrary: as bs) (auto split: if_splits prod.splits)

lemma find_position_klist:
  assumes "klist h l (P @ xs)" and "split_before lessf x xs = (as, bs)"
  shows "find_position h lessf x (hd (xs @ [tail_of l])) (tail_of l) = Some (hd (bs @ [tail_of l]))"
  using assms
proof (induction xs arbitrary: P as bs)
  case (Cons y ys)
  have ne: "y \<noteq> tail_of l" using klist_nonnull(7) [OF Cons.prems(1)] by auto
  show ?case
  proof (cases "lessf x y")
    case True
    with ne Cons.prems(2) show ?thesis by (subst find_position.simps) auto
  next
    case False
    obtain as' where "split_before lessf x ys = (as', bs)"
      using Cons.prems(2) False by (auto split: prod.splits)
    then show ?thesis
      using Cons.IH [of "P @ [y]" as' bs] Cons.prems(1) False ne list_next_klist [OF Cons.prems(1)]
      by (subst find_position.simps) simp
  qed
qed (subst find_position.simps, simp)

lemma list_insert_ordered_klist:
  assumes "klist h l xs" and "linkable h l xs e"
  shows "\<exists>h'. list_insert_ordered h lessf l e = Some h' \<and> klist h' l (insert_seq lessf e xs) \<and>
    same_outside (insert e (cells l xs)) h h'"
proof -
  obtain as bs where s: "split_before lessf e xs = (as, bs)" by force
  have xs: "xs = as @ bs" and ins: "insert_seq lessf e (as @ bs) = as @ e # bs"
    using split_before_insert [OF s] by auto
  have "find_position h lessf e (hd (xs @ [tail_of l])) (tail_of l) = Some (hd (bs @ [tail_of l]))"
    using find_position_klist [of h l "[]" xs, OF _ s] assms(1) by simp
  then show ?thesis
    using list_insert_klist [of h l as bs e] assms xs ins klist_nonnull(1) [OF assms(1)]
    by (simp add: list_insert_ordered_def list_begin_klist list_end_klist linkable_def)
qed

lemma list_max_loop_klist:
  assumes "klist h l (as @ bs)"
  shows "list_max_loop h lessf m (hd (bs @ [tail_of l])) (tail_of l) = Some (max_seq lessf m bs)"
  using assms
proof (induction bs arbitrary: as m)
  case (Cons b bs)
  have "b \<noteq> tail_of l" using klist_nonnull(7) [OF Cons.prems] by auto
  then show ?case
    using Cons.IH [of "as @ [b]"] Cons.prems list_next_klist [OF Cons.prems]
    by (subst list_max_loop.simps) simp
qed (subst list_max_loop.simps, simp)

lemma list_max_klist:
  assumes "klist h l (x # xs)"
  shows "list_max h lessf l = Some (max_seq lessf x xs)"
  using assms list_max_loop_klist [of h l "[x]" xs] list_next_klist [of h l "[]" x xs]
    klist_nonnull(7) [OF assms]
  by (simp add: list_max_def list_begin_klist list_end_klist)

lemma list_min_loop_klist:
  assumes "klist h l (as @ bs)"
  shows "list_min_loop h lessf m (hd (bs @ [tail_of l])) (tail_of l) = Some (min_seq lessf m bs)"
  using assms
proof (induction bs arbitrary: as m)
  case (Cons b bs)
  have "b \<noteq> tail_of l" using klist_nonnull(7) [OF Cons.prems] by auto
  then show ?case
    using Cons.IH [of "as @ [b]"] Cons.prems list_next_klist [OF Cons.prems]
    by (subst list_min_loop.simps) simp
qed (subst list_min_loop.simps, simp)

lemma list_min_klist:
  assumes "klist h l (x # xs)"
  shows "list_min h lessf l = Some (min_seq lessf x xs)"
  using assms list_min_loop_klist [of h l "[x]" xs] list_next_klist [of h l "[]" x xs]
    klist_nonnull(7) [OF assms]
  by (simp add: list_min_def list_begin_klist list_end_klist)

end
