(* ===== verification/Klist_Sort.thy ===== *)
theory Klist_Sort
  imports Klist_Refine
begin

text \<open>
  \<^verbatim>\<open>list_sort\<close>, the natural in-place merge sort of \<^verbatim>\<open>lib/kernel/list.c\<close>: the pointer
  code computes one pass of the specification per pass, passes strictly reduce the number of
  descents as long as more than one run is left, and the list ends up sorted and stable.
\<close>

lemma is_sorted_loop_chain:
  assumes "chain h (P @ a # bs @ b # Q)"
  shows "is_sorted_loop h lessf a b = Some (successively (\<lambda>x y. \<not> lessf y x) (a # bs))"
  using assms
proof (induction bs arbitrary: P a)
  case Nil
  then show ?case using chain_next [of h P a b Q] by (subst is_sorted_loop.simps) simp
next
  case (Cons y ys)
  have "list_next h a = Some y" "list_prev h y = Some a"
    using chain_next [of h P a y "ys @ b # Q"] chain_prev [of h P a y "ys @ b # Q"] Cons.prems
    by simp_all
  moreover have "y \<noteq> b" using Cons.prems by (simp add: chain_def)
  moreover have "is_sorted_loop h lessf y b = Some (successively (\<lambda>x y. \<not> lessf y x) (y # ys))"
    using Cons.IH [of "P @ [a]" y] Cons.prems by simp
  ultimately show ?case by (subst is_sorted_loop.simps) simp
qed

lemma is_sorted_chain:
  assumes "chain h (P @ xs @ b # Q)"
  shows "is_sorted h lessf (hd (xs @ [b])) b = Some (successively (\<lambda>x y. \<not> lessf y x) xs)"
proof (cases xs)
  case (Cons a as)
  then have "a \<noteq> b" using assms by (simp add: chain_def)
  then show ?thesis
    using is_sorted_loop_chain [of h P a as b Q lessf] assms Cons by (simp add: is_sorted_def)
qed (simp add: is_sorted_def)

lemma find_end_of_run_loop_chain:
  assumes "chain h (P @ a # bs @ b # Q)" and "take_run lessf a bs = (r, rest)"
  shows "find_end_of_run_loop h lessf a b = Some (hd (rest @ [b]))"
  using assms
proof (induction bs arbitrary: P a r)
  case Nil
  then show ?case using chain_next [of h P a b Q] by (subst find_end_of_run_loop.simps) simp
next
  case (Cons y ys)
  have "list_next h a = Some y" "list_prev h y = Some a"
    using chain_next [of h P a y "ys @ b # Q"] chain_prev [of h P a y "ys @ b # Q"] Cons.prems
    by simp_all
  moreover have "y \<noteq> b" using Cons.prems by (simp add: chain_def)
  moreover have "find_end_of_run_loop h lessf y b = Some (hd (rest @ [b]))" if "\<not> lessf y a"
    using that Cons.IH [of "P @ [a]" y "tl r"] Cons.prems by (auto split: prod.splits)
  ultimately show ?case using Cons.prems(2) by (subst find_end_of_run_loop.simps) auto
qed

lemma find_end_of_run_chain:
  assumes "chain h (P @ a # bs @ b # Q)" and "take_run lessf a bs = (r, rest)"
  shows "find_end_of_run h lessf a b = Some (hd (rest @ [b]))"
  using find_end_of_run_loop_chain [OF assms] chain_mem(2) [OF assms(1), of a]
    chain_mem(2) [OF assms(1), of b] assms(1)
  by (simp add: find_end_of_run_def chain_def)

lemma inplace_merge_loop_chain:
  assumes "chain h (P @ p # As @ Bs @ b1 # Q)"
  shows "\<exists>h'. inplace_merge_loop h lessf (hd (As @ Bs @ [b1])) (hd (Bs @ [b1])) b1 = Some h' \<and>
    chain h' (P @ p # merge_seq lessf As Bs @ b1 # Q) \<and>
    same_outside (set (P @ p # As @ Bs @ b1 # Q)) h h'"
  using assms
proof (induction As Bs arbitrary: P p h rule: merge_seq_fixed_induct [of _ lessf])
  case (Nil1 bs)
  then show ?case by (subst inplace_merge_loop.simps) simp
next
  case (Nil2 a as)
  then show ?case by (subst inplace_merge_loop.simps) simp
next
  case (Cons a as b bs)
  let ?S = "set (P @ p # (a # as) @ (b # bs) @ b1 # Q)"
  have ne: "a \<noteq> b" "b \<noteq> b1" using Cons.prems by (auto simp: chain_def)
  show ?case
  proof (cases "lessf b a")
    case False
    have "list_next h a = Some (hd (as @ (b # bs) @ [b1]))"
      using chain_next_hd [of h "P @ [p]" a "as @ (b # bs) @ b1 # Q"] Cons.prems
      by (cases as) simp_all
    moreover obtain h' where
      "inplace_merge_loop h lessf (hd (as @ (b # bs) @ [b1])) (hd ((b # bs) @ [b1])) b1 = Some h'"
      "chain h' ((P @ [p]) @ a # merge_seq lessf as (b # bs) @ b1 # Q)"
      "same_outside (set ((P @ [p]) @ a # as @ (b # bs) @ b1 # Q)) h h'"
      using Cons.IH(1) [OF False, of h "P @ [p]" a] Cons.prems by auto
    ultimately show ?thesis
      using False ne by (subst inplace_merge_loop.simps) simp
  next
    case True
    let ?n = "hd (bs @ [b1])"
    have nx: "list_next h b = Some ?n"
      using chain_next_hd [of h "P @ p # a # as" b "bs @ b1 # Q"] Cons.prems by (cases bs) simp_all
    have pv: "list_prev h ?n = Some b"
      using chain_prev [of h "P @ p # a # as" b ?n "tl (bs @ b1 # Q)"] Cons.prems
      by (cases bs) simp_all
    obtain h1 where h1: "list_splice h a b ?n = Some h1"
        "chain h1 (P @ p # [b] @ (a # as) @ bs @ b1 # Q)" "same_outside ?S h h1"
      using chain_splice [of h P p "a # as" "[b]" ?n "tl (bs @ b1 # Q)"] Cons.prems
      by (cases bs) auto
    obtain h' where h': "inplace_merge_loop h1 lessf (hd ((a # as) @ bs @ [b1])) ?n b1 = Some h'"
        "chain h' ((P @ [p]) @ b # merge_seq lessf (a # as) bs @ b1 # Q)"
        "same_outside (set ((P @ [p]) @ b # (a # as) @ bs @ b1 # Q)) h1 h'"
      using Cons.IH(2) [OF True, of h1 "P @ [p]" b] h1(2) by auto
    have "set ((P @ [p]) @ b # (a # as) @ bs @ b1 # Q) = ?S" by auto
    then have "same_outside ?S h h'" using h1(3) h'(3) same_outside_trans by metis
    then show ?thesis
      using True ne nx pv h1(1) h'(1,2) by (subst inplace_merge_loop.simps) simp
  qed
qed

lemma inplace_merge_chain:
  assumes c: "chain h (P @ p # As @ Bs @ b1 # Q)"
    and "successively (\<lambda>x y. \<not> lessf y x) As" and "successively (\<lambda>x y. \<not> lessf y x) Bs"
    and "As \<noteq> []" and "Bs \<noteq> []"
  shows "\<exists>h'. inplace_merge h lessf (hd As) (hd Bs) b1 = Some h' \<and>
    chain h' (P @ p # merge_seq lessf As Bs @ b1 # Q) \<and>
    same_outside (set (P @ p # As @ Bs @ b1 # Q)) h h'"
proof -
  obtain a as b bs where AB: "As = a # as" "Bs = b # bs" using assms(4,5) by (meson list.exhaust)
  have "is_sorted h lessf a b = Some True"
    using is_sorted_chain [of h "P @ [p]" As b "bs @ b1 # Q" lessf] c assms(2) AB by simp
  moreover have "is_sorted h lessf b b1 = Some True"
    using is_sorted_chain [of h "P @ p # As" Bs b1 Q lessf] c assms(3) AB by simp
  moreover have "a \<noteq> NULL" "b \<noteq> NULL" "b1 \<noteq> NULL"
    using chain_mem(2) [OF c, of a] chain_mem(2) [OF c, of b] chain_mem(2) [OF c, of b1] AB
    by simp_all
  ultimately show ?thesis
    using inplace_merge_loop_chain [OF c, of lessf] AB by (simp add: inplace_merge_def)
qed

lemma set_cells: "set (head_of l # xs @ [tail_of l]) = cells l xs"
  by (auto simp: cells_def)

lemma list_sort_pass_klist:
  assumes "klist h l (ds @ xs)" and "c + length xs < 2 ^ 32"
  shows "\<exists>h'. list_sort_pass h lessf (hd (xs @ [tail_of l])) (tail_of l) c
      = Some (h', c + snd (pass_seq lessf xs)) \<and>
    klist h' l (ds @ fst (pass_seq lessf xs)) \<and> same_outside (cells l (ds @ xs)) h h'"
  using assms
proof (induction xs arbitrary: h ds c rule: pass_seq_cases [of _ lessf])
  case (Nil xs)
  then show ?case by (subst list_sort_pass.simps) simp
next
  case (One x xs r1)
  have ne: "x \<noteq> tail_of l" using klist_nonnull(7) [OF One.prems(1)] by auto
  have "find_end_of_run h lessf x (tail_of l) = Some (tail_of l)"
    using find_end_of_run_chain [of h "head_of l # ds" x xs "tail_of l" "[]" lessf r1 "[]"]
      One by (simp add: klist_def)
  moreover have "r1 = x # xs" using take_run_append [OF One.hyps] by simp
  ultimately show ?case
    using ne One.prems by (subst list_sort_pass.simps) (simp add: pass_seq_one [OF One.hyps])
next
  case (Two x xs r1 y ys r2 rest)
  obtain zs n where z: "pass_seq lessf rest = (zs, n)" by force
  obtain r1' r2' where r: "r1 = x # r1'" "r2 = y # r2'"
    using take_run_Cons [OF Two.hyps(1)] take_run_Cons [OF Two.hyps(2)] by blast
  have xs: "x # xs = r1 @ r2 @ rest" and ys: "y # ys = r2 @ rest"
    using take_run_append [OF Two.hyps(1)] take_run_append [OF Two.hyps(2)] by simp_all
  have k: "klist h l (ds @ r1 @ r2 @ rest)" using Two.prems(1) xs by simp
  have k2: "klist h l (ds @ r1 @ y # ys)" using k ys by simp
  let ?t = "tail_of l" and ?b1 = "hd (rest @ [tail_of l])" and ?Q = "tl (rest @ [tail_of l])"
  have rt: "rest @ [?t] = ?b1 # ?Q" by simp
  obtain P p where Pp: "head_of l # ds = P @ [p]" by (metis rev_exhaust list.distinct(1))
  have c1: "chain h (P @ p # r1 @ r2 @ ?b1 # ?Q)"
    using k Pp rt unfolding klist_def by (metis append.assoc append_Cons append_Nil)
  have ne: "x \<noteq> ?t" "y \<noteq> ?t" using klist_nonnull(7) [OF k] r by auto
  have f1: "find_end_of_run h lessf x ?t = Some y"
    using find_end_of_run_chain [of h "head_of l # ds" x xs ?t "[]" lessf r1 "y # ys"] Two
    by (simp add: klist_def)
  have f2: "find_end_of_run h lessf y ?t = Some ?b1"
    using find_end_of_run_chain [of h "head_of l # ds @ r1" y ys ?t "[]" lessf r2 rest] k2 Two.hyps(2)
    by (simp add: klist_def)
  obtain h1 where h1: "inplace_merge h lessf x y ?b1 = Some h1"
      "chain h1 (P @ p # merge_seq lessf r1 r2 @ ?b1 # ?Q)"
      "same_outside (set (P @ p # r1 @ r2 @ ?b1 # ?Q)) h h1"
    using inplace_merge_chain [OF c1, of lessf] take_run_successively [OF Two.hyps(1)]
      take_run_successively [OF Two.hyps(2)] r by auto
  let ?m = "merge_seq lessf r1 r2"
  have k1: "klist h1 l ((ds @ ?m) @ rest)"
    using h1(2) Pp rt unfolding klist_def by (metis append.assoc append_Cons append_Nil)
  have "P @ p # r1 @ r2 @ ?b1 # ?Q = head_of l # (ds @ r1 @ r2 @ rest) @ [?t]"
    using Pp rt by (metis append.assoc append_Cons append_Nil)
  then have "set (P @ p # r1 @ r2 @ ?b1 # ?Q) = cells l (ds @ r1 @ r2 @ rest)"
    using set_cells by metis
  with h1(3) have s1: "same_outside (cells l (ds @ r1 @ r2 @ rest)) h h1" by metis
  have len: "(c + 1) + length rest < 2 ^ 32"
    using Two.prems(2) arg_cong [OF xs, of length] r by simp
  obtain h' where h': "list_sort_pass h1 lessf ?b1 ?t (c + 1) = Some (h', (c + 1) + n)"
      "klist h' l ((ds @ ?m) @ zs)" "same_outside (cells l ((ds @ ?m) @ rest)) h1 h'"
    using Two.IH [OF k1 len] z by auto
  have "cells l ((ds @ ?m) @ rest) = cells l (ds @ r1 @ r2 @ rest)" by auto
  then have "same_outside (cells l (ds @ x # xs)) h h'"
    using same_outside_trans [OF s1] h'(3) xs by metis
  moreover have "list_sort_pass h lessf x ?t c = Some (h', c + (n + 1))"
    using ne f1 f2 h1(1) h'(1) len by (subst list_sort_pass.simps) simp
  ultimately show ?case
    using h'(2) by (simp add: pass_seq_two [OF Two.hyps(1,2) z])
qed

lemma list_sort_loop_klist:
  assumes "strict_weak_order lessf" and "klist h l xs" and "length xs < 2 ^ 32"
  shows "\<exists>h' ys. list_sort_loop h lessf l = Some h' \<and> klist h' l ys \<and> mset ys = mset xs \<and>
    nondecreasing lessf ys \<and>
    (\<forall>k. filter (equiv_under lessf k) ys = filter (equiv_under lessf k) xs) \<and>
    same_outside (cells l xs) h h'"
  using assms(2,3)
proof (induction "descents lessf xs" arbitrary: h xs rule: less_induct)
  case less
  obtain ys n where p: "pass_seq lessf xs = (ys, n)" by force
  have ys: "mset ys = mset xs" "length ys = length xs" "set ys = set xs"
    using mset_pass_seq [of lessf xs] length_pass_seq [of lessf xs] p by (auto dest: mset_eq_setD)
  obtain h1 where h1: "list_sort_pass h lessf (hd (xs @ [tail_of l])) (tail_of l) 0 = Some (h1, n)"
      "klist h1 l ys" "same_outside (cells l xs) h h1"
    using list_sort_pass_klist [of h l "[]" xs 0 lessf] less.prems p by auto
  have stab: "filter (equiv_under lessf k) ys = filter (equiv_under lessf k) xs" for k
    using strict_weak_order.pass_stable [OF assms(1), of k xs] p by simp
  have unf: "list_sort_loop h lessf l = (if n > 1 then list_sort_loop h1 lessf l else Some h1)"
    using h1(1) less.prems(1)
    by (subst list_sort_loop.simps) (simp add: list_begin_klist list_end_klist)
  show ?case
  proof (cases "n > 1")
    case True
    have "descents lessf ys < descents lessf xs"
      using strict_weak_order.pass_progress [OF assms(1), of xs] True p by simp
    from less.hyps [OF this h1(2)] less.prems(2) ys obtain h' zs where
      "list_sort_loop h1 lessf l = Some h'" "klist h' l zs" "mset zs = mset ys" "nondecreasing lessf zs"
      "\<forall>k. filter (equiv_under lessf k) zs = filter (equiv_under lessf k) ys"
      "same_outside (cells l ys) h1 h'"
      by auto
    moreover have "cells l ys = cells l xs" using ys(3) by (simp add: cells_def)
    ultimately show ?thesis
      using unf True ys(1) stab same_outside_trans [OF h1(3)] by auto
  next
    case False
    then have "nondecreasing lessf ys"
      using strict_weak_order.pass_final [OF assms(1), of xs] p by simp
    then show ?thesis using unf False h1 ys stab by auto
  qed
qed

lemma list_sort_klist:
  assumes "strict_weak_order lessf" and k: "klist h l xs" and "length xs < 2 ^ 32"
  shows "\<exists>h' ys. list_sort h lessf l = Some h' \<and> klist h' l ys \<and> mset ys = mset xs \<and>
    nondecreasing lessf ys \<and>
    (\<forall>k. filter (equiv_under lessf k) ys = filter (equiv_under lessf k) xs) \<and>
    same_outside (cells l xs) h h'"
proof -
  obtain h' ys where h': "list_sort_loop h lessf l = Some h'" "klist h' l ys" "mset ys = mset xs"
    "nondecreasing lessf ys"
    "\<forall>k. filter (equiv_under lessf k) ys = filter (equiv_under lessf k) xs"
    "same_outside (cells l xs) h h'"
    using list_sort_loop_klist [OF assms] by blast
  have "is_sorted h' lessf (hd (ys @ [tail_of l])) (tail_of l) = Some True"
    using is_sorted_chain [of h' "[head_of l]" ys "tail_of l" "[]" lessf] h'(2)
      successively_if_sorted_wrt [OF h'(4)] by (simp add: klist_def)
  then have "list_sort h lessf l = Some h'"
    using h'(1,2) klist_nonnull(1) [OF k]
    by (simp add: list_sort_def list_begin_klist list_end_klist)
  then show ?thesis using h' by blast
qed

end
