(* ===== verification/Klist_More.thy ===== *)
theory Klist_More
  imports Klist_Refine
begin

text \<open>
  \<^verbatim>\<open>list_reverse\<close> and \<^verbatim>\<open>list_unique\<close> of \<^verbatim>\<open>lib/kernel/list.c\<close>.
\<close>

section \<open>Reversal\<close>

lemma linked_rev: "linked n v (rev ps) = linked v n ps"
proof (induction ps)
  case (Cons p ps)
  show ?case
  proof (cases ps)
    case (Cons q qs)
    then have "linked n v (rev ps @ [p]) \<longleftrightarrow> linked n v (rev ps) \<and> n q = p \<and> v p = q"
      by (subst linked_app) (simp_all add: last_rev)
    with Cons.IH Cons show ?thesis by auto
  qed simp
qed simp

lemma linked_bracket:
  "xs \<noteq> [] \<Longrightarrow> linked n v (a # xs @ [b]) \<longleftrightarrow>
     linked n v xs \<and> n a = hd xs \<and> v (hd xs) = a \<and> n (last xs) = b \<and> v b = last xs"
  using linked_app [of "[a]" "xs @ [b]" n v] linked_app [of xs "[b]" n v] by auto

text \<open>The loop exchanges the two links of every interior element.\<close>

lemma list_reverse_loop_ok:
  assumes "linked (nx h) (pv h) (bs @ [t])" and "distinct (bs @ [t])"
    and "set bs \<subseteq> dom h" and "NULL \<notin> set bs"
  shows "\<exists>h'. list_reverse_loop h (hd (bs @ [t])) t = Some h' \<and> dom h' = dom h \<and>
    nx h' = (\<lambda>x. if x \<in> set bs then pv h x else nx h x) \<and>
    pv h' = (\<lambda>x. if x \<in> set bs then nx h x else pv h x) \<and>
    (\<forall>x. x \<notin> set bs \<longrightarrow> h' x = h x)"
  using assms
proof (induction bs arbitrary: h)
  case Nil
  then show ?case by (subst list_reverse_loop.simps) simp
next
  case (Cons b bs)
  define h1 where "h1 = upd_next (upd_prev h b (nx h b)) b (pv h b)"
  have b: "b \<in> dom h" "b \<noteq> NULL" "b \<noteq> t" "b \<notin> set bs" "b \<notin> set (bs @ [t])"
    using Cons.prems by auto
  have sw: "swap_links h b = Some h1"
    using b by (simp add: swap_links_def h1_def)
  have f1: "nx h1 = (nx h)(b := pv h b)" "pv h1 = (pv h)(b := nx h b)" "dom h1 = dom h"
    unfolding h1_def using b(1) by simp_all
  have nb: "nx h b = hd (bs @ [t])" using Cons.prems(1) by (cases bs) auto
  have "linked (nx h) (pv h) (bs @ [t])" using Cons.prems(1) by (cases bs) auto
  then have "linked (nx h1) (pv h1) (bs @ [t])" unfolding f1 using b(5) by simp
  then obtain h' where h': "list_reverse_loop h1 (hd (bs @ [t])) t = Some h'" "dom h' = dom h1"
    "nx h' = (\<lambda>x. if x \<in> set bs then pv h1 x else nx h1 x)"
    "pv h' = (\<lambda>x. if x \<in> set bs then nx h1 x else pv h1 x)"
    "\<forall>x. x \<notin> set bs \<longrightarrow> h' x = h1 x"
    using Cons.IH [of h1] Cons.prems f1(3) by auto
  have "list_reverse_loop h b t = Some h'"
    using b sw h'(1) f1(2,3) nb by (subst list_reverse_loop.simps) simp
  moreover have "nx h' = (\<lambda>x. if x \<in> set (b # bs) then pv h x else nx h x)"
    and "pv h' = (\<lambda>x. if x \<in> set (b # bs) then nx h x else pv h x)"
    using h'(3,4) f1 b(4) by (auto simp: fun_eq_iff)
  moreover have "\<forall>x. x \<notin> set (b # bs) \<longrightarrow> h' x = h x"
    using h'(5) by (simp add: h1_def)
  ultimately show ?case using h'(2) f1(3) by auto
qed

lemma list_reverse_klist:
  assumes k: "klist h l xs"
  shows "\<exists>h'. list_reverse h l = Some h' \<and> klist h' l (rev xs) \<and> same_outside (cells l xs) h h'"
proof (cases xs)
  case Nil
  then show ?thesis using k by (simp add: list_reverse_def list_empty_klist)
next
  case (Cons a as)
  let ?H = "head_of l" and ?T = "tail_of l" and ?f = "hd xs" and ?e = "last xs"
  note nn = klist_nonnull [OF k]
  have xs: "xs \<noteq> []" using Cons by simp
  have fe: "?f \<in> set xs" "?e \<in> set xs" using xs by auto
  have ne: "?H \<noteq> ?T" by (simp add: head_of_def tail_of_def)
  have lk: "linked (nx h) (pv h) (?H # xs @ [?T])" and ends: "pv h ?H = NULL" "nx h ?T = NULL"
    using k by (simp_all add: klist_def chain_def)
  then have parts: "linked (nx h) (pv h) xs" "nx h ?H = ?f" "pv h ?f = ?H" "nx h ?e = ?T" "pv h ?T = ?e"
    and lk2: "linked (nx h) (pv h) (xs @ [?T])"
    using xs by (simp_all add: linked_bracket linked_app)
  obtain h1 where h1: "list_reverse_loop h (hd (xs @ [?T])) ?T = Some h1" "dom h1 = dom h"
    "nx h1 = (\<lambda>x. if x \<in> set xs then pv h x else nx h x)"
    "pv h1 = (\<lambda>x. if x \<in> set xs then nx h x else pv h x)"
    "\<forall>x. x \<notin> set xs \<longrightarrow> h1 x = h x"
    using list_reverse_loop_ok [OF lk2] nn by auto
  define h2 where "h2 = upd_prev (upd_next h1 ?H ?e) ?T ?f"
  define h3 where "h3 = upd_next (upd_prev h2 ?e ?H) ?f ?T"
  have dm: "?H \<in> dom h1" "?T \<in> dom h1" "?f \<in> dom h1" "?e \<in> dom h1"
    using nn h1(2) fe by auto
  have nz: "?H \<noteq> NULL" "?T \<noteq> NULL" "?f \<noteq> NULL" "?e \<noteq> NULL"
    using nn fe by metis+
  have out: "?f \<noteq> ?H" "?f \<noteq> ?T" "?e \<noteq> ?H" "?e \<noteq> ?T" using nn fe by metis+
  have v1: "nx h1 ?H = ?f" "pv h1 ?T = ?e" "pv h1 ?e = ?T" "nx h1 ?f = ?H"
    using h1(3,4) nn fe parts by simp_all
  have d2: "dom h2 = dom h1" unfolding h2_def using dm by simp
  have s2: "swap_next_prev h1 ?H ?T = Some h2"
    unfolding h2_def swap_next_prev_def using dm nz v1 by simp
  have f2: "nx h2 = (nx h1)(?H := ?e)" "pv h2 = (pv h1)(?T := ?f)"
    unfolding h2_def by simp_all
  have s3: "swap_prev_next h2 ?e ?f = Some h3"
    unfolding h3_def swap_prev_next_def using dm nz d2 f2 v1 out by simp
  have f3: "nx h3 = (nx h2)(?f := ?T)" "pv h3 = (pv h2)(?e := ?H)" "dom h3 = dom h2"
    unfolding h3_def using dm d2 by simp_all
  have run: "list_reverse h l = Some h3"
    using k xs h1(1) s2 s3 dm nz d2 f2 ne
    by (simp add: list_reverse_def list_empty_klist list_begin_klist list_end_klist)
  have rx: "rev xs \<noteq> []" "hd (rev xs) = ?e" "last (rev xs) = ?f"
    using xs by (simp_all add: hd_rev last_rev)
  have "linked (pv h) (nx h) (rev xs)" using parts(1) by (simp add: linked_rev)
  then have "linked (nx h1) (pv h1) (rev xs)"
    using linked_cong [of "rev xs" "nx h1" "pv h" "pv h1" "nx h"] h1(3,4) by simp
  then have "linked (nx h3) (pv h3) (rev xs)"
    unfolding f3 f2 using distinct_ends [of "rev xs"] rx nn fe by simp
  then have "linked (nx h3) (pv h3) (?H # rev xs @ [?T])"
    using rx f3 f2 ne out by (simp add: linked_bracket)
  moreover have "pv h3 ?H = NULL" "nx h3 ?T = NULL"
    unfolding f3 f2 using out ne h1(3,4) nn ends by simp_all
  ultimately have kl: "klist h3 l (rev xs)"
    using k f3(3) d2 h1(2) unfolding klist_def chain_def by simp
  have "h3 q = h q" if "q \<notin> cells l xs" for q
  proof -
    have "q \<noteq> ?H" "q \<noteq> ?T" "q \<noteq> ?f" "q \<noteq> ?e" "q \<notin> set xs"
      using that fe by (auto simp: cells_def)
    then show ?thesis using h1(5) by (simp add: h3_def h2_def)
  qed
  then have "same_outside (cells l xs) h h3"
    using f3(3) d2 h1(2) by (simp add: same_outside_def)
  with run kl show ?thesis by blast
qed

section \<open>Removal of adjacent duplicates\<close>

text \<open>
  The list of duplicates is absent (a null pointer), or it is another list whose cells and
  members are disjoint from the first one's.
\<close>

definition dup_list :: "lheap \<Rightarrow> ptr \<Rightarrow> ptr set \<Rightarrow> ptr list \<Rightarrow> bool" where
  "dup_list h d S ds \<longleftrightarrow> d = NULL \<or> klist h d ds \<and> cells d ds \<inter> S = {}"

lemma list_unique_loop_klist:
  assumes "klist h l (ks @ x # ys)" and "dup_list h d (cells l (ks @ x # ys)) ds"
    and "unique_seq lessf x ys = (us, es)"
  shows "\<exists>h'. list_unique_loop h lessf d x (tail_of l) = Some h' \<and> klist h' l (ks @ us) \<and>
    dup_list h' d (cells l (ks @ us)) (ds @ es)"
  using assms
proof (induction ys arbitrary: h ks x ds us es)
  case Nil
  then show ?case
    using list_next_klist [of h l ks x "[]"] by (subst list_unique_loop.simps) auto
next
  case (Cons y ys)
  note k = Cons.prems(1)
  have nx: "list_next h x = Some y" and ne: "y \<noteq> tail_of l"
    using list_next_klist [OF k] klist_nonnull(7) [OF k] by auto
  show ?case
  proof (cases "\<not> lessf x y \<and> \<not> lessf y x")
    case False
    obtain us' where us: "unique_seq lessf y ys = (us', es)" "us = x # us'"
      using Cons.prems(3) False by (auto split: prod.splits if_splits)
    show ?thesis
      using Cons.IH [of h "ks @ [x]" y ds us' es] Cons.prems us False nx ne
      by (subst list_unique_loop.simps) auto
  next
    case True
    obtain es' where es: "unique_seq lessf x ys = (us, es')" "es = y # es'"
      using Cons.prems(3) True by (auto split: prod.splits)
    obtain h1 where h1: "list_remove h y = Some (hd (ys @ [tail_of l]), h1)"
        "klist h1 l ((ks @ [x]) @ ys)" "same_outside (cells l ((ks @ [x]) @ ys)) h h1"
      using list_remove_klist [of h l "ks @ [x]" y ys] k by auto
    have y: "y \<in> dom h" "y \<noteq> NULL" "y \<notin> cells l ((ks @ [x]) @ ys)"
      using klist_nonnull [OF k] by (auto simp: cells_def)
    obtain h2 where h2: "(if d \<noteq> NULL then list_push_back h1 d y else Some h1) = Some h2"
        "klist h2 l (ks @ x # ys)" "dup_list h2 d (cells l (ks @ x # ys)) (ds @ [y])"
    proof (cases "d = NULL")
      case True
      then show ?thesis using that [of h1] h1 by (simp add: dup_list_def)
    next
      case False
      then have kd: "klist h d ds" and dj: "cells d ds \<inter> cells l (ks @ x # y # ys) = {}"
        using Cons.prems(2) by (auto simp: dup_list_def)
      have kd1: "klist h1 d ds"
        using klist_frame [OF kd h1(3)] dj by (auto simp: cells_def)
      have "linkable h1 d ds y"
        using y dj h1(3) by (auto simp: linkable_def same_outside_def)
      from list_push_back_klist [OF kd1 this] obtain h2 where
        h2: "list_push_back h1 d y = Some h2" "klist h2 d (ds @ [y])"
          "same_outside (insert y (cells d ds)) h1 h2"
        by blast
      have "klist h2 l (ks @ x # ys)"
        using klist_frame [OF h1(2) h2(3)] dj y(3) by (simp add: cells_def Int_commute) blast
      then show ?thesis
        using that [of h2] h2 False dj y(3) by (auto simp: dup_list_def)
    qed
    show ?thesis
      using Cons.IH [OF h2(2,3) es(1)] True nx ne h1(1) h2(1) es(2)
      by (subst list_unique_loop.simps) auto
  qed
qed

lemma list_unique_klist:
  assumes k: "klist h l (x # xs)" and "dup_list h d (cells l (x # xs)) ds"
    and "unique_seq lessf x xs = (us, es)"
  shows "\<exists>h'. list_unique h lessf l d = Some h' \<and> klist h' l us \<and> dup_list h' d (cells l us) (ds @ es)"
  using list_unique_loop_klist [of h l "[]" x xs d ds lessf us es] assms klist_nonnull(1) [OF k]
  by (simp add: list_unique_def list_empty_klist list_begin_klist list_end_klist)

end
