(* ===== verification/Klist_Props.thy ===== *)
theory Klist_Props
  imports Klist_Sort Klist_More "HOL-Library.Sublist"
begin

text \<open>
  The properties of \<^verbatim>\<open>lib/kernel/list.c\<close>, each on arbitrary memory and an arbitrary list,
  with what happens to the rest of memory, and a small concrete memory on which they are applied.
\<close>

section \<open>A concrete memory\<close>

text \<open>
  A list at address 100 holds the cells at 20, 40 and 60, an empty list stands at 200, and the
  cell at 80 is in no list.
\<close>

definition demo_heap :: lheap where
  "demo_heap = [100 \<mapsto> \<lparr>le_prev = 0, le_next = 20\<rparr>, 20 \<mapsto> \<lparr>le_prev = 100, le_next = 40\<rparr>,
     40 \<mapsto> \<lparr>le_prev = 20, le_next = 60\<rparr>, 60 \<mapsto> \<lparr>le_prev = 40, le_next = 108\<rparr>,
     108 \<mapsto> \<lparr>le_prev = 60, le_next = 0\<rparr>, 80 \<mapsto> \<lparr>le_prev = 0, le_next = 0\<rparr>,
     200 \<mapsto> \<lparr>le_prev = 0, le_next = 208\<rparr>, 208 \<mapsto> \<lparr>le_prev = 200, le_next = 0\<rparr>]"

lemma demo_klist: "klist demo_heap 100 [20, 40, 60]" "klist demo_heap 200 []"
  by (auto simp: klist_def chain_def demo_heap_def head_of_def tail_of_def nx_def pv_def
      simp del: the_fields)

lemma demo_linkable: "linkable demo_heap 100 [20, 40, 60] 80"
  by (simp add: linkable_def cells_def demo_heap_def head_of_def tail_of_def)

text \<open>A callback for which the cells at 40 and 60 are equal and both come before the one at 20.\<close>

lemma above_order: "strict_weak_order (\<lambda>a b :: ptr. b div 40 < a div 40)"
  by unfold_locales auto

section \<open>Properties\<close>



text \<open>
  C5: \<^verbatim>\<open>list_sort\<close>, a natural merge sort that relinks the cells in place, returns on every
  well-formed list. The list it leaves is well-formed, has the same cells, is in
  nondecreasing order for the callback, keeps equal cells in the order they had, and no memory
  outside the list has changed.
\<close>

theorem list_sort_correct:
  assumes "strict_weak_order lessf" and "klist h l xs" and "length xs < 2 ^ 32"
  shows "\<exists>h' ys. list_sort h lessf l = Some h' \<and> klist h' l ys \<and> mset ys = mset xs \<and>
    nondecreasing lessf ys \<and>
    (\<forall>k. filter (equiv_under lessf k) ys = filter (equiv_under lessf k) xs) \<and>
    same_outside (cells l xs) h h'"
  using list_sort_klist [OF assms] .

theorem list_sort_correct_witness:
  "\<exists>h' ys. list_sort demo_heap (\<lambda>a b. b div 40 < a div 40) 100 = Some h' \<and> klist h' 100 ys \<and>
    mset ys = mset [20, 40, 60] \<and> nondecreasing (\<lambda>a b. b div 40 < a div 40) ys \<and>
    (\<forall>k. filter (equiv_under (\<lambda>a b. b div 40 < a div 40) k) ys =
       filter (equiv_under (\<lambda>a b. b div 40 < a div 40) k) [20, 40, 60]) \<and>
    same_outside (cells 100 [20, 40, 60]) demo_heap h'"
  by (rule list_sort_correct [OF above_order demo_klist(1)]) simp

text \<open>
  C15: \<^verbatim>\<open>list_insert_ordered\<close> on an ordered list links the new cell so that the list stays
  ordered and the new cell comes after every cell equal to it (first come, first served), and
  changes no other memory.
\<close>

theorem list_insert_ordered_correct:
  assumes "strict_weak_order lessf" and "klist h l xs" and "linkable h l xs e"
    and "nondecreasing lessf xs"
  shows "\<exists>h' ys. list_insert_ordered h lessf l e = Some h' \<and> klist h' l ys \<and>
    mset ys = add_mset e (mset xs) \<and> nondecreasing lessf ys \<and>
    (\<forall>k. filter (equiv_under lessf k) ys = filter (equiv_under lessf k) (xs @ [e])) \<and>
    same_outside (insert e (cells l xs)) h h'"
  using list_insert_ordered_klist [OF assms(2,3), of lessf]
    strict_weak_order.insert_nondecreasing [OF assms(1,4)]
    strict_weak_order.insert_stable [OF assms(1,4)]
  by fastforce

theorem list_insert_ordered_correct_witness:
  "\<exists>h' ys. list_insert_ordered demo_heap (\<lambda>a b. a < b) 100 80 = Some h' \<and> klist h' 100 ys \<and>
    mset ys = add_mset 80 (mset [20, 40, 60]) \<and> nondecreasing (\<lambda>a b. a < b) ys \<and>
    (\<forall>k. filter (equiv_under (\<lambda>a b. a < b) k) ys =
       filter (equiv_under (\<lambda>a b. a < b) k) ([20, 40, 60] @ [80])) \<and>
    same_outside (insert 80 (cells 100 [20, 40, 60])) demo_heap h'"
  by (rule list_insert_ordered_correct [OF _ demo_klist(1) demo_linkable]) (unfold_locales, auto)



text \<open>
  C17: the list works as a first-in first-out queue: after \<^verbatim>\<open>list_push_back\<close>, a
  \<^verbatim>\<open>list_pop_front\<close> returns the oldest cell and leaves the rest in order with the pushed
  cell last; no cell outside the list and the pushed one is written.
\<close>

theorem list_fifo:
  assumes "klist h l xs" and "linkable h l xs e"
  shows "\<exists>h1 h2. list_push_back h l e = Some h1 \<and> list_pop_front h1 l = Some (hd (xs @ [e]), h2) \<and>
    klist h2 l (tl (xs @ [e])) \<and> same_outside (insert e (cells l xs)) h h2"
proof -
  obtain h1 where h1: "list_push_back h l e = Some h1" "klist h1 l (xs @ [e])"
      "same_outside (insert e (cells l xs)) h h1"
    using list_push_back_klist [OF assms] by blast
  then have "klist h1 l (hd (xs @ [e]) # tl (xs @ [e]))" by simp
  from list_pop_front_klist [OF this] obtain h2 where h2:
      "list_pop_front h1 l = Some (hd (xs @ [e]), h2)" "klist h2 l (tl (xs @ [e]))"
      "same_outside (cells l (tl (xs @ [e]))) h1 h2"
    by blast
  have "cells l (tl (xs @ [e])) \<subseteq> insert e (cells l xs)" by (cases xs) (auto simp: cells_def)
  then show ?thesis
    using h1 h2 same_outside_mono same_outside_trans by blast
qed

theorem list_fifo_witness:
  "\<exists>h1 h2. list_push_back demo_heap 100 80 = Some h1 \<and>
    list_pop_front h1 100 = Some (hd ([20, 40, 60] @ [80]), h2) \<and>
    klist h2 100 (tl ([20, 40, 60] @ [80])) \<and>
    same_outside (insert 80 (cells 100 [20, 40, 60])) demo_heap h2"
  by (rule list_fifo [OF demo_klist(1) demo_linkable])

text \<open>
  C18: \<^verbatim>\<open>list_reverse\<close> returns on every well-formed list and leaves the cells in the
  opposite order; no memory outside the list changes.
\<close>

theorem list_reverse_correct:
  assumes "klist h l xs"
  shows "\<exists>h'. list_reverse h l = Some h' \<and> klist h' l (rev xs) \<and> same_outside (cells l xs) h h'"
  using list_reverse_klist [OF assms] .

theorem list_reverse_correct_witness:
  "\<exists>h'. list_reverse demo_heap 100 = Some h' \<and> klist h' 100 (rev [20, 40, 60]) \<and>
    same_outside (cells 100 [20, 40, 60]) demo_heap h'"
  by (rule list_reverse_correct [OF demo_klist(1)])

end
