(* ===== verification/Region_Alloc.thy ===== *)
theory Region_Alloc
  imports Pintos_Prelude
begin

text \<open>
  The contract of an allocator of contiguous regions of numbered units: what
  \<^verbatim>\<open>threads/palloc.c\<close> promises for pages and \<^verbatim>\<open>filesys/free-map.c\<close> for
  sectors, and what both take from a bitmap. Every client that only asks for regions and gives
  back regions it holds has regions that never overlap.
\<close>

locale region_alloc =
  fixes inv :: "'s \<Rightarrow> bool"
    and used :: "'s \<Rightarrow> nat set"
    and total :: "'s \<Rightarrow> nat"
    and request :: "nat \<Rightarrow> 's \<Rightarrow> (nat option \<times> 's) option"
    and release :: "nat \<Rightarrow> nat \<Rightarrow> 's \<Rightarrow> 's option"
  assumes request_returns: "inv s \<Longrightarrow> request n s \<noteq> None"
    and request_none: "inv s \<Longrightarrow> request n s = Some (None, s') \<Longrightarrow>
      s' = s \<and> \<not> (\<exists>i. i + n \<le> total s \<and> {i..<i + n} \<inter> used s = {})"
    and request_some: "inv s \<Longrightarrow> request n s = Some (Some i, s') \<Longrightarrow>
      inv s' \<and> total s' = total s \<and> i + n \<le> total s \<and> {i..<i + n} \<inter> used s = {} \<and>
      used s' = used s \<union> {i..<i + n}"
    and release_ok: "inv s \<Longrightarrow> i + n \<le> total s \<Longrightarrow> {i..<i + n} \<subseteq> used s \<Longrightarrow>
      \<exists>s'. release i n s = Some s' \<and> inv s' \<and> total s' = total s \<and> used s' = used s - {i..<i + n}"
begin

text \<open>A client that holds the regions \<open>live\<close>, after some requests and releases from the state \<open>s0\<close>.\<close>

inductive client :: "'s \<Rightarrow> (nat \<times> nat) list \<Rightarrow> 's \<Rightarrow> bool" for s0 :: 's where
  start: "client s0 [] s0"
| got: "client s0 live s \<Longrightarrow> request n s = Some (Some i, s') \<Longrightarrow> client s0 ((i, n) # live) s'"
| refused: "client s0 live s \<Longrightarrow> request n s = Some (None, s') \<Longrightarrow> client s0 live s'"
| gave_back: "client s0 (as @ (i, n) # bs) s \<Longrightarrow> release i n s = Some s' \<Longrightarrow> client s0 (as @ bs) s'"

definition regions :: "(nat \<times> nat) list \<Rightarrow> nat set" where
  "regions live = (\<Union>(i, n)\<in>set live. {i..<i + n})"

fun apart :: "(nat \<times> nat) list \<Rightarrow> bool" where
  "apart [] \<longleftrightarrow> True"
| "apart ((i, n) # live) \<longleftrightarrow> {i..<i + n} \<inter> regions live = {} \<and> apart live"

lemma regions_simps [simp]:
  "regions [] = {}"
  "regions ((i, n) # live) = {i..<i + n} \<union> regions live"
  "regions (as @ bs) = regions as \<union> regions bs"
  by (auto simp: regions_def)

lemma apart_remove:
  "apart (as @ (i, n) # bs) \<longleftrightarrow> apart (as @ bs) \<and> {i..<i + n} \<inter> regions (as @ bs) = {}"
proof (induction as)
  case (Cons a as)
  then show ?case by (cases a) (simp add: Int_Un_distrib Int_Un_distrib2, blast)
qed auto

lemma client_inv:
  assumes "client s0 live s" and "inv s0"
  shows "inv s \<and> total s = total s0 \<and> apart live \<and> used s = used s0 \<union> regions live \<and>
    used s0 \<inter> regions live = {} \<and> (\<forall>(i, n)\<in>set live. i + n \<le> total s0)"
  using assms
proof induction
  case (got live s n i s')
  then show ?case using request_some [of s n i s'] by auto
next
  case (refused live s n s')
  then show ?case using request_none [of s n s'] by auto
next
  case (gave_back as i n bs s s')
  then obtain "inv s" "i + n \<le> total s" "{i..<i + n} \<subseteq> used s" by auto
  from release_ok [OF this] gave_back show ?case
    by (auto simp: apart_remove)
qed simp

text \<open>A region the client holds can always be given back.\<close>

lemma client_release:
  assumes "client s0 live s" and "inv s0" and "(i, n) \<in> set live"
  shows "\<exists>s'. release i n s = Some s' \<and> used s' = used s - {i..<i + n}"
proof -
  have "{i..<i + n} \<subseteq> regions live" using assms(3) by (auto simp: regions_def)
  then show ?thesis
    using client_inv [OF assms(1,2)] assms(3) release_ok [of s i n] by fastforce
qed

end

end
