(* ===== verification/Kbitmap.thy ===== *)
theory Kbitmap
  imports Region_Alloc
begin

text \<open>
  The bitmaps of \<^verbatim>\<open>lib/kernel/bitmap.c\<close>: an array of 32-bit elements that simulates an
  array of bits. The operations work on the elements with masks, as the code does;
  \<open>bm_bits\<close> reads a bitmap as the list of its bits, and the lemmas show that each
  operation does to that list what its comment says.
\<close>

unbundle bit_operations_syntax

section \<open>Representation\<close>

definition ELEM_BITS :: nat where
  "ELEM_BITS = 32"

record bitmap =
  bit_cnt :: nat
  bits :: "u32 list"

definition BITMAP_ERROR :: nat where
  "BITMAP_ERROR = SIZE_MAX"

definition elem_idx :: "nat \<Rightarrow> nat" where
  "elem_idx bit_idx = bit_idx div ELEM_BITS"

definition bit_mask :: "nat \<Rightarrow> u32" where
  "bit_mask bit_idx = push_bit (bit_idx mod ELEM_BITS) 1"

text \<open>\<^verbatim>\<open>DIV_ROUND_UP\<close> adds before it divides, in \<^verbatim>\<open>size_t\<close> arithmetic.\<close>

definition elem_cnt :: "nat \<Rightarrow> nat" where
  "elem_cnt cnt = size_wrap (cnt + ELEM_BITS - 1) div ELEM_BITS"

definition byte_cnt :: "nat \<Rightarrow> nat" where
  "byte_cnt cnt = size_wrap (4 * elem_cnt cnt)"

definition last_mask :: "bitmap \<Rightarrow> u32" where
  "last_mask b =
     (let last_bits = bit_cnt b mod ELEM_BITS
      in if last_bits \<noteq> 0 then push_bit last_bits 1 - 1 else - 1)"

section \<open>Single bits\<close>

definition bitmap_size :: "bitmap \<Rightarrow> nat" where
  "bitmap_size b = bit_cnt b"

definition bitmap_mark :: "bitmap \<Rightarrow> nat \<Rightarrow> bitmap option" where
  "bitmap_mark b bit_idx =
     do {
       let idx = elem_idx bit_idx;
       let mask = bit_mask bit_idx;
       e \<leftarrow> aget (bits b) idx;
       es \<leftarrow> aset (bits b) idx (e OR mask);
       Some (b\<lparr>bits := es\<rparr>)
     }"

definition bitmap_reset :: "bitmap \<Rightarrow> nat \<Rightarrow> bitmap option" where
  "bitmap_reset b bit_idx =
     do {
       let idx = elem_idx bit_idx;
       let mask = bit_mask bit_idx;
       e \<leftarrow> aget (bits b) idx;
       es \<leftarrow> aset (bits b) idx (e AND NOT mask);
       Some (b\<lparr>bits := es\<rparr>)
     }"

definition bitmap_flip :: "bitmap \<Rightarrow> nat \<Rightarrow> bitmap option" where
  "bitmap_flip b bit_idx =
     do {
       let idx = elem_idx bit_idx;
       let mask = bit_mask bit_idx;
       e \<leftarrow> aget (bits b) idx;
       es \<leftarrow> aset (bits b) idx (e XOR mask);
       Some (b\<lparr>bits := es\<rparr>)
     }"

definition bitmap_set :: "bitmap \<Rightarrow> nat \<Rightarrow> bool \<Rightarrow> bitmap option" where
  "bitmap_set b idx value =
     do {
       ASSERT (idx < bit_cnt b);
       if value then bitmap_mark b idx else bitmap_reset b idx
     }"

definition bitmap_test :: "bitmap \<Rightarrow> nat \<Rightarrow> bool option" where
  "bitmap_test b idx =
     do {
       ASSERT (idx < bit_cnt b);
       e \<leftarrow> aget (bits b) (elem_idx idx);
       Some (e AND bit_mask idx \<noteq> 0)
     }"

section \<open>Groups of bits\<close>

function bitmap_set_loop :: "bitmap \<Rightarrow> nat \<Rightarrow> nat \<Rightarrow> bool \<Rightarrow> nat \<Rightarrow> bitmap option" where
  "bitmap_set_loop b start cnt value i =
     (if i < cnt
      then do {
        b' \<leftarrow> bitmap_set b (size_wrap (start + i)) value;
        bitmap_set_loop b' start cnt value (i + 1)
      }
      else Some b)"
  by pat_completeness auto
termination by (relation "measure (\<lambda>(b, start, cnt, value, i). cnt - i)") auto

declare bitmap_set_loop.simps [simp del]

definition bitmap_set_multiple :: "bitmap \<Rightarrow> nat \<Rightarrow> nat \<Rightarrow> bool \<Rightarrow> bitmap option" where
  "bitmap_set_multiple b start cnt value =
     do {
       ASSERT (start \<le> bit_cnt b);
       ASSERT (size_wrap (start + cnt) \<le> bit_cnt b);
       bitmap_set_loop b start cnt value 0
     }"

definition bitmap_set_all :: "bitmap \<Rightarrow> bool \<Rightarrow> bitmap option" where
  "bitmap_set_all b value = bitmap_set_multiple b 0 (bitmap_size b) value"




function bitmap_contains_loop :: "bitmap \<Rightarrow> nat \<Rightarrow> nat \<Rightarrow> bool \<Rightarrow> nat \<Rightarrow> bool option" where
  "bitmap_contains_loop b start cnt value i =
     (if i < cnt
      then do {
        v \<leftarrow> bitmap_test b (size_wrap (start + i));
        if v = value then Some True else bitmap_contains_loop b start cnt value (i + 1)
      }
      else Some False)"
  by pat_completeness auto
termination by (relation "measure (\<lambda>(b, start, cnt, value, i). cnt - i)") auto

declare bitmap_contains_loop.simps [simp del]

definition bitmap_contains :: "bitmap \<Rightarrow> nat \<Rightarrow> nat \<Rightarrow> bool \<Rightarrow> bool option" where
  "bitmap_contains b start cnt value =
     do {
       ASSERT (start \<le> bit_cnt b);
       ASSERT (size_wrap (start + cnt) \<le> bit_cnt b);
       bitmap_contains_loop b start cnt value 0
     }"

definition bitmap_any :: "bitmap \<Rightarrow> nat \<Rightarrow> nat \<Rightarrow> bool option" where
  "bitmap_any b start cnt = bitmap_contains b start cnt True"

definition bitmap_none :: "bitmap \<Rightarrow> nat \<Rightarrow> nat \<Rightarrow> bool option" where
  "bitmap_none b start cnt = do { c \<leftarrow> bitmap_contains b start cnt True; Some (\<not> c) }"

definition bitmap_all :: "bitmap \<Rightarrow> nat \<Rightarrow> nat \<Rightarrow> bool option" where
  "bitmap_all b start cnt = do { c \<leftarrow> bitmap_contains b start cnt False; Some (\<not> c) }"

text \<open>
  The index of the scan is a \<^verbatim>\<open>size_t\<close>, so the loop is written with its wrap-around and is
  not structurally bounded; that it returns is a lemma below.
\<close>

partial_function (option) bitmap_scan_loop :: "bitmap \<Rightarrow> nat \<Rightarrow> bool \<Rightarrow> nat \<Rightarrow> nat \<Rightarrow> nat option" where
  "bitmap_scan_loop b cnt value lst i =
     (if i \<le> lst
      then do {
        c \<leftarrow> bitmap_contains b i cnt (\<not> value);
        if \<not> c then Some i else bitmap_scan_loop b cnt value lst (size_wrap (i + 1))
      }
      else Some BITMAP_ERROR)"

definition bitmap_scan :: "bitmap \<Rightarrow> nat \<Rightarrow> nat \<Rightarrow> bool \<Rightarrow> nat option" where
  "bitmap_scan b start cnt value =
     do {
       ASSERT (start \<le> bit_cnt b);
       if cnt \<le> bit_cnt b
       then bitmap_scan_loop b cnt value (bit_cnt b - cnt) start
       else Some BITMAP_ERROR
     }"

definition bitmap_scan_and_flip :: "bitmap \<Rightarrow> nat \<Rightarrow> nat \<Rightarrow> bool \<Rightarrow> (nat \<times> bitmap) option" where
  "bitmap_scan_and_flip b start cnt value =
     do {
       idx \<leftarrow> bitmap_scan b start cnt value;
       b' \<leftarrow> (if idx \<noteq> BITMAP_ERROR then bitmap_set_multiple b idx cnt (\<not> value) else Some b);
       Some (idx, b')
     }"

section \<open>Creation\<close>

text \<open>
  The two calls of \<^verbatim>\<open>malloc\<close> are arguments: whether the structure was allocated, and the block
  for the elements with whatever it holds (or no block).
\<close>

definition bitmap_create :: "bool \<Rightarrow> u32 list option \<Rightarrow> nat \<Rightarrow> bitmap option option" where
  "bitmap_create got_struct got_bits cnt =
     (if got_struct
      then (if got_bits \<noteq> None \<or> cnt = 0
            then do {
              b \<leftarrow> bitmap_set_all \<lparr>bit_cnt = cnt, bits = (case got_bits of Some m \<Rightarrow> m | None \<Rightarrow> [])\<rparr> False;
              Some (Some b)
            }
            else Some None)
      else Some None)"

definition bitmap_buf_size :: "nat \<Rightarrow> nat" where
  "bitmap_buf_size cnt = size_wrap (8 + byte_cnt cnt)"

text \<open>The block is given as its size in bytes and the elements that follow the structure in it.\<close>

definition bitmap_create_in_buf :: "nat \<Rightarrow> u32 list \<Rightarrow> nat \<Rightarrow> bitmap option" where
  "bitmap_create_in_buf cnt block block_size =
     do {
       ASSERT (block_size \<ge> bitmap_buf_size cnt);
       bitmap_set_all \<lparr>bit_cnt = cnt, bits = block\<rparr> False
     }"

section \<open>Bits as a list\<close>

definition bm_inv :: "bitmap \<Rightarrow> bool" where
  "bm_inv b \<longleftrightarrow> bit_cnt b \<le> 2 ^ 32 - 32 \<and> elem_cnt (bit_cnt b) \<le> length (bits b)"

definition bm_bit :: "bitmap \<Rightarrow> nat \<Rightarrow> bool" where
  "bm_bit b i \<longleftrightarrow> bit (bits b ! (i div 32)) (i mod 32)"

definition bm_bits :: "bitmap \<Rightarrow> bool list" where
  "bm_bits b = map (bm_bit b) [0..<bit_cnt b]"

lemma length_bm_bits [simp]: "length (bm_bits b) = bit_cnt b"
  by (simp add: bm_bits_def)

lemma nth_bm_bits [simp]: "i < bit_cnt b \<Longrightarrow> bm_bits b ! i = bm_bit b i"
  by (simp add: bm_bits_def)

lemma elem_in_range:
  assumes "bm_inv b" and "i < bit_cnt b"
  shows "i div 32 < length (bits b)"
proof -
  have "elem_cnt (bit_cnt b) = (bit_cnt b + 31) div 32"
    using assms(1) by (simp add: elem_cnt_def ELEM_BITS_def bm_inv_def)
  moreover have "i div 32 < (bit_cnt b + 31) div 32"
    using assms(2) by simp
  ultimately show ?thesis using assms(1) by (simp add: bm_inv_def)
qed

lemma and_bit_mask: "(e AND bit_mask i \<noteq> 0) = bit e (i mod 32)"
proof
  assume "bit e (i mod 32)"
  then have "bit (e AND bit_mask i) (i mod 32)"
    by (simp add: bit_mask_def ELEM_BITS_def bit_simps)
  then show "e AND bit_mask i \<noteq> 0" by (metis bit_0_eq bot_apply bot_bool_def)
next
  assume "e AND bit_mask i \<noteq> 0"
  then obtain n where "bit (e AND bit_mask i) n" by (metis bit_eqI bit_0_eq bot_apply bot_bool_def)
  then show "bit e (i mod 32)" by (auto simp: bit_mask_def ELEM_BITS_def bit_simps)
qed

lemma bitmap_test_bits:
  "bm_inv b \<Longrightarrow> i < bit_cnt b \<Longrightarrow> bitmap_test b i = Some (bm_bit b i)"
  using elem_in_range [of b i]
  by (simp add: bitmap_test_def elem_idx_def ELEM_BITS_def and_bit_mask bm_bit_def)

text \<open>An operation on one bit: the element that holds it is rewritten by a function that changes this bit only.\<close>

lemma bm_bits_update_elem:
  assumes "bm_inv b" and "i < bit_cnt b"
    and "\<And>n. n < 32 \<Longrightarrow> bit (f (bits b ! (i div 32))) n =
      (if n = i mod 32 then v else bit (bits b ! (i div 32)) n)"
  defines "b' \<equiv> b\<lparr>bits := (bits b)[i div 32 := f (bits b ! (i div 32))]\<rparr>"
  shows "bm_inv b'" "bm_bits b' = (bm_bits b)[i := v]"
proof -
  show "bm_inv b'" using assms(1) by (simp add: bm_inv_def b'_def)
  have "bm_bit b' j = (bm_bits b)[i := v] ! j" if j: "j < bit_cnt b" for j
  proof (cases "j div 32 = i div 32")
    case True
    then have "j = i \<longleftrightarrow> j mod 32 = i mod 32" by (metis div_mod_decomp)
    then show ?thesis
      using True j assms elem_in_range [OF assms(1,2)]
      by (auto simp: bm_bit_def b'_def nth_list_update)
  next
    case False
    then have "j \<noteq> i" by auto
    with False j show ?thesis by (simp add: bm_bit_def b'_def nth_list_update)
  qed
  then show "bm_bits b' = (bm_bits b)[i := v]"
    by (intro nth_equalityI) (auto simp: b'_def)
qed

lemma bitmap_set_bits:
  assumes "bm_inv b" and "i < bit_cnt b"
  shows "\<exists>b'. bitmap_set b i v = Some b' \<and> bm_inv b' \<and> bm_bits b' = (bm_bits b)[i := v]"
proof -
  note upd = bm_bits_update_elem [OF assms, where v = v]
  note range = elem_in_range [OF assms]
  show ?thesis
  proof (cases v)
    case True
    then show ?thesis
      using range upd [of "\<lambda>e. e OR bit_mask i"] assms(2)
      by (simp add: bitmap_set_def bitmap_mark_def elem_idx_def ELEM_BITS_def Let_def bit_mask_def
          bit_simps)
  next
    case False
    then show ?thesis
      using range upd [of "\<lambda>e. e AND NOT (bit_mask i)"] assms(2)
      by (simp add: bitmap_set_def bitmap_reset_def elem_idx_def ELEM_BITS_def Let_def bit_mask_def
          bit_simps)
  qed
qed

lemma bitmap_flip_bits:
  assumes "bm_inv b" and "i < bit_cnt b"
  shows "\<exists>b'. bitmap_flip b i = Some b' \<and> bm_inv b' \<and> bm_bits b' = (bm_bits b)[i := \<not> bm_bit b i]"
  using elem_in_range [OF assms] bm_bits_update_elem [OF assms, of "\<lambda>e. e XOR bit_mask i" "\<not> bm_bit b i"]
  by (simp add: bitmap_flip_def elem_idx_def ELEM_BITS_def Let_def bit_mask_def bit_simps bm_bit_def)

lemma bit_cnt_eq: "bm_bits b' = xs \<Longrightarrow> bit_cnt b' = length xs"
  using length_bm_bits by metis

section \<open>Groups of bits as segments of the list\<close>

text \<open>The bits from \<open>start\<close>, \<open>cnt\<close> of them.\<close>

definition segment :: "'a list \<Rightarrow> nat \<Rightarrow> nat \<Rightarrow> 'a list" where
  "segment xs start cnt = take cnt (drop start xs)"

definition fill_segment :: "'a list \<Rightarrow> nat \<Rightarrow> nat \<Rightarrow> 'a \<Rightarrow> 'a list" where
  "fill_segment xs start cnt v = take start xs @ replicate cnt v @ drop (start + cnt) xs"

lemma length_segment [simp]: "start + cnt \<le> length xs \<Longrightarrow> length (segment xs start cnt) = cnt"
  by (simp add: segment_def)

lemma nth_segment [simp]:
  "start + cnt \<le> length xs \<Longrightarrow> i < cnt \<Longrightarrow> segment xs start cnt ! i = xs ! (start + i)"
  by (simp add: segment_def)

lemma segment_eq_map:
  "start + cnt \<le> length xs \<Longrightarrow> segment xs start cnt = map ((!) xs) [start..<start + cnt]"
  by (intro nth_equalityI) auto

lemma length_fill_segment [simp]:
  "start + cnt \<le> length xs \<Longrightarrow> length (fill_segment xs start cnt v) = length xs"
  by (simp add: fill_segment_def)

lemma nth_fill_segment:
  "start + cnt \<le> length xs \<Longrightarrow> i < length xs \<Longrightarrow>
    fill_segment xs start cnt v ! i = (if start \<le> i \<and> i < start + cnt then v else xs ! i)"
  by (auto simp: fill_segment_def nth_append min_def)

lemma fill_segment_0 [simp]: "fill_segment xs start 0 v = xs"
  by (simp add: fill_segment_def)

lemma fill_segment_Suc:
  "start + Suc cnt \<le> length xs \<Longrightarrow>
    fill_segment xs start (Suc cnt) v = (fill_segment xs start cnt v)[start + cnt := v]"
  by (intro nth_equalityI) (auto simp: nth_fill_segment nth_list_update)

lemma bitmap_set_loop_bits:
  assumes "bm_inv b" and "start + cnt \<le> bit_cnt b" and "i \<le> cnt"
    and "bm_bits b = fill_segment xs start i v" and "start + cnt \<le> length xs"
  shows "\<exists>b'. bitmap_set_loop b start cnt v i = Some b' \<and> bm_inv b' \<and>
    bm_bits b' = fill_segment xs start cnt v"
  using assms
proof (induction b start cnt v i rule: bitmap_set_loop.induct)
  case (1 b start cnt v i)
  show ?case
  proof (cases "i < cnt")
    case False
    then show ?thesis using 1 by (simp add: bitmap_set_loop.simps)
  next
    case True
    have w: "size_wrap (start + i) = start + i" "start + i < bit_cnt b"
      using 1(2,3) True by (auto simp: bm_inv_def)
    obtain b1 where b1: "bitmap_set b (start + i) v = Some b1" "bm_inv b1"
        "bm_bits b1 = (bm_bits b)[start + i := v]"
      using bitmap_set_bits [OF 1(2) w(2)] by blast
    have "bm_bits b1 = fill_segment xs start (i + 1) v"
      using b1(3) 1(5,6) True by (simp add: fill_segment_Suc)
    moreover have "bit_cnt b1 = bit_cnt b" using bit_cnt_eq [OF b1(3)] by simp
    ultimately show ?thesis
      using 1(1) [OF True, of b1] 1(3,6) True b1(1,2) w(1)
      by (subst bitmap_set_loop.simps) auto
  qed
qed

lemma bitmap_set_multiple_bits:
  assumes "bm_inv b" and "start + cnt \<le> bit_cnt b"
  shows "\<exists>b'. bitmap_set_multiple b start cnt v = Some b' \<and> bm_inv b' \<and>
    bm_bits b' = fill_segment (bm_bits b) start cnt v"
  using bitmap_set_loop_bits [OF assms, of 0 "bm_bits b" v] assms
  by (simp add: bitmap_set_multiple_def bm_inv_def)

lemma bitmap_set_all_bits:
  assumes "bm_inv b"
  shows "\<exists>b'. bitmap_set_all b v = Some b' \<and> bm_inv b' \<and> bm_bits b' = replicate (bit_cnt b) v"
  using bitmap_set_multiple_bits [OF assms, of 0 "bit_cnt b" v]
  by (simp add: bitmap_set_all_def bitmap_size_def fill_segment_def)



lemma bitmap_contains_loop_bits:
  assumes "bm_inv b" and "start + cnt \<le> bit_cnt b" and "i \<le> cnt"
  shows "bitmap_contains_loop b start cnt v i = Some (\<exists>j. i \<le> j \<and> j < cnt \<and> bm_bit b (start + j) = v)"
  using assms
proof (induction b start cnt v i rule: bitmap_contains_loop.induct)
  case (1 b start cnt v i)
  show ?case
  proof (cases "i < cnt")
    case False
    then show ?thesis by (simp add: bitmap_contains_loop.simps)
  next
    case True
    have w: "size_wrap (start + i) = start + i" "start + i < bit_cnt b"
      using 1(2,3) True by (auto simp: bm_inv_def)
    have "(\<exists>j. i \<le> j \<and> j < cnt \<and> bm_bit b (start + j) = v) \<longleftrightarrow>
        bm_bit b (start + i) = v \<or> (\<exists>j. i + 1 \<le> j \<and> j < cnt \<and> bm_bit b (start + j) = v)"
      using True by (metis Suc_eq_plus1 le_antisym not_less_eq_eq order_refl Suc_leD)
    then show ?thesis
      using 1(1) [OF True, of "bm_bit b (start + i)"] 1(2,3) True bitmap_test_bits [OF 1(2) w(2)] w(1)
      by (subst bitmap_contains_loop.simps) auto
  qed
qed

lemma bitmap_contains_bits:
  assumes "bm_inv b" and "start + cnt \<le> bit_cnt b"
  shows "bitmap_contains b start cnt v = Some (\<exists>j\<in>{start..<start + cnt}. bm_bit b j = v)"
proof -
  have "(\<exists>j<cnt. bm_bit b (start + j) = v) \<longleftrightarrow> (\<exists>j\<in>{start..<start + cnt}. bm_bit b j = v)"
    by (metis add_diff_inverse_nat atLeastLessThan_iff le_add1 nat_add_left_cancel_less not_less)
  then show ?thesis
    using bitmap_contains_loop_bits [OF assms, of 0 v] assms by (simp add: bitmap_contains_def bm_inv_def)
qed

lemma bitmap_all_bits:
  assumes "bm_inv b" and "start + cnt \<le> bit_cnt b"
  shows "bitmap_all b start cnt = Some (\<forall>j\<in>{start..<start + cnt}. bm_bit b j)"
  using assms by (simp add: bitmap_all_def bitmap_contains_bits)

section \<open>Scanning\<close>

text \<open>A group of \<open>cnt\<close> bits with the value, inside the bitmap.\<close>

definition group_at :: "bitmap \<Rightarrow> nat \<Rightarrow> bool \<Rightarrow> nat \<Rightarrow> bool" where
  "group_at b cnt v i \<longleftrightarrow> i + cnt \<le> bit_cnt b \<and> (\<forall>j\<in>{i..<i + cnt}. bm_bit b j = v)"

lemma bitmap_scan_loop_bits:
  assumes "bm_inv b" and "cnt \<le> bit_cnt b" and "i \<le> bit_cnt b"
  shows "bitmap_scan_loop b cnt v (bit_cnt b - cnt) i =
    Some (if \<exists>j\<ge>i. group_at b cnt v j then LEAST j. i \<le> j \<and> group_at b cnt v j else BITMAP_ERROR)"
  using assms(3)
proof (induction "bit_cnt b - i" arbitrary: i rule: less_induct)
  case less
  show ?case
  proof (cases "i \<le> bit_cnt b - cnt")
    case False
    then have "\<not> (\<exists>j\<ge>i. group_at b cnt v j)" by (auto simp: group_at_def)
    with False show ?thesis by (subst bitmap_scan_loop.simps) auto
  next
    case True
    then have in_range: "i + cnt \<le> bit_cnt b" using assms(2) by simp
    have c: "bitmap_contains b i cnt (\<not> v) = Some (\<not> group_at b cnt v i)"
      using in_range by (auto simp: bitmap_contains_bits [OF assms(1) in_range] group_at_def)
    show ?thesis
    proof (cases "group_at b cnt v i")
      case here: True
      then have "(LEAST j. i \<le> j \<and> group_at b cnt v j) = i"
        by (intro Least_equality) auto
      then show ?thesis using True c here by (subst bitmap_scan_loop.simps) auto
    next
      case False
      then have "0 < cnt" by (auto simp: group_at_def in_range)
      then have i: "i + 1 \<le> bit_cnt b" "i < bit_cnt b" "size_wrap (i + 1) = i + 1"
        using in_range assms(1) by (auto simp: bm_inv_def)
      have "i \<le> j \<and> group_at b cnt v j \<longleftrightarrow> i + 1 \<le> j \<and> group_at b cnt v j" for j
        using False by (metis Suc_eq_plus1 not_less_eq_eq le_antisym Suc_leD)
      then show ?thesis
        using less.hyps [of "i + 1"] i True c False by (subst bitmap_scan_loop.simps) auto
    qed
  qed
qed

lemma bitmap_scan_bits:
  assumes "bm_inv b" and "start \<le> bit_cnt b"
  shows "bitmap_scan b start cnt v =
    Some (if \<exists>j\<ge>start. group_at b cnt v j then LEAST j. start \<le> j \<and> group_at b cnt v j else BITMAP_ERROR)"
proof (cases "cnt \<le> bit_cnt b")
  case True
  then show ?thesis using bitmap_scan_loop_bits [OF assms(1) True assms(2)] assms(2)
    by (simp add: bitmap_scan_def)
next
  case False
  then have "\<not> (\<exists>j\<ge>start. group_at b cnt v j)" by (auto simp: group_at_def)
  with False assms(2) show ?thesis by (auto simp: bitmap_scan_def)
qed

lemma group_at_not_error: "bm_inv b \<Longrightarrow> group_at b cnt v i \<Longrightarrow> i \<noteq> BITMAP_ERROR"
  by (auto simp: group_at_def bm_inv_def BITMAP_ERROR_def SIZE_MAX_def)

lemma bitmap_scan_and_flip_found:
  assumes "bm_inv b" and "start \<le> bit_cnt b" and "start \<le> j" and "group_at b cnt v j"
  defines "i \<equiv> LEAST j. start \<le> j \<and> group_at b cnt v j"
  shows "\<exists>b'. bitmap_scan_and_flip b start cnt v = Some (i, b') \<and> bm_inv b' \<and>
    start \<le> i \<and> group_at b cnt v i \<and> bm_bits b' = fill_segment (bm_bits b) i cnt (\<not> v)"
proof -
  have i: "start \<le> i" "group_at b cnt v i"
    using LeastI [of "\<lambda>j. start \<le> j \<and> group_at b cnt v j" j] assms(3,4) unfolding i_def by auto
  then have range: "i + cnt \<le> bit_cnt b" by (simp add: group_at_def)
  have "bitmap_scan b start cnt v = Some i"
    using bitmap_scan_bits [OF assms(1,2), of cnt v] assms(3,4) unfolding i_def by auto
  then show ?thesis
    using bitmap_set_multiple_bits [OF assms(1) range, of "\<not> v"] group_at_not_error [OF assms(1) i(2)] i
    by (auto simp: bitmap_scan_and_flip_def)
qed

lemma bitmap_scan_and_flip_none:
  assumes "bm_inv b" and "start \<le> bit_cnt b" and "\<not> (\<exists>j\<ge>start. group_at b cnt v j)"
  shows "bitmap_scan_and_flip b start cnt v = Some (BITMAP_ERROR, b)"
  using bitmap_scan_bits [OF assms(1,2), of cnt v] assms(3) by (simp add: bitmap_scan_and_flip_def)

section \<open>Creation\<close>

lemma bitmap_create_bits:
  assumes "cnt \<le> 2 ^ 32 - 32" and "elem_cnt cnt \<le> length m"
  shows "\<exists>b. bitmap_create True (Some m) cnt = Some (Some b) \<and> bm_inv b \<and> bm_bits b = replicate cnt False"
  using bitmap_set_all_bits [of "\<lparr>bit_cnt = cnt, bits = m\<rparr>" False] assms
  by (auto simp: bitmap_create_def bm_inv_def)

lemma bitmap_create_in_buf_bits:
  assumes "cnt \<le> 2 ^ 32 - 32" and "bitmap_buf_size cnt \<le> block_size" and "elem_cnt cnt \<le> length block"
  shows "\<exists>b. bitmap_create_in_buf cnt block block_size = Some b \<and> bm_inv b \<and> bm_bits b = replicate cnt False"
  using bitmap_set_all_bits [of "\<lparr>bit_cnt = cnt, bits = block\<rparr>" False] assms
  by (auto simp: bitmap_create_in_buf_def bm_inv_def)

section \<open>Bitmaps as allocators\<close>

text \<open>
  The use that the page allocator and the free map make of a bitmap: a set bit is a unit in use,
  a request scans from 0 for a group of clear bits, a release checks that the group is in use.
\<close>

definition bm_used :: "bitmap \<Rightarrow> nat set" where
  "bm_used b = {i. i < bit_cnt b \<and> bm_bit b i}"

definition bm_take :: "nat \<Rightarrow> bitmap \<Rightarrow> (nat option \<times> bitmap) option" where
  "bm_take n b =
     do {
       (i, b') \<leftarrow> bitmap_scan_and_flip b 0 n False;
       Some (if i = BITMAP_ERROR then None else Some i, b')
     }"

definition bm_release :: "nat \<Rightarrow> nat \<Rightarrow> bitmap \<Rightarrow> bitmap option" where
  "bm_release i n b =
     do {
       ok \<leftarrow> bitmap_all b i n;
       ASSERT ok;
       bitmap_set_multiple b i n False
     }"

lemma bm_used_fill:
  assumes "bm_bits b' = fill_segment (bm_bits b) i n v" and "i + n \<le> bit_cnt b"
  shows "bit_cnt b' = bit_cnt b"
    and "bm_used b' = (if v then bm_used b \<union> {i..<i + n} else bm_used b - {i..<i + n})"
proof -
  show c: "bit_cnt b' = bit_cnt b" using bit_cnt_eq [OF assms(1)] assms(2) by simp
  have "bm_bit b' j = (if i \<le> j \<and> j < i + n then v else bm_bit b j)" if "j < bit_cnt b" for j
    using nth_fill_segment [of i n "bm_bits b" j v] assms that c
    by (metis length_bm_bits nth_bm_bits)
  then show "bm_used b' = (if v then bm_used b \<union> {i..<i + n} else bm_used b - {i..<i + n})"
    using assms(2) c by (auto simp: bm_used_def split: if_splits)
qed

lemma group_at_free: "group_at b n False i \<longleftrightarrow> i + n \<le> bit_cnt b \<and> {i..<i + n} \<inter> bm_used b = {}"
  by (auto simp: group_at_def bm_used_def)

lemma bm_take_cases:
  assumes "bm_inv b"
  obtains (found) i b' where "bm_take n b = Some (Some i, b')" "bm_inv b'" "group_at b n False i"
      "bm_bits b' = fill_segment (bm_bits b) i n True"
      "\<And>j. group_at b n False j \<Longrightarrow> i \<le> j"
  | (none) "bm_take n b = Some (None, b)" "\<And>i. \<not> group_at b n False i"
proof (cases "\<exists>j. group_at b n False j")
  case True
  then obtain j where j: "group_at b n False j" ..
  define i where "i = (LEAST j. 0 \<le> j \<and> group_at b n False j)"
  obtain b' where "bitmap_scan_and_flip b 0 n False = Some (i, b')" "bm_inv b'"
      "group_at b n False i" "bm_bits b' = fill_segment (bm_bits b) i n True"
    using bitmap_scan_and_flip_found [OF assms _ _ j, of 0] unfolding i_def by auto
  moreover have "i \<le> j" if "group_at b n False j" for j
    unfolding i_def using that by (intro Least_le) simp
  ultimately show ?thesis
    using found group_at_not_error [OF assms] by (auto simp: bm_take_def)
next
  case False
  then show ?thesis
    using none bitmap_scan_and_flip_none [OF assms, of 0 n False] by (auto simp: bm_take_def)
qed

interpretation bm: region_alloc bm_inv bm_used bit_cnt bm_take bm_release
proof unfold_locales
  fix b n
  assume inv: "bm_inv b"
  from bm_take_cases [OF inv, of n] show "bm_take n b \<noteq> None" by cases auto
  fix b'
  show "b' = b \<and> \<not> (\<exists>i. i + n \<le> bit_cnt b \<and> {i..<i + n} \<inter> bm_used b = {})"
    if "bm_take n b = Some (None, b')"
    using inv by (cases rule: bm_take_cases [of _ n]) (use that group_at_free in auto)
  fix i
  show "bm_inv b' \<and> bit_cnt b' = bit_cnt b \<and> i + n \<le> bit_cnt b \<and> {i..<i + n} \<inter> bm_used b = {} \<and>
      bm_used b' = bm_used b \<union> {i..<i + n}"
    if "bm_take n b = Some (Some i, b')"
    using inv
  proof (cases rule: bm_take_cases [of _ n])
    case (found i' b1)
    then show ?thesis using that bm_used_fill [OF found(4)] group_at_free by auto
  qed (use that in auto)
next
  fix b i n
  assume inv: "bm_inv b" and "i + n \<le> bit_cnt b" and "{i..<i + n} \<subseteq> bm_used b"
  moreover from this have "\<forall>j\<in>{i..<i + n}. bm_bit b j" by (auto simp: bm_used_def)
  ultimately show "\<exists>b'. bm_release i n b = Some b' \<and> bm_inv b' \<and> bit_cnt b' = bit_cnt b \<and>
      bm_used b' = bm_used b - {i..<i + n}"
    using bitmap_set_multiple_bits [OF inv, of i n False] bitmap_all_bits [OF inv, of i n]
      bm_used_fill [of _ b i n False]
    by (fastforce simp: bm_release_def)
qed

section \<open>Properties\<close>







end
