(* ===== verification/Kstring.thy ===== *)
theory Kstring
  imports Pintos_Prelude
begin

text \<open>
  \<^verbatim>\<open>lib/string.c\<close> on a memory of bytes. A pointer is an address, and an access to an
  address that is not mapped stops the kernel, so a result is also a proof that the routine reads
  and writes only memory it may. The routines that run to a null byte are
  \<^theory_text>\<open>partial_function\<close>s: on memory without one they need not return.
\<close>

section \<open>Memory\<close>

type_synonym bmem = "ptr \<rightharpoonup> u8"

definition ld :: "bmem \<Rightarrow> ptr \<Rightarrow> u8 option" where
  "ld m p = m p"

definition st :: "bmem \<Rightarrow> ptr \<Rightarrow> u8 \<Rightarrow> bmem option" where
  "st m p v = (if m p = None then None else Some (m(p \<mapsto> v)))"

section \<open>Blocks\<close>

fun memcpy_loop :: "bmem \<Rightarrow> ptr \<Rightarrow> ptr \<Rightarrow> nat \<Rightarrow> bmem option" where
  "memcpy_loop m dst src 0 = Some m"
| "memcpy_loop m dst src (Suc sz) =
     do {
       v \<leftarrow> ld m src;
       m \<leftarrow> st m dst v;
       memcpy_loop m (dst + 1) (src + 1) sz
     }"

definition memcpy :: "bmem \<Rightarrow> ptr \<Rightarrow> ptr \<Rightarrow> nat \<Rightarrow> (ptr \<times> bmem) option" where
  "memcpy m dst' src' sz =
     do {
       ASSERT (dst' \<noteq> NULL \<or> sz = 0);
       ASSERT (src' \<noteq> NULL \<or> sz = 0);
       m \<leftarrow> memcpy_loop m dst' src' sz;
       Some (dst', m)
     }"

fun memmove_back :: "bmem \<Rightarrow> ptr \<Rightarrow> ptr \<Rightarrow> nat \<Rightarrow> (ptr \<times> bmem) option" where
  "memmove_back m dst src 0 = Some (dst, m)"
| "memmove_back m dst src (Suc sz) =
     do {
       v \<leftarrow> ld m (src - 1);
       m \<leftarrow> st m (dst - 1) v;
       memmove_back m (dst - 1) (src - 1) sz
     }"

text \<open>The forward branch of \<^verbatim>\<open>memmove\<close> leaves \<^verbatim>\<open>dst\<close> after the last byte, and \<^verbatim>\<open>dst\<close> is what the function returns.\<close>

definition memmove :: "bmem \<Rightarrow> ptr \<Rightarrow> ptr \<Rightarrow> nat \<Rightarrow> (ptr \<times> bmem) option" where
  "memmove m dst' src' sz =
     do {
       ASSERT (dst' \<noteq> NULL \<or> sz = 0);
       ASSERT (src' \<noteq> NULL \<or> sz = 0);
       if dst' < src'
       then do {
         m \<leftarrow> memcpy_loop m dst' src' sz;
         Some (dst' + sz, m)
       }
       else memmove_back m (dst' + sz) (src' + sz) sz
     }"

fun memcmp_loop :: "bmem \<Rightarrow> ptr \<Rightarrow> ptr \<Rightarrow> nat \<Rightarrow> int option" where
  "memcmp_loop m a b 0 = Some 0"
| "memcmp_loop m a b (Suc sz) =
     do {
       x \<leftarrow> ld m a;
       y \<leftarrow> ld m b;
       if x \<noteq> y then Some (if x > y then 1 else - 1)
       else memcmp_loop m (a + 1) (b + 1) sz
     }"

definition memcmp :: "bmem \<Rightarrow> ptr \<Rightarrow> ptr \<Rightarrow> nat \<Rightarrow> int option" where
  "memcmp m a' b' sz =
     do {
       ASSERT (a' \<noteq> NULL \<or> sz = 0);
       ASSERT (b' \<noteq> NULL \<or> sz = 0);
       memcmp_loop m a' b' sz
     }"

fun memchr_loop :: "bmem \<Rightarrow> ptr \<Rightarrow> u8 \<Rightarrow> nat \<Rightarrow> ptr option" where
  "memchr_loop m block ch 0 = Some NULL"
| "memchr_loop m block ch (Suc sz) =
     do {
       x \<leftarrow> ld m block;
       if x = ch then Some block else memchr_loop m (block + 1) ch sz
     }"

definition memchr :: "bmem \<Rightarrow> ptr \<Rightarrow> u32 \<Rightarrow> nat \<Rightarrow> ptr option" where
  "memchr m block' ch' sz =
     do {
       ASSERT (block' \<noteq> NULL \<or> sz = 0);
       memchr_loop m block' (ucast ch') sz
     }"

fun memset_loop :: "bmem \<Rightarrow> ptr \<Rightarrow> u8 \<Rightarrow> nat \<Rightarrow> bmem option" where
  "memset_loop m dst v 0 = Some m"
| "memset_loop m dst v (Suc sz) = do { m \<leftarrow> st m dst v; memset_loop m (dst + 1) v sz }"

definition memset :: "bmem \<Rightarrow> ptr \<Rightarrow> u32 \<Rightarrow> nat \<Rightarrow> (ptr \<times> bmem) option" where
  "memset m dst' value sz =
     do {
       ASSERT (dst' \<noteq> NULL \<or> sz = 0);
       m \<leftarrow> memset_loop m dst' (ucast value) sz;
       Some (dst', m)
     }"

section \<open>Strings\<close>

partial_function (option) strcmp_loop :: "bmem \<Rightarrow> ptr \<Rightarrow> ptr \<Rightarrow> int option" where
  "strcmp_loop m a b =
     do {
       x \<leftarrow> ld m a;
       if x = 0
       then do { y \<leftarrow> ld m b; Some (if x < y then - 1 else if x > y then 1 else 0) }
       else do {
         y \<leftarrow> ld m b;
         if x = y then strcmp_loop m (a + 1) (b + 1)
         else Some (if x < y then - 1 else if x > y then 1 else 0)
       }
     }"

definition strcmp :: "bmem \<Rightarrow> ptr \<Rightarrow> ptr \<Rightarrow> int option" where
  "strcmp m a' b' = do { ASSERT (a' \<noteq> NULL); ASSERT (b' \<noteq> NULL); strcmp_loop m a' b' }"

partial_function (option) strchr_loop :: "bmem \<Rightarrow> ptr \<Rightarrow> u8 \<Rightarrow> ptr option" where
  "strchr_loop m p c =
     do {
       x \<leftarrow> ld m p;
       if x = c then Some p
       else if x = 0 then Some NULL
       else strchr_loop m (p + 1) c
     }"

definition strchr :: "bmem \<Rightarrow> ptr \<Rightarrow> u32 \<Rightarrow> ptr option" where
  "strchr m p c' = do { ASSERT (p \<noteq> NULL); strchr_loop m p (ucast c') }"

text \<open>A \<^verbatim>\<open>char\<close> that is passed as an \<^verbatim>\<open>int\<close> is sign-extended.\<close>

partial_function (option) strcspn_loop :: "bmem \<Rightarrow> ptr \<Rightarrow> ptr \<Rightarrow> nat \<Rightarrow> nat option" where
  "strcspn_loop m p stop len =
     do {
       x \<leftarrow> ld m (p + len);
       if x \<noteq> 0
       then do {
         q \<leftarrow> strchr m stop (scast x);
         if q \<noteq> NULL then Some len else strcspn_loop m p stop (size_wrap (len + 1))
       }
       else Some len
     }"

definition strcspn :: "bmem \<Rightarrow> ptr \<Rightarrow> ptr \<Rightarrow> nat option" where
  "strcspn m p stop = strcspn_loop m p stop 0"

partial_function (option) strpbrk :: "bmem \<Rightarrow> ptr \<Rightarrow> ptr \<Rightarrow> ptr option" where
  "strpbrk m p stop =
     do {
       x \<leftarrow> ld m p;
       if x \<noteq> 0
       then do {
         q \<leftarrow> strchr m stop (scast x);
         if q \<noteq> NULL then Some p else strpbrk m (p + 1) stop
       }
       else Some NULL
     }"

partial_function (option) strrchr_loop :: "bmem \<Rightarrow> ptr \<Rightarrow> u8 \<Rightarrow> ptr \<Rightarrow> ptr option" where
  "strrchr_loop m p c found =
     do {
       x \<leftarrow> ld m p;
       if x \<noteq> 0 then strrchr_loop m (p + 1) c (if x = c then p else found)
       else Some found
     }"

definition strrchr :: "bmem \<Rightarrow> ptr \<Rightarrow> u32 \<Rightarrow> ptr option" where
  "strrchr m p c' = strrchr_loop m p (ucast c') NULL"

partial_function (option) strspn_loop :: "bmem \<Rightarrow> ptr \<Rightarrow> ptr \<Rightarrow> nat \<Rightarrow> nat option" where
  "strspn_loop m p skip len =
     do {
       x \<leftarrow> ld m (p + len);
       if x \<noteq> 0
       then do {
         q \<leftarrow> strchr m skip (scast x);
         if q = NULL then Some len else strspn_loop m p skip (size_wrap (len + 1))
       }
       else Some len
     }"

definition strspn :: "bmem \<Rightarrow> ptr \<Rightarrow> ptr \<Rightarrow> nat option" where
  "strspn m p skip = strspn_loop m p skip 0"

partial_function (option) strlen_loop :: "bmem \<Rightarrow> ptr \<Rightarrow> ptr option" where
  "strlen_loop m p = do { x \<leftarrow> ld m p; if x \<noteq> 0 then strlen_loop m (p + 1) else Some p }"

definition strlen :: "bmem \<Rightarrow> ptr \<Rightarrow> nat option" where
  "strlen m p = do { ASSERT (p \<noteq> NULL); q \<leftarrow> strlen_loop m p; Some (size_wrap (q - p)) }"

text \<open>The byte is read before the bound is tested, so \<^verbatim>\<open>strnlen\<close> reads one byte past \<^verbatim>\<open>maxlen\<close>.\<close>

partial_function (option) strnlen_loop :: "bmem \<Rightarrow> ptr \<Rightarrow> nat \<Rightarrow> nat \<Rightarrow> nat option" where
  "strnlen_loop m p maxlen len =
     do {
       x \<leftarrow> ld m (p + len);
       if x \<noteq> 0 \<and> len < maxlen then strnlen_loop m p maxlen (len + 1) else Some len
     }"

definition strnlen :: "bmem \<Rightarrow> ptr \<Rightarrow> nat \<Rightarrow> nat option" where
  "strnlen m p maxlen = strnlen_loop m p maxlen 0"

partial_function (option) strstr_loop :: "bmem \<Rightarrow> ptr \<Rightarrow> ptr \<Rightarrow> nat \<Rightarrow> nat \<Rightarrow> nat \<Rightarrow> ptr option" where
  "strstr_loop m haystack needle haystack_len needle_len i =
     (if i \<le> haystack_len - needle_len
      then do {
        c \<leftarrow> memcmp m (haystack + i) needle needle_len;
        if c = 0 then Some (haystack + i)
        else strstr_loop m haystack needle haystack_len needle_len (size_wrap (i + 1))
      }
      else Some NULL)"

definition strstr :: "bmem \<Rightarrow> ptr \<Rightarrow> ptr \<Rightarrow> ptr option" where
  "strstr m haystack needle =
     do {
       haystack_len \<leftarrow> strlen m haystack;
       needle_len \<leftarrow> strlen m needle;
       if haystack_len \<ge> needle_len
       then strstr_loop m haystack needle haystack_len needle_len 0
       else Some NULL
     }"

section \<open>Tokens\<close>

text \<open>
  The first loop of \<^verbatim>\<open>strtok_r\<close> ends at the null byte (\<open>Inl\<close>, there is no token) or at the first
  byte that is not a delimiter (\<open>Inr\<close>).
\<close>

partial_function (option) strtok_skip :: "bmem \<Rightarrow> ptr \<Rightarrow> ptr \<Rightarrow> (ptr + ptr) option" where
  "strtok_skip m delimiters s =
     do {
       x \<leftarrow> ld m s;
       q \<leftarrow> strchr m delimiters (scast x);
       if q \<noteq> NULL
       then (if x = 0 then Some (Inl s) else strtok_skip m delimiters (s + 1))
       else Some (Inr s)
     }"

partial_function (option) strtok_scan :: "bmem \<Rightarrow> ptr \<Rightarrow> ptr \<Rightarrow> ptr option" where
  "strtok_scan m delimiters s =
     do {
       x \<leftarrow> ld m s;
       q \<leftarrow> strchr m delimiters (scast x);
       if q = NULL then strtok_scan m delimiters (s + 1) else Some s
     }"

text \<open>
  The variable at \<^verbatim>\<open>save_ptr\<close> is passed and returned: the result is the token (or null), the new
  saved position and the memory.
\<close>

definition strtok_r :: "bmem \<Rightarrow> ptr \<Rightarrow> ptr \<Rightarrow> ptr \<Rightarrow> (ptr \<times> ptr \<times> bmem) option" where
  "strtok_r m s delimiters save =
     do {
       ASSERT (delimiters \<noteq> NULL);
       let s = (if s = NULL then save else s);
       ASSERT (s \<noteq> NULL);
       r \<leftarrow> strtok_skip m delimiters s;
       case r of
         Inl s \<Rightarrow> Some (NULL, s, m)
       | Inr token \<Rightarrow>
           do {
             s \<leftarrow> strtok_scan m delimiters token;
             x \<leftarrow> ld m s;
             if x \<noteq> 0
             then do { m \<leftarrow> st m s 0; Some (token, s + 1, m) }
             else Some (token, s, m)
           }
     }"

section \<open>Bounded copies\<close>

definition strlcpy :: "bmem \<Rightarrow> ptr \<Rightarrow> ptr \<Rightarrow> nat \<Rightarrow> (nat \<times> bmem) option" where
  "strlcpy m dst src sz =
     do {
       ASSERT (dst \<noteq> NULL);
       ASSERT (src \<noteq> NULL);
       src_len \<leftarrow> strlen m src;
       m \<leftarrow> (if sz > 0
            then do {
              let dst_len = (if src_len < sz - 1 then src_len else sz - 1);
              (_, m) \<leftarrow> memcpy m dst src dst_len;
              st m (dst + dst_len) 0
            }
            else Some m);
       Some (src_len, m)
     }"

definition strlcat :: "bmem \<Rightarrow> ptr \<Rightarrow> ptr \<Rightarrow> nat \<Rightarrow> (nat \<times> bmem) option" where
  "strlcat m dst src sz =
     do {
       ASSERT (dst \<noteq> NULL);
       ASSERT (src \<noteq> NULL);
       src_len \<leftarrow> strlen m src;
       dst_len \<leftarrow> strlen m dst;
       m \<leftarrow> (if sz > 0 \<and> dst_len < sz
            then do {
              let copy_cnt = (if src_len < sz - dst_len - 1 then src_len else sz - dst_len - 1);
              (_, m) \<leftarrow> memcpy m (dst + dst_len) src copy_cnt;
              st m (dst + (dst_len + copy_cnt)) 0
            }
            else Some m);
       Some (size_wrap (src_len + dst_len), m)
     }"

end
