(* ===== verification/Kstring_Spec.thy ===== *)
theory Kstring_Spec
  imports Kstring
begin

text \<open>
  What the routines of \<^verbatim>\<open>lib/string.c\<close> compute, on lists of bytes. \<open>bytes_at\<close> and
  \<open>str_at\<close> say that memory holds a block or a null-terminated string at an address, and
  \<open>put\<close> is memory after a block has been stored.
\<close>

section \<open>Blocks and strings in memory\<close>

definition bytes_at :: "bmem \<Rightarrow> ptr \<Rightarrow> u8 list \<Rightarrow> bool" where
  "bytes_at m p xs \<longleftrightarrow> (\<forall>i<length xs. m (p + i) = Some (xs ! i))"

definition mapped :: "bmem \<Rightarrow> ptr \<Rightarrow> nat \<Rightarrow> bool" where
  "mapped m p n \<longleftrightarrow> (\<forall>i<n. m (p + i) \<noteq> None)"

definition put :: "bmem \<Rightarrow> ptr \<Rightarrow> u8 list \<Rightarrow> bmem" where
  "put m p xs = (\<lambda>a. if p \<le> a \<and> a < p + length xs then Some (xs ! (a - p)) else m a)"

definition str_at :: "bmem \<Rightarrow> ptr \<Rightarrow> u8 list \<Rightarrow> bool" where
  "str_at m p s \<longleftrightarrow> p \<noteq> NULL \<and> 0 \<notin> set s \<and> bytes_at m p (s @ [0])"

lemma bytes_at_Nil [simp]: "bytes_at m p []"
  by (simp add: bytes_at_def)

lemma bytes_at_Cons [simp]: "bytes_at m p (x # xs) \<longleftrightarrow> m p = Some x \<and> bytes_at m (p + 1) xs"
  by (auto simp: bytes_at_def nth_Cons split: nat.splits)

lemma bytes_at_append [simp]:
  "bytes_at m p (xs @ ys) \<longleftrightarrow> bytes_at m p xs \<and> bytes_at m (p + length xs) ys"
  by (induction xs arbitrary: p) (auto simp: add.assoc)

lemma mapped_0 [simp]: "mapped m p 0"
  by (simp add: mapped_def)

lemma mapped_Suc [simp]: "mapped m p (Suc n) \<longleftrightarrow> m p \<noteq> None \<and> mapped m (p + 1) n"
  by (auto simp: mapped_def less_Suc_eq_0_disj)

lemma mapped_mono: "mapped m p n \<Longrightarrow> k \<le> n \<Longrightarrow> mapped m p k"
  by (auto simp: mapped_def)

lemma mapped_offset: "mapped m p n \<Longrightarrow> k + j \<le> n \<Longrightarrow> mapped m (p + k) j"
  by (auto simp: mapped_def add.assoc)

lemma bytes_at_mapped: "bytes_at m p xs \<Longrightarrow> mapped m p (length xs)"
  by (auto simp: bytes_at_def mapped_def)

lemma bytes_at_upd [simp]:
  "a < p \<or> p + length xs \<le> a \<Longrightarrow> bytes_at (m(a \<mapsto> v)) p xs = bytes_at m p xs"
  unfolding bytes_at_def by (intro all_cong) auto

lemma mapped_upd [simp]: "mapped m p n \<Longrightarrow> mapped (m(a \<mapsto> v)) p n"
  by (auto simp: mapped_def)

lemma put_Nil [simp]: "put m p [] = m"
  by (rule ext) (auto simp: put_def)

lemma put_Cons: "put m p (x # xs) = put (m(p \<mapsto> x)) (p + 1) xs"
  by (rule ext) (auto simp: put_def nth_Cons')

lemma put_snoc: "put m p (xs @ [x]) = put (m(p + length xs \<mapsto> x)) p xs"
  by (rule ext) (auto simp: put_def nth_append)

lemma put_then_upd: "(put m p xs)(p + length xs \<mapsto> x) = put m p (xs @ [x])"
  by (rule ext) (auto simp: put_def nth_append)

lemma bytes_at_put [simp]: "bytes_at (put m p xs) p xs"
  by (simp add: bytes_at_def put_def)

lemma bytes_at_put_other [simp]:
  "q + length ys \<le> p \<or> p + length xs \<le> q \<Longrightarrow> bytes_at (put m p xs) q ys = bytes_at m q ys"
  unfolding bytes_at_def by (intro all_cong) (auto simp: put_def)

lemma mapped_put [simp]: "mapped m q n \<Longrightarrow> mapped (put m p xs) q n"
  by (auto simp: mapped_def put_def)

lemma str_at_Cons: "str_at m p (x # xs) \<Longrightarrow> m p = Some x \<and> x \<noteq> 0 \<and> str_at m (p + 1) xs"
  by (auto simp: str_at_def)

lemma str_at_Nil: "str_at m p [] \<longleftrightarrow> p \<noteq> NULL \<and> m p = Some 0"
  by (simp add: str_at_def)

lemma str_at_suffix: "str_at m p (xs @ ys) \<Longrightarrow> str_at m (p + length xs) ys"
  by (induction xs arbitrary: p) (auto dest: str_at_Cons simp: str_at_def)

lemma str_at_end: "str_at m p s \<Longrightarrow> m (p + length s) = Some 0"
  by (simp add: str_at_def)

lemma ld_eq [simp]: "m p = Some x \<Longrightarrow> ld m p = Some x"
  by (simp add: ld_def)

lemma st_eq [simp]: "m p \<noteq> None \<Longrightarrow> st m p v = Some (m(p \<mapsto> v))"
  by (auto simp: st_def)

section \<open>Block routines\<close>

lemma memcpy_loop_put:
  assumes "bytes_at m src xs" and "mapped m dst (length xs)"
    and "dst \<le> src \<or> src + length xs \<le> dst"
  shows "memcpy_loop m dst src (length xs) = Some (put m dst xs)"
  using assms
proof (induction xs arbitrary: m dst src)
  case (Cons x xs)
  have apart: "dst < src + 1 \<or> src + 1 + length xs \<le> dst" using Cons.prems(3) by auto
  have b: "bytes_at (m(dst \<mapsto> x)) (src + 1) xs"
    using Cons.prems(1) by (simp only: bytes_at_upd [OF apart] bytes_at_Cons)
  have mp: "mapped (m(dst \<mapsto> x)) (dst + 1) (length xs)" using Cons.prems(2) by simp
  have "dst + 1 \<le> src + 1 \<or> src + 1 + length xs \<le> dst + 1" using apart by auto
  with b mp have "memcpy_loop (m(dst \<mapsto> x)) (dst + 1) (src + 1) (length xs) =
      Some (put (m(dst \<mapsto> x)) (dst + 1) xs)"
    by (rule Cons.IH)
  with Cons.prems show ?case by (simp add: put_Cons)
qed simp

lemma memcpy_put:
  assumes "bytes_at m src xs" and "mapped m dst (length xs)"
    and "dst + length xs \<le> src \<or> src + length xs \<le> dst"
    and "src \<noteq> NULL" and "dst \<noteq> NULL"
  shows "memcpy m dst src (length xs) = Some (dst, put m dst xs)"
  using memcpy_loop_put [of m src xs dst] assms by (auto simp: memcpy_def)

lemma memmove_back_put:
  assumes "bytes_at m src xs" and "mapped m dst (length xs)" and "src \<le> dst"
  shows "memmove_back m (dst + length xs) (src + length xs) (length xs) = Some (dst, put m dst xs)"
  using assms
proof (induction xs arbitrary: m rule: rev_induct)
  case (snoc x xs)
  have "m (dst + length xs) \<noteq> None"
    using snoc.prems(2) by (simp add: mapped_def)
  moreover have "bytes_at (m(dst + length xs \<mapsto> x)) src xs"
    using snoc.prems(1,3) by simp
  moreover have "mapped (m(dst + length xs \<mapsto> x)) dst (length xs)"
    using snoc.prems(2) mapped_mono [of m dst "length (xs @ [x])" "length xs"] by simp
  ultimately have "m (dst + length xs) \<noteq> None"
    "memmove_back (m(dst + length xs \<mapsto> x)) (dst + length xs) (src + length xs) (length xs) =
      Some (dst, put (m(dst + length xs \<mapsto> x)) dst xs)"
    using snoc.IH snoc.prems(3) by blast+
  then show ?case
    using snoc.prems(1) by (simp add: put_snoc)
qed simp

lemma memmove_put:
  assumes "bytes_at m src xs" and "mapped m dst (length xs)" and "src \<noteq> NULL" and "dst \<noteq> NULL"
  shows "memmove m dst src (length xs) =
    Some (if dst < src then dst + length xs else dst, put m dst xs)"
  using memcpy_loop_put [OF assms(1,2)] memmove_back_put [OF assms(1,2)] assms(3,4)
  by (simp add: memmove_def)

text \<open>The order of two blocks of the same length: the first difference decides.\<close>

fun block_cmp :: "u8 list \<Rightarrow> u8 list \<Rightarrow> int" where
  "block_cmp (x # xs) (y # ys) = (if x = y then block_cmp xs ys else if x > y then 1 else - 1)"
| "block_cmp _ _ = 0"

lemma memcmp_loop_cmp:
  assumes "bytes_at m a xs" and "bytes_at m b ys" and "length xs = n" and "length ys = n"
  shows "memcmp_loop m a b n = Some (block_cmp xs ys)"
  using assms
proof (induction n arbitrary: a b xs ys)
  case (Suc n)
  then obtain x xs' y ys' where "xs = x # xs'" "ys = y # ys'" by (metis length_Suc_conv)
  with Suc show ?case by simp
qed simp

lemma block_cmp_0: "length xs = length ys \<Longrightarrow> block_cmp xs ys = 0 \<longleftrightarrow> xs = ys"
  by (induction xs ys rule: block_cmp.induct) auto

lemma block_cmp_swap: "length xs = length ys \<Longrightarrow> block_cmp ys xs = - block_cmp xs ys"
  by (induction xs ys rule: block_cmp.induct) auto

text \<open>The first position of a byte.\<close>

definition first_pos :: "u8 \<Rightarrow> u8 list \<Rightarrow> nat" where
  "first_pos c xs = length (takeWhile (\<lambda>x. x \<noteq> c) xs)"

lemma memchr_loop_pos:
  assumes "bytes_at m p xs"
  shows "memchr_loop m p c (length xs) = Some (if c \<in> set xs then p + first_pos c xs else NULL)"
  using assms by (induction xs arbitrary: p) (auto simp: first_pos_def)

lemma memset_loop_put:
  assumes "mapped m p n"
  shows "memset_loop m p v n = Some (put m p (replicate n v))"
  using assms by (induction n arbitrary: m p) (auto simp: put_Cons)

section \<open>String routines\<close>

lemma strlen_loop_str: "str_at m p s \<Longrightarrow> strlen_loop m p = Some (p + length s)"
proof (induction s arbitrary: p)
  case Nil
  then show ?case by (subst strlen_loop.simps) (simp add: str_at_Nil)
next
  case (Cons x s)
  from Cons.IH [of "p + 1"] str_at_Cons [OF Cons.prems] show ?case
    by (subst strlen_loop.simps) simp
qed

lemma strlen_str: "str_at m p s \<Longrightarrow> length s < 2 ^ 32 \<Longrightarrow> strlen m p = Some (length s)"
  using strlen_loop_str [of m p s] by (simp add: strlen_def str_at_def)

lemma strnlen_loop_str:
  assumes "bytes_at m (p + len) s" and "0 \<notin> set s" and "m (p + len + length s) = Some e"
    and "e = 0 \<or> len + length s = maxlen" and "len + length s \<le> maxlen"
  shows "strnlen_loop m p maxlen len = Some (len + length s)"
  using assms
proof (induction s arbitrary: len)
  case Nil
  then show ?case by (subst strnlen_loop.simps) auto
next
  case (Cons x s)
  then show ?case
    using Cons.IH [of "len + 1"] by (subst strnlen_loop.simps) (auto simp: add.assoc)
qed

lemma strnlen_str:
  assumes "str_at m p s"
  shows "strnlen m p maxlen = Some (min (length s) maxlen)"
proof (cases "length s \<le> maxlen")
  case True
  then show ?thesis
    using strnlen_loop_str [of m p 0 s 0 maxlen] assms by (simp add: str_at_def strnlen_def)
next
  case False
  then have "s = take maxlen s @ s ! maxlen # drop (Suc maxlen) s" by (simp add: id_take_nth_drop)
  then have "str_at m p (take maxlen s @ s ! maxlen # drop (Suc maxlen) s)" using assms by simp
  then have "bytes_at m p (take maxlen s)" "m (p + length (take maxlen s)) = Some (s ! maxlen)"
      "0 \<notin> set (take maxlen s)"
    by (auto simp: str_at_def)
  then show ?thesis
    using strnlen_loop_str [of m p 0 "take maxlen s" "s ! maxlen" maxlen] False
    by (simp add: strnlen_def)
qed

text \<open>Comparison in dictionary order of the bytes as unsigned numbers; the null byte ends a string.\<close>

fun str_cmp :: "u8 list \<Rightarrow> u8 list \<Rightarrow> int" where
  "str_cmp [] [] = 0"
| "str_cmp [] (y # ys) = - 1"
| "str_cmp (x # xs) [] = 1"
| "str_cmp (x # xs) (y # ys) = (if x = y then str_cmp xs ys else if x < y then - 1 else 1)"

lemma strcmp_loop_str:
  "str_at m a s \<Longrightarrow> str_at m b t \<Longrightarrow> strcmp_loop m a b = Some (str_cmp s t)"
proof (induction s t arbitrary: a b rule: str_cmp.induct)
  case (2 y ys)
  then show ?case using str_at_Cons [OF 2(2)]
    by (subst strcmp_loop.simps) (auto simp: str_at_Nil word_gt_0)
next
  case (3 x xs)
  then show ?case using str_at_Cons [OF 3(1)]
    by (subst strcmp_loop.simps) (auto simp: str_at_Nil word_gt_0)
next
  case (4 x xs y ys)
  then show ?case using str_at_Cons [OF 4(2)] str_at_Cons [OF 4(3)]
    by (subst strcmp_loop.simps) auto
qed (subst strcmp_loop.simps, simp add: str_at_Nil)

lemma strcmp_str: "str_at m a s \<Longrightarrow> str_at m b t \<Longrightarrow> strcmp m a b = Some (str_cmp s t)"
  by (simp add: strcmp_def strcmp_loop_str) (simp add: str_at_def)

lemma str_cmp_0: "str_cmp s t = 0 \<longleftrightarrow> s = t"
  by (induction s t rule: str_cmp.induct) auto

lemma str_cmp_swap: "str_cmp t s = - str_cmp s t"
  by (induction s t rule: str_cmp.induct) auto

text \<open>A search for a byte also finds the terminator.\<close>

lemma strchr_loop_str:
  assumes "str_at m p s"
  shows "strchr_loop m p c =
    Some (if c \<in> set (s @ [0]) then p + first_pos c (s @ [0]) else NULL)"
  using assms
proof (induction s arbitrary: p)
  case Nil
  then show ?case by (subst strchr_loop.simps) (auto simp: str_at_Nil first_pos_def)
next
  case (Cons x s)
  then show ?case using Cons.IH [of "p + 1"] str_at_Cons [OF Cons.prems]
    by (subst strchr_loop.simps) (auto simp: first_pos_def)
qed

lemma char_as_int: "ucast (scast (x :: u8) :: u32) = x"
  by (rule bit_word_eqI) (simp add: bit_simps)

lemma strchr_str:
  "str_at m p s \<Longrightarrow> strchr m p (scast x) =
    Some (if x \<in> set (s @ [0]) then p + first_pos x (s @ [0]) else NULL)"
  using strchr_loop_str [of m p s x] by (simp add: strchr_def char_as_int str_at_def)

lemma strchr_null_iff:
  assumes "str_at m d D"
  shows "\<exists>q. strchr m d (scast x) = Some q \<and> (q = NULL \<longleftrightarrow> x \<noteq> 0 \<and> x \<notin> set D)"
  using strchr_str [OF assms, of x] assms by (auto simp: str_at_def)

lemma strrchr_loop_str:
  assumes "str_at m p s"
  shows "strrchr_loop m p c f =
    Some (if c \<in> set s then p + length s - 1 - first_pos c (rev s) else f)"
  using assms
proof (induction s arbitrary: p f)
  case Nil
  then show ?case by (subst strrchr_loop.simps) (auto simp: str_at_Nil)
next
  case (Cons x s)
  have *: "takeWhile (\<lambda>y. y \<noteq> c) (rev s @ [x]) = (if c \<in> set s then takeWhile (\<lambda>y. y \<noteq> c) (rev s)
      else rev s @ (if x = c then [] else [x]))"
    by (auto simp: takeWhile_append)
  show ?case using Cons.IH [of "p + 1"] str_at_Cons [OF Cons.prems]
    by (subst strrchr_loop.simps) (auto simp: first_pos_def *)
qed

text \<open>The two loops that measure a prefix, over the part of the string not read yet.\<close>

lemma strspn_loop_str:
  assumes "str_at m p (as @ s)" and "str_at m k K" and "length (as @ s) < 2 ^ 32"
  shows "strspn_loop m p k (length as) =
    Some (length as + length (takeWhile (\<lambda>x. x \<in> set K) s))"
  using assms
proof (induction s arbitrary: as)
  case Nil
  then show ?case using str_at_end [of m p as] by (subst strspn_loop.simps) simp
next
  case (Cons x s)
  obtain q where q: "strchr m k (scast x) = Some q" "q = NULL \<longleftrightarrow> x \<noteq> 0 \<and> x \<notin> set K"
    using strchr_null_iff [OF Cons.prems(2)] by blast
  have x: "m (p + length as) = Some x" "x \<noteq> 0"
    using str_at_Cons [OF str_at_suffix [OF Cons.prems(1)]] by auto
  show ?case using Cons.IH [of "as @ [x]"] Cons.prems q x
    by (subst strspn_loop.simps) auto
qed

lemma strcspn_loop_str:
  assumes "str_at m p (as @ s)" and "str_at m k K" and "length (as @ s) < 2 ^ 32"
  shows "strcspn_loop m p k (length as) =
    Some (length as + length (takeWhile (\<lambda>x. x \<notin> set K) s))"
  using assms
proof (induction s arbitrary: as)
  case Nil
  then show ?case using str_at_end [of m p as] by (subst strcspn_loop.simps) simp
next
  case (Cons x s)
  obtain q where q: "strchr m k (scast x) = Some q" "q = NULL \<longleftrightarrow> x \<noteq> 0 \<and> x \<notin> set K"
    using strchr_null_iff [OF Cons.prems(2)] by blast
  have x: "m (p + length as) = Some x" "x \<noteq> 0"
    using str_at_Cons [OF str_at_suffix [OF Cons.prems(1)]] by auto
  show ?case using Cons.IH [of "as @ [x]"] Cons.prems q x
    by (subst strcspn_loop.simps) auto
qed

lemma strpbrk_str:
  assumes "str_at m p s" and "str_at m k K"
  shows "strpbrk m p k = Some (if set s \<inter> set K = {} then NULL
    else p + length (takeWhile (\<lambda>x. x \<notin> set K) s))"
  using assms(1)
proof (induction s arbitrary: p)
  case Nil
  then show ?case by (subst strpbrk.simps) (simp add: str_at_Nil)
next
  case (Cons x s)
  obtain q where q: "strchr m k (scast x) = Some q" "q = NULL \<longleftrightarrow> x \<noteq> 0 \<and> x \<notin> set K"
    using strchr_null_iff [OF assms(2)] by blast
  show ?case using Cons.IH [of "p + 1"] str_at_Cons [OF Cons.prems] q
    by (subst strpbrk.simps) auto
qed

text \<open>Where a string occurs in another one.\<close>

definition occurs_at :: "u8 list \<Rightarrow> u8 list \<Rightarrow> nat \<Rightarrow> bool" where
  "occurs_at h n i \<longleftrightarrow> i + length n \<le> length h \<and> take (length n) (drop i h) = n"

lemma strstr_loop_str:
  assumes "str_at m p h" and "str_at m q n" and "length h < 2 ^ 32 - 1" and "length n \<le> length h"
    and "i \<le> length h + 1"
  shows "strstr_loop m p q (length h) (length n) i =
    Some (if \<exists>j\<ge>i. occurs_at h n j then p + (LEAST j. i \<le> j \<and> occurs_at h n j) else NULL)"
  using assms(5)
proof (induction "length h + 1 - i" arbitrary: i rule: less_induct)
  case less
  show ?case
  proof (cases "i \<le> length h - length n")
    case False
    then have "\<not> (\<exists>j\<ge>i. occurs_at h n j)" by (auto simp: occurs_at_def)
    with False show ?thesis by (subst strstr_loop.simps) auto
  next
    case True
    then have r: "i + length n \<le> length h" using assms(4) by simp
    have "bytes_at m p h" using assms(1) by (simp add: str_at_def)
    then have "bytes_at m (p + i) (take (length n) (drop i h))"
      using r by (simp add: bytes_at_def add.assoc)
    moreover have "bytes_at m q n" using assms(2) by (simp add: str_at_def)
    ultimately have c: "memcmp m (p + i) q (length n) = Some (block_cmp (take (length n) (drop i h)) n)"
      using memcmp_loop_cmp [of m "p + i" "take (length n) (drop i h)" q n "length n"] r assms(1,2)
      by (simp add: memcmp_def str_at_def)
    have hit: "block_cmp (take (length n) (drop i h)) n = 0 \<longleftrightarrow> occurs_at h n i"
      using r by (simp add: block_cmp_0 occurs_at_def)
    show ?thesis
    proof (cases "occurs_at h n i")
      case here: True
      then have "(LEAST j. i \<le> j \<and> occurs_at h n j) = i" by (intro Least_equality) auto
      then show ?thesis using True c hit here by (subst strstr_loop.simps) auto
    next
      case False
      have w: "size_wrap (i + 1) = i + 1" using True assms(3) by simp
      have "i \<le> j \<and> occurs_at h n j \<longleftrightarrow> i + 1 \<le> j \<and> occurs_at h n j" for j
        using False by (metis Suc_eq_plus1 not_less_eq_eq le_antisym Suc_leD)
      then show ?thesis
        using less.hyps [of "i + 1"] True c hit False w by (subst strstr_loop.simps) auto
    qed
  qed
qed

lemma strstr_str:
  assumes "str_at m p h" and "str_at m q n" and "length h < 2 ^ 32 - 1" and "length n < 2 ^ 32"
  shows "strstr m p q =
    Some (if \<exists>j. occurs_at h n j then p + (LEAST j. occurs_at h n j) else NULL)"
proof (cases "length n \<le> length h")
  case True
  then show ?thesis
    using strlen_str [OF assms(1)] strlen_str [OF assms(2)] strstr_loop_str [OF assms(1-3) True, of 0] assms(3,4)
    by (auto simp: strstr_def)
next
  case False
  then have "\<not> (\<exists>j. occurs_at h n j)" by (auto simp: occurs_at_def)
  with False show ?thesis
    using strlen_str [OF assms(1)] strlen_str [OF assms(2)] assms(3,4) by (auto simp: strstr_def)
qed

section \<open>Tokens\<close>

text \<open>The maximal runs of bytes that are not delimiters.\<close>

function tokens :: "u8 set \<Rightarrow> u8 list \<Rightarrow> u8 list list" where
  "tokens D s =
     (case dropWhile (\<lambda>x. x \<in> D) s of
        [] \<Rightarrow> []
      | x # t \<Rightarrow> (x # takeWhile (\<lambda>x. x \<notin> D) t) # tokens D (drop 1 (dropWhile (\<lambda>x. x \<notin> D) t)))"
  by pat_completeness auto
termination
proof (relation "measure (\<lambda>(D, s). length s)", simp, clarsimp)
  fix D :: "u8 set" and s x t
  assume "dropWhile (\<lambda>x. x \<in> D) s = x # t"
  then have "length t < length s" using length_dropWhile_le [of "\<lambda>x. x \<in> D" s] by simp
  then show "length (dropWhile (\<lambda>x. x \<notin> D) t) - Suc 0 < length s"
    using length_dropWhile_le [of "\<lambda>x. x \<notin> D" t] by linarith
qed

declare tokens.simps [simp del]

lemma tokens_none: "dropWhile (\<lambda>x. x \<in> D) s = [] \<Longrightarrow> tokens D s = []"
  by (subst tokens.simps) (simp only: list.case)

lemma tokens_token:
  "dropWhile (\<lambda>x. x \<in> D) s = x # t \<Longrightarrow> tokens D s =
    (x # takeWhile (\<lambda>x. x \<notin> D) t) # tokens D (drop 1 (dropWhile (\<lambda>x. x \<notin> D) t))"
  by (subst tokens.simps) (simp only: list.case)

lemma tokens_nonempty: "w \<in> set (tokens D s) \<Longrightarrow> w \<noteq> [] \<and> set w \<inter> D = {}"
proof (induction D s rule: tokens.induct)
  case (1 D s)
  show ?case
  proof (cases "dropWhile (\<lambda>x. x \<in> D) s")
    case Nil
    then show ?thesis using 1(2) tokens_none [OF Nil] by simp
  next
    case (Cons x t)
    then have "x \<notin> D" by (simp add: dropWhile_eq_Cons_conv)
    then show ?thesis using 1(1) [OF Cons] 1(2) tokens_token [OF Cons] by (auto dest: set_takeWhileD)
  qed
qed

lemma concat_tokens: "concat (tokens D s) = filter (\<lambda>x. x \<notin> D) s"
proof (induction D s rule: tokens.induct)
  case (1 D s)
  have f: "filter (\<lambda>x. x \<notin> D) s = filter (\<lambda>x. x \<notin> D) (dropWhile (\<lambda>x. x \<in> D) s)"
    by (induction s) auto
  show ?case
  proof (cases "dropWhile (\<lambda>x. x \<in> D) s")
    case Nil
    then show ?thesis using f tokens_none [OF Nil] by simp
  next
    case (Cons x t)
    then have x: "x \<notin> D" by (simp add: dropWhile_eq_Cons_conv)
    have "filter (\<lambda>x. x \<notin> D) t =
        takeWhile (\<lambda>x. x \<notin> D) t @ filter (\<lambda>x. x \<notin> D) (drop 1 (dropWhile (\<lambda>x. x \<notin> D) t))"
      by (induction t) auto
    then show ?thesis using 1 [OF Cons] Cons f x tokens_token [OF Cons] by simp
  qed
qed

lemma strtok_skip_str:
  assumes "str_at m p s" and "str_at m d D"
  shows "strtok_skip m d p = Some (if set s \<subseteq> set D then Inl (p + length s)
      else Inr (p + length (takeWhile (\<lambda>x. x \<in> set D) s)))"
  using assms(1)
proof (induction s arbitrary: p)
  case Nil
  then show ?case using strchr_null_iff [OF assms(2), of 0]
    by (subst strtok_skip.simps) (auto simp: str_at_Nil)
next
  case (Cons x s)
  obtain q where q: "strchr m d (scast x) = Some q" "q = NULL \<longleftrightarrow> x \<noteq> 0 \<and> x \<notin> set D"
    using strchr_null_iff [OF assms(2)] by blast
  show ?case using Cons.IH [of "p + 1"] str_at_Cons [OF Cons.prems] q
    by (subst strtok_skip.simps) auto
qed

lemma strtok_scan_str:
  assumes "str_at m p s" and "str_at m d D"
  shows "strtok_scan m d p = Some (p + length (takeWhile (\<lambda>x. x \<notin> set D) s))"
  using assms(1)
proof (induction s arbitrary: p)
  case Nil
  then show ?case using strchr_null_iff [OF assms(2), of 0]
    by (subst strtok_scan.simps) (auto simp: str_at_Nil)
next
  case (Cons x s)
  obtain q where q: "strchr m d (scast x) = Some q" "q = NULL \<longleftrightarrow> x \<noteq> 0 \<and> x \<notin> set D"
    using strchr_null_iff [OF assms(2)] by blast
  show ?case using Cons.IH [of "p + 1"] str_at_Cons [OF Cons.prems] q
    by (subst strtok_scan.simps) auto
qed

text \<open>One call, from a position at which the rest of the string stands.\<close>

lemma strtok_r_none:
  assumes "str_at m p s" and "str_at m d D" and "(if s' = NULL then save else s') = p"
    and "dropWhile (\<lambda>x. x \<in> set D) s = []"
  shows "strtok_r m s' d save = Some (NULL, p + length s, m)"
proof -
  have "set s \<subseteq> set D" using assms(4) by auto
  then show ?thesis
    using strtok_skip_str [OF assms(1,2)] assms(1-3) by (simp add: strtok_r_def str_at_def Let_def)
qed

lemma strtok_r_token:
  assumes "str_at m p s" and "str_at m d D" and "(if s' = NULL then save else s') = p"
    and "dropWhile (\<lambda>x. x \<in> set D) s = x # t"
  defines "k \<equiv> p + length (takeWhile (\<lambda>x. x \<in> set D) s)"
  defines "w \<equiv> x # takeWhile (\<lambda>x. x \<notin> set D) t"
  shows "\<exists>save' m'. strtok_r m s' d save = Some (k, save', m') \<and> str_at m' k w \<and>
    str_at m' save' (drop 1 (dropWhile (\<lambda>x. x \<notin> set D) t)) \<and>
    (k + length w < save' \<or> save' = k + length w \<and> save' = p + length s) \<and>
    save' + length (drop 1 (dropWhile (\<lambda>x. x \<notin> set D) t)) = p + length s \<and>
    (\<forall>a. a \<noteq> k + length w \<or> p + length s \<le> a \<longrightarrow> m' a = m a) \<and> k + length w \<le> p + length s \<and> p \<le> k"
proof -
  let ?rest = "dropWhile (\<lambda>x. x \<notin> set D) t"
  have x: "x \<notin> set D" using assms(4) by (simp add: dropWhile_eq_Cons_conv)
  have s: "s = takeWhile (\<lambda>x. x \<in> set D) s @ x # t"
    using assms(4) by (metis takeWhile_dropWhile_id)
  have len: "p + length s = k + Suc (length t)" unfolding k_def using arg_cong [OF s, of length] by simp
  have st: "str_at m k (x # t)"
    unfolding k_def using str_at_suffix [of m p "takeWhile (\<lambda>x. x \<in> set D) s" "x # t"] s assms(1) by simp
  have wt: "x # t = w @ ?rest" by (simp add: w_def)
  have wl: "length w = length (takeWhile (\<lambda>y. y \<notin> set D) (x # t))" using x by (simp add: w_def)
  have tl: "length t = length (takeWhile (\<lambda>x. x \<notin> set D) t) + length ?rest"
    by (metis length_append takeWhile_dropWhile_id)
  have scan: "strtok_scan m d k = Some (k + length w)"
    using strtok_scan_str [OF st assms(2)] wl by simp
  have "\<not> set s \<subseteq> set D" using x arg_cong [OF s, of set] by auto
  then have skip: "strtok_skip m d p = Some (Inr k)"
    using strtok_skip_str [OF assms(1,2)] by (simp add: k_def)
  have w: "bytes_at m k w" "0 \<notin> set w" "k \<noteq> NULL" using st unfolding wt by (auto simp: str_at_def)
  have rest: "str_at m (k + length w) ?rest" using str_at_suffix st unfolding wt by blast
  have p: "p \<noteq> NULL" "d \<noteq> NULL" using assms(1,2) by (auto simp: str_at_def)
  show ?thesis
  proof (cases ?rest)
    case Nil
    then have e: "m (k + length w) = Some 0" using rest by (simp only: str_at_Nil)
    then have "strtok_r m s' d save = Some (k, k + length w, m)"
      using skip scan p assms(3) by (simp add: strtok_r_def Let_def)
    moreover have "k + length w = p + length s" using len tl Nil by (simp add: w_def)
    moreover have "str_at m k w" using w e by (simp add: str_at_def)
    moreover have "drop 1 ?rest = []" using Nil by (simp only: drop_Nil)
    moreover have "str_at m (k + length w) []" using rest Nil by simp
    ultimately show ?thesis by (auto simp: k_def)
  next
    case (Cons y r)
    then have y: "m (k + length w) = Some y" "y \<noteq> 0" "str_at m (k + length w + 1) r"
      using str_at_Cons [of m "k + length w" y r] rest by auto
    define m' where "m' = m(k + length w \<mapsto> 0)"
    have "strtok_r m s' d save = Some (k, k + length w + 1, m')"
      using skip scan y p assms(3) by (simp add: strtok_r_def Let_def m'_def)
    moreover have "str_at m' k w" using w by (simp add: str_at_def m'_def)
    moreover have "str_at m' (k + length w + 1) r" using y(3) by (simp add: str_at_def m'_def)
    moreover have "k + length w + 1 + length r = p + length s"
      using len tl Cons by (simp add: w_def)
    ultimately show ?thesis using Cons by (auto simp: m'_def k_def)
  qed
qed

end
