(* ===== verification/Kstring_Props.thy ===== *)
theory Kstring_Props
  imports Kstring_Spec
begin

text \<open>
  Tokenizing a whole string with \<^verbatim>\<open>strtok_r\<close>, the bounded copies, and the properties of
  \<^verbatim>\<open>lib/string.c\<close>.
\<close>

section \<open>The tokenizing loop\<close>

text \<open>
  The loop of the example in the comment of \<^verbatim>\<open>strtok_r\<close>, which is also how
  \<^verbatim>\<open>userprog/process.c\<close> splits a command line: the first call gets the string, the others a null
  pointer, until no token is left. The tokens are collected.
\<close>

partial_function (option) strtok_calls :: "bmem \<Rightarrow> ptr \<Rightarrow> ptr \<Rightarrow> ptr \<Rightarrow> (ptr list \<times> bmem) option" where
  "strtok_calls m s delimiters save =
     do {
       (token, save, m) \<leftarrow> strtok_r m s delimiters save;
       if token = NULL then Some ([], m)
       else do {
         (ts, m) \<leftarrow> strtok_calls m NULL delimiters save;
         Some (token # ts, m)
       }
     }"

lemma str_at_cong:
  assumes "str_at m p s" and "\<And>a. p \<le> a \<Longrightarrow> a \<le> p + length s \<Longrightarrow> m' a = m a"
  shows "str_at m' p s"
proof -
  have "m' (p + i) = m (p + i)" if "i < length (s @ [0])" for i
    using assms(2) [of "p + i"] that by simp
  then show ?thesis using assms(1) by (simp add: str_at_def bytes_at_def del: bytes_at_append)
qed

lemma strtok_calls_str:
  assumes "str_at m p s" and "str_at m d D" and "d + length D < p \<or> p + length s < d"
    and "(if s' = NULL then save else s') = p"
  shows "\<exists>ts m'. strtok_calls m s' d save = Some (ts, m') \<and>
    list_all2 (str_at m') ts (tokens (set D) s) \<and>
    (\<forall>a. a < p \<or> p + length s \<le> a \<longrightarrow> m' a = m a)"
  using assms
proof (induction "set D" s arbitrary: m p s' save rule: tokens.induct)
  case (1 s)
  note str = 1(2) and del = 1(3) and apart = 1(4) and pos = 1(5)
  show ?case
  proof (cases "dropWhile (\<lambda>x. x \<in> set D) s")
    case Nil
    then show ?thesis
      using strtok_r_none [OF str del pos Nil] tokens_none [OF Nil]
      by (subst strtok_calls.simps) simp
  next
    case (Cons x t)
    let ?w = "x # takeWhile (\<lambda>x. x \<notin> set D) t"
    let ?rest = "drop 1 (dropWhile (\<lambda>x. x \<notin> set D) t)"
    define k where "k = p + length (takeWhile (\<lambda>x. x \<in> set D) s)"
    obtain save1 m1 where m1: "strtok_r m s' d save = Some (k, save1, m1)" "str_at m1 k ?w"
        "str_at m1 save1 ?rest"
      and ord: "k + length ?w < save1 \<or> save1 = k + length ?w \<and> save1 = p + length s"
        "save1 + length ?rest = p + length s" "k + length ?w \<le> p + length s" "p \<le> k"
      and frame: "\<forall>a. a \<noteq> k + length ?w \<or> p + length s \<le> a \<longrightarrow> m1 a = m a"
      using strtok_r_token [OF str del pos Cons, folded k_def] by blast
    have "m1 a = m a" if "d \<le> a" "a \<le> d + length D" for a
    proof -
      have "a \<noteq> k + length ?w \<or> p + length s \<le> a" using that apart ord(4) by linarith
      then show ?thesis using frame by blast
    qed
    with del have "str_at m1 d D" by (rule str_at_cong)
    moreover have "d + length D < save1 \<or> save1 + length ?rest < d"
      using apart ord by linarith
    moreover have nn: "k \<noteq> NULL" "save1 \<noteq> NULL" using m1 by (auto simp: str_at_def)
    ultimately obtain ts m' where ih: "strtok_calls m1 NULL d save1 = Some (ts, m')"
        "list_all2 (str_at m') ts (tokens (set D) ?rest)"
        "\<forall>a. a < save1 \<or> save1 + length ?rest \<le> a \<longrightarrow> m' a = m1 a"
      using 1(1) [OF Cons m1(3), of NULL save1] by auto
    have "m' a = m1 a" if "k \<le> a" "a \<le> k + length ?w" for a
    proof -
      have "a < save1 \<or> save1 + length ?rest \<le> a" using that ord(1,2) by linarith
      then show ?thesis using ih(3) by blast
    qed
    with m1(2) have "str_at m' k ?w" by (rule str_at_cong)
    moreover have "m' a = m a" if "a < p \<or> p + length s \<le> a" for a
    proof -
      have "a \<noteq> k + length ?w \<or> p + length s \<le> a" using that ord(4) by linarith
      moreover have "a < save1 \<or> save1 + length ?rest \<le> a" using that ord by linarith
      ultimately show ?thesis using ih(3) frame by metis
    qed
    ultimately show ?thesis
      using m1(1) nn ih(1,2) tokens_token [OF Cons] by (subst strtok_calls.simps) auto
  qed
qed

section \<open>Bounded copies\<close>

lemma put_outside: "a < p \<or> p + length xs \<le> a \<Longrightarrow> put m p xs a = m a"
  by (auto simp: put_def)

lemma bytes_at_take: "bytes_at m p s \<Longrightarrow> bytes_at m p (take n s)"
  by (simp add: bytes_at_def)

lemma strlcpy_str:
  assumes "str_at m src s" and "length s < 2 ^ 32" and "mapped m dst sz" and "dst \<noteq> NULL" and "0 < sz"
    and "dst + sz \<le> src \<or> src + length s < dst"
  defines "c \<equiv> take (sz - 1) s"
  shows "strlcpy m dst src sz = Some (length s, put m dst (c @ [0]))"
proof -
  have l: "length c = (if length s < sz - Suc 0 then length s else sz - Suc 0)" by (simp add: c_def)
  have "bytes_at m src c" unfolding c_def using assms(1) by (intro bytes_at_take) (simp add: str_at_def)
  moreover have "mapped m dst (length c)" using assms(3) by (rule mapped_mono) (use l in auto)
  moreover have "dst + length c \<le> src \<or> src + length c \<le> dst" using assms(5,6) l by auto
  ultimately have cp: "memcpy m dst src (length c) = Some (dst, put m dst c)"
    using assms(1,4) by (intro memcpy_put) (auto simp: str_at_def)
  have "length c < sz" using assms(5) l by auto
  then have "m (dst + length c) \<noteq> None" using assms(3) unfolding mapped_def by blast
  then have "put m dst c (dst + length c) \<noteq> None" by (simp add: put_def)
  then have st: "st (put m dst c) (dst + length c) 0 = Some (put m dst (c @ [0]))"
    using put_then_upd [of m dst c 0] by simp
  have nn: "src \<noteq> NULL" using assms(1) by (simp add: str_at_def)
  show ?thesis
    using cp st strlen_str [OF assms(1,2)] nn assms(4,5) l
    by (cases "length s < sz - Suc 0") (simp_all add: strlcpy_def)
qed

lemma str_at_put: "dst \<noteq> NULL \<Longrightarrow> 0 \<notin> set c \<Longrightarrow> str_at (put m dst (c @ [0])) dst c"
  using bytes_at_put [of m dst "c @ [0]"] by (simp add: str_at_def)

lemma strlcat_str:
  assumes "str_at m src s" and "str_at m dst d" and "length s + length d < 2 ^ 32"
    and "mapped m dst sz" and "length d < sz"
    and "dst + sz \<le> src \<or> src + length s < dst"
  defines "c \<equiv> take (sz - length d - 1) s"
  shows "strlcat m dst src sz = Some (length s + length d, put m (dst + length d) (c @ [0]))"
proof -
  have l: "length c = (if length s < sz - Suc (length d) then length s else sz - Suc (length d))"
    by (simp add: c_def)
  have "bytes_at m src c" unfolding c_def using assms(1) by (intro bytes_at_take) (simp add: str_at_def)
  moreover have mp: "mapped m (dst + length d) (length c + 1)"
    using assms(4) by (rule mapped_offset) (use l assms(5) in auto)
  moreover have "dst + length d + length c \<le> src \<or> src + length c \<le> dst + length d"
    using assms(5,6) l by auto
  ultimately have cp: "memcpy m (dst + length d) src (length c) =
      Some (dst + length d, put m (dst + length d) c)"
    using assms(1,2) mapped_mono [OF mp, of "length c"] by (intro memcpy_put) (auto simp: str_at_def)
  have "m (dst + length d + length c) \<noteq> None" using mp by (simp add: mapped_def)
  then have "put m (dst + length d) c (dst + length d + length c) \<noteq> None" by (simp add: put_def)
  then have st: "st (put m (dst + length d) c) (dst + length d + length c) 0 =
      Some (put m (dst + length d) (c @ [0]))"
    using put_then_upd [of m "dst + length d" c 0] by simp
  have nn: "src \<noteq> NULL" "dst \<noteq> NULL" using assms(1,2) by (auto simp: str_at_def)
  have ln: "strlen m src = Some (length s)" "strlen m dst = Some (length d)"
    using strlen_str [OF assms(1)] strlen_str [OF assms(2)] assms(3) by auto
  show ?thesis
    using cp st ln nn assms(3,5) l
    by (cases "length s < sz - Suc (length d)") (simp_all add: strlcat_def add.assoc)
qed

section \<open>Properties\<close>

text \<open>The strings \<^verbatim>\<open>ab cb\<close> at 1000, a blank at 2000 and \<^verbatim>\<open>cb\<close> at 3000, and a buffer of 16 bytes at 4000.\<close>

definition demo_mem :: bmem where
  "demo_mem = put (put (put (put Map.empty 1000 [97, 98, 32, 99, 98, 0]) 2000 [32, 0]) 3000 [99, 98, 0])
     4000 (replicate 16 7)"

lemma demo_strings:
  "str_at demo_mem 1000 [97, 98, 32, 99, 98]" "str_at demo_mem 2000 [32]" "str_at demo_mem 3000 [99, 98]"
  "mapped demo_mem 4000 16" "mapped demo_mem 1002 3"
proof -
  show "str_at demo_mem 1000 [97, 98, 32, 99, 98]" "str_at demo_mem 2000 [32]" "str_at demo_mem 3000 [99, 98]"
    by (simp_all add: str_at_def demo_mem_def put_def)
  show "mapped demo_mem 4000 16" "mapped demo_mem 1002 3"
    by (auto simp: demo_mem_def mapped_def put_def)
qed

text \<open>
  C20: \<^verbatim>\<open>memmove\<close> copies the block as it was before the call, however source and destination
  overlap, and writes nothing else. The pointer it returns is the end of the destination when it
  copied forwards, and only otherwise its start.
\<close>

theorem memmove_correct:
  assumes "bytes_at m src xs" and "mapped m dst (length xs)" and "src \<noteq> NULL" and "dst \<noteq> NULL"
  shows "\<exists>m' r. memmove m dst src (length xs) = Some (r, m') \<and> bytes_at m' dst xs \<and>
    (\<forall>a. a < dst \<or> dst + length xs \<le> a \<longrightarrow> m' a = m a) \<and>
    r = (if dst < src then dst + length xs else dst)"
  using memmove_put [OF assms] put_outside [of _ dst xs m] by (intro exI conjI) auto

theorem memmove_correct_witness:
  "\<exists>m' r. memmove demo_mem 1002 1001 (length [98, 32, 99 :: u8]) = Some (r, m') \<and>
    bytes_at m' 1002 [98, 32, 99] \<and>
    (\<forall>a. a < 1002 \<or> 1002 + length [98, 32, 99 :: u8] \<le> a \<longrightarrow> m' a = demo_mem a) \<and>
    r = (if 1002 < (1001 :: nat) then 1002 + length [98, 32, 99 :: u8] else 1002)"
  by (rule memmove_correct) (use demo_strings in \<open>simp_all add: str_at_def eval_nat_numeral\<close>)

text \<open>
  C14: calling \<^verbatim>\<open>strtok_r\<close> until it returns a null pointer gives, in order, exactly the maximal
  runs of bytes that are not delimiters, each a non-empty null-terminated string in the final
  memory; the loop ends, and it writes only inside the string.
\<close>

theorem strtok_r_tokens:
  assumes "str_at m p s" and "str_at m d D" and "d + length D < p \<or> p + length s < d"
  shows "\<exists>ts m'. strtok_calls m p d save = Some (ts, m') \<and>
    list_all2 (str_at m') ts (tokens (set D) s) \<and>
    concat (tokens (set D) s) = filter (\<lambda>x. x \<notin> set D) s \<and>
    (\<forall>w\<in>set (tokens (set D) s). w \<noteq> [] \<and> set w \<inter> set D = {}) \<and>
    (\<forall>a. a < p \<or> p + length s \<le> a \<longrightarrow> m' a = m a)"
proof -
  have "(if p = NULL then save else p) = p" using assms(1) by (simp add: str_at_def)
  from strtok_calls_str [OF assms this] show ?thesis
    using concat_tokens tokens_nonempty by blast
qed

theorem strtok_r_tokens_witness:
  "\<exists>ts m'. strtok_calls demo_mem 1000 2000 0 = Some (ts, m') \<and>
    list_all2 (str_at m') ts (tokens (set [32]) [97, 98, 32, 99, 98]) \<and>
    concat (tokens (set [32]) [97, 98, 32, 99, 98]) = filter (\<lambda>x. x \<notin> set [32]) [97, 98, 32, 99, 98] \<and>
    (\<forall>w\<in>set (tokens (set [32]) [97, 98, 32, 99, 98]). w \<noteq> [] \<and> set w \<inter> set [32] = {}) \<and>
    (\<forall>a. a < 1000 \<or> 1000 + length [97, 98, 32, 99, 98 :: u8] \<le> a \<longrightarrow> m' a = demo_mem a)"
  by (rule strtok_r_tokens [OF demo_strings(1,2)]) simp

text \<open>
  C21: \<^verbatim>\<open>strlcpy\<close> leaves in the destination the longest prefix of the source that fits with its
  null terminator, writes nothing beyond it, and returns the length of the source.
\<close>

theorem strlcpy_correct:
  assumes "str_at m src s" and "length s < 2 ^ 32" and "mapped m dst sz" and "dst \<noteq> NULL" and "0 < sz"
    and "dst + sz \<le> src \<or> src + length s < dst"
  shows "\<exists>m'. strlcpy m dst src sz = Some (length s, m') \<and> str_at m' dst (take (sz - 1) s) \<and>
    (\<forall>a. a < dst \<or> dst + sz \<le> a \<longrightarrow> m' a = m a)"
proof -
  have "0 \<notin> set (take (sz - 1) s)" using assms(1) by (auto simp: str_at_def dest: in_set_takeD)
  from str_at_put [OF assms(4) this, of m] show ?thesis
    using strlcpy_str [OF assms] assms(5) put_outside [of _ dst "take (sz - 1) s @ [0]" m] by fastforce
qed

theorem strlcpy_correct_witness:
  "\<exists>m'. strlcpy demo_mem 4000 1000 4 = Some (length [97, 98, 32, 99, 98 :: u8], m') \<and>
    str_at m' 4000 (take (4 - 1) [97, 98, 32, 99, 98]) \<and>
    (\<forall>a. a < 4000 \<or> 4000 + 4 \<le> a \<longrightarrow> m' a = demo_mem a)"
  by (rule strlcpy_correct [OF demo_strings(1)])
    (use mapped_mono [OF demo_strings(4), of 4] in simp_all)

text \<open>
  C22: \<^verbatim>\<open>strstr\<close> finds the first occurrence of the needle, the empty needle included, and returns
  a null pointer exactly when there is none.
\<close>

theorem strstr_correct:
  assumes "str_at m p h" and "str_at m q n" and "length h < 2 ^ 32 - 1" and "length n < 2 ^ 32"
  shows "\<exists>r. strstr m p q = Some r \<and>
    (if r = NULL then (\<forall>i. \<not> occurs_at h n i)
     else p \<le> r \<and> occurs_at h n (r - p) \<and> (\<forall>i. occurs_at h n i \<longrightarrow> r - p \<le> i))"
  using strstr_str [OF assms] assms(1)
  by (auto simp: str_at_def intro: LeastI Least_le)

theorem strstr_correct_witness:
  "\<exists>r. strstr demo_mem 1000 3000 = Some r \<and>
    (if r = NULL then (\<forall>i. \<not> occurs_at [97, 98, 32, 99, 98] [99, 98] i)
     else 1000 \<le> r \<and> occurs_at [97, 98, 32, 99, 98] [99, 98] (r - 1000) \<and>
       (\<forall>i. occurs_at [97, 98, 32, 99, 98] [99, 98] i \<longrightarrow> r - 1000 \<le> i))"
  by (rule strstr_correct [OF demo_strings(1,3)]) simp_all

end
