(* ===== verification/Karith.thy ===== *)
theory Karith
  imports Pintos_Prelude "HOL-Library.Signed_Division"
begin

text \<open>
  \<^verbatim>\<open>lib/arithmetic.c\<close>: division of 64-bit integers from the 32-bit \<^verbatim>\<open>divl\<close> instruction.
  A trap of the instruction is \<^term>\<open>None\<close>. The results are compared with the
  division of the word type and, for the signed routines, with division that truncates towards
  zero.
\<close>

section \<open>Model\<close>

definition divl :: "u64 \<Rightarrow> u32 \<Rightarrow> u32 option" where
  "divl n d =
     (let n1 = ucast (drop_bit 32 n) :: u32; n0 = ucast n :: u32;
          nn = unat n1 * 2 ^ 32 + unat n0
      in if d = 0 \<or> nn div unat d \<ge> 2 ^ 32 then None
         else Some (of_nat (nn div unat d)))"

definition nlz :: "u32 \<Rightarrow> nat" where
  "nlz x =
     (let n = 0;
          (n, x) = (if x \<le> 0x0000FFFF then (n + 16, push_bit 16 x) else (n, x));
          (n, x) = (if x \<le> 0x00FFFFFF then (n + 8, push_bit 8 x) else (n, x));
          (n, x) = (if x \<le> 0x0FFFFFFF then (n + 4, push_bit 4 x) else (n, x));
          (n, x) = (if x \<le> 0x3FFFFFFF then (n + 2, push_bit 2 x) else (n, x))
      in if x \<le> 0x7FFFFFFF then n + 1 else n)"

text \<open>In the first branch the remainder and the quotient by \<^verbatim>\<open>d0\<close> trap when \<^verbatim>\<open>d0\<close> is zero.\<close>

definition udiv64 :: "u64 \<Rightarrow> u64 \<Rightarrow> u64 option" where
  "udiv64 n d =
     (if drop_bit 32 d = 0
      then let b = push_bit 32 1 :: u64; n1 = ucast (drop_bit 32 n) :: u32; n0 = ucast n :: u32;
               d0 = ucast d :: u32
           in if d0 = 0 then None
              else do {
                q \<leftarrow> divl (b * ucast (n1 mod d0) + ucast n0) d0;
                Some (ucast q + b * ucast (n1 div d0))
              }
      else if n < d then Some 0
      else let d1 = ucast (drop_bit 32 d) :: u32; s = nlz d1
           in do {
             q0 \<leftarrow> divl (drop_bit 1 n) (ucast (drop_bit 32 (push_bit s d)));
             let q = (ucast (drop_bit (31 - s) q0) :: u64);
             Some (if n - (q - 1) * d < d then q - 1 else q)
           })"

definition umod64 :: "u64 \<Rightarrow> u64 \<Rightarrow> u32 option" where
  "umod64 n d = do { q \<leftarrow> udiv64 n d; Some (ucast (n - d * q)) }"

definition sdiv64 :: "u64 \<Rightarrow> u64 \<Rightarrow> u64 option" where
  "sdiv64 n d =
     do {
       let n_abs = (if sint n \<ge> 0 then n else - n);
       let d_abs = (if sint d \<ge> 0 then d else - d);
       q_abs \<leftarrow> udiv64 n_abs d_abs;
       Some (if (sint n < 0) = (sint d < 0) then q_abs else - q_abs)
     }"

definition smod64 :: "u64 \<Rightarrow> u64 \<Rightarrow> u32 option" where
  "smod64 n d = do { q \<leftarrow> sdiv64 n d; Some (ucast (n - d * q)) }"

definition divdi3 :: "u64 \<Rightarrow> u64 \<Rightarrow> u64 option" where
  "divdi3 n d = sdiv64 n d"

definition moddi3 :: "u64 \<Rightarrow> u64 \<Rightarrow> u64 option" where
  "moddi3 n d = do { r \<leftarrow> smod64 n d; Some (scast r) }"

definition udivdi3 :: "u64 \<Rightarrow> u64 \<Rightarrow> u64 option" where
  "udivdi3 n d = udiv64 n d"

definition umoddi3 :: "u64 \<Rightarrow> u64 \<Rightarrow> u64 option" where
  "umoddi3 n d = do { r \<leftarrow> umod64 n d; Some (ucast r) }"

section \<open>The instruction and the bit count\<close>

lemma unat_push_bit:
  fixes x :: "'a::len word"
  assumes "unat x * 2 ^ k < 2 ^ LENGTH('a)"
  shows "unat (push_bit k x) = unat x * 2 ^ k"
  using assms by (simp only: unsigned_push_bit_eq) (simp add: push_bit_eq_mult take_bit_eq_mod)

lemma unat_drop_bit: "unat (drop_bit k x) = unat x div 2 ^ k" for x :: "'a::len word"
  by (simp only: unat_drop_bit_eq) (simp add: drop_bit_eq_div)

lemma unat_of_nat_small: "m < 2 ^ LENGTH('a) \<Longrightarrow> unat (of_nat m :: 'a::len word) = m"
  by (simp add: unat_of_nat)

lemma divl_unat: "divl n d = (if d = 0 \<or> unat n div unat d \<ge> 2 ^ 32 then None
    else Some (of_nat (unat n div unat d)))"
proof -
  have "unat (ucast (drop_bit 32 n) :: u32) = unat n div 2 ^ 32"
    using unsigned_less [of n, where ?'a = nat]
    by (simp only: unsigned_ucast_eq unat_drop_bit) (simp add: take_bit_eq_mod less_mult_imp_div_less)
  moreover have "unat (ucast n :: u32) = unat n mod 2 ^ 32"
    by (simp add: unsigned_ucast_eq take_bit_eq_mod)
  ultimately have "unat (ucast (drop_bit 32 n) :: u32) * 2 ^ 32 + unat (ucast n :: u32) = unat n"
    by (metis div_mult_mod_eq)
  then show ?thesis unfolding divl_def Let_def by presburger
qed

text \<open>
  One stage of the count: a number below the limit is shifted without loss. The pair of the count and
  the shifted number keeps the product, and the number grows past the limit.
\<close>

definition nlz_stage :: "nat \<Rightarrow> nat \<times> u32 \<Rightarrow> nat \<times> u32" where
  "nlz_stage k = (\<lambda>(n, x). if x \<le> 2 ^ (32 - k) - 1 then (n + k, push_bit k x) else (n, x))"

definition nlz_counted :: "nat \<Rightarrow> nat \<Rightarrow> nat \<times> u32 \<Rightarrow> bool" where
  "nlz_counted y m = (\<lambda>(n, x). unat x = y * 2 ^ n \<and> 2 ^ m \<le> unat x)"

lemma nlz_stage_eqs:
  "nlz_stage 16 (n, x) = (if x \<le> 0x0000FFFF then (n + 16, push_bit 16 x) else (n, x))"
  "nlz_stage 8 (n, x) = (if x \<le> 0x00FFFFFF then (n + 8, push_bit 8 x) else (n, x))"
  "nlz_stage 4 (n, x) = (if x \<le> 0x0FFFFFFF then (n + 4, push_bit 4 x) else (n, x))"
  "nlz_stage 2 (n, x) = (if x \<le> 0x3FFFFFFF then (n + 2, push_bit 2 x) else (n, x))"
  "fst (nlz_stage 1 (n, x)) = (if x \<le> 0x7FFFFFFF then n + 1 else n)"
  by (simp_all add: nlz_stage_def)

lemma nlz_stages:
  "nlz x = fst (nlz_stage 1 (nlz_stage 2 (nlz_stage 4 (nlz_stage 8 (nlz_stage 16 (0, x))))))"
  unfolding nlz_def Let_def nlz_stage_eqs(1-4) [symmetric] nlz_stage_eqs(5) [symmetric]
  by (simp only: case_prod_unfold prod.collapse)

lemma unat_limit: "0 < k \<Longrightarrow> k \<le> 32 \<Longrightarrow> x \<le> (2 :: u32) ^ (32 - k) - 1 \<longleftrightarrow> unat x < 2 ^ (32 - k)"
proof -
  assume k: "0 < k" "k \<le> 32"
  have "(2 :: u32) ^ (32 - k) - 1 = of_nat (2 ^ (32 - k) - 1)" by (simp add: of_nat_diff)
  moreover have "(2 :: nat) ^ (32 - k) < 2 ^ 32" using k by (intro power_strict_increasing) auto
  then have "(2 :: nat) ^ (32 - k) - 1 < 2 ^ LENGTH(32)" by simp
  ultimately have "unat ((2 :: u32) ^ (32 - k) - 1) = 2 ^ (32 - k) - 1"
    by (simp only: unat_of_nat_small)
  then show ?thesis by (simp add: word_le_nat_alt Suc_le_eq le_diff_iff' flip: less_Suc_eq_le)
qed

lemma nlz_stage_counted:
  assumes "nlz_counted y m r" and "0 < k" and "k \<le> 32" and "32 - k \<le> m + k"
  shows "nlz_counted y (32 - k) (nlz_stage k r)"
proof -
  obtain n x where r: "r = (n, x)" by fastforce
  with assms(1) have c: "unat x = y * 2 ^ n" "2 ^ m \<le> unat x" by (auto simp: nlz_counted_def)
  show ?thesis
  proof (cases "unat x < 2 ^ (32 - k)")
    case True
    have "unat x * 2 ^ k < 2 ^ (32 - k) * 2 ^ k" using True by simp
    also have "\<dots> = 2 ^ 32" using assms(3) by (simp flip: power_add)
    finally have u: "unat (push_bit k x) = unat x * 2 ^ k" by (intro unat_push_bit) simp
    have "(2 :: nat) ^ (32 - k) \<le> 2 ^ (m + k)" using assms(4) by (intro power_increasing) auto
    also have "\<dots> \<le> unat x * 2 ^ k" using c(2) by (simp add: power_add)
    finally have "2 ^ (32 - k) \<le> unat (push_bit k x)" using u by simp
    then show ?thesis
      using True u c(1) unat_limit [OF assms(2,3), of x]
      by (simp add: r nlz_stage_def nlz_counted_def power_add)
  next
    case False
    then show ?thesis
      using c unat_limit [OF assms(2,3), of x] by (simp add: r nlz_stage_def nlz_counted_def)
  qed
qed

lemma nlz_bounds:
  assumes "x \<noteq> 0"
  shows "2 ^ 31 \<le> unat x * 2 ^ nlz x" and "unat x * 2 ^ nlz x < 2 ^ 32" and "nlz x \<le> 31"
proof -
  have pos: "1 \<le> unat x" using assms by (simp add: unat_gt_0 Suc_le_eq)
  define r where "r = nlz_stage 1 (nlz_stage 2 (nlz_stage 4 (nlz_stage 8 (nlz_stage 16 (0, x)))))"
  have "nlz_counted (unat x) 0 (0, x)" using pos by (simp add: nlz_counted_def)
  note s1 = nlz_stage_counted [OF this, of 16, simplified]
  note s2 = nlz_stage_counted [OF s1, of 8, simplified]
  note s3 = nlz_stage_counted [OF s2, of 4, simplified]
  note s4 = nlz_stage_counted [OF s3, of 2, simplified]
  have "nlz_counted (unat x) 31 r" unfolding r_def using nlz_stage_counted [OF s4, of 1] by simp
  then have c: "unat (snd r) = unat x * 2 ^ nlz x" "2 ^ 31 \<le> unat (snd r)"
    by (auto simp: nlz_counted_def nlz_stages r_def split: prod.splits)
  show up: "unat x * 2 ^ nlz x < 2 ^ 32" using c(1) unsigned_less [of "snd r", where ?'a = nat] by simp
  show "2 ^ 31 \<le> unat x * 2 ^ nlz x" using c by simp
  have "2 ^ nlz x \<le> unat x * 2 ^ nlz x" using pos by simp
  with up have "2 ^ nlz x < (2 :: nat) ^ 32" by linarith
  then have "nlz x < 32" by (simp only: power_strict_increasing_iff)
  then show "nlz x \<le> 31" by simp
qed

section \<open>Division by a large divisor\<close>

lemma estimate_slack:
  fixes a r s :: nat
  assumes "s \<le> 31" and "a < 2 ^ (s + 1) - 1" and "r < 2 ^ (32 - s)"
  shows "a * r \<le> 2 ^ (63 - s)"
proof (cases "s = 31")
  case True
  then have "r \<le> 1" "a \<le> 2 ^ 32" using assms(2,3) by auto
  then show ?thesis using True mult_le_mono [of a "2 ^ 32" r 1] by simp
next
  case False
  have "a * r \<le> 2 ^ (s + 1) * 2 ^ (32 - s)" using assms(2,3) by (intro mult_le_mono) auto
  also have "\<dots> = 2 ^ 33" using assms(1) by (simp flip: power_add)
  also have "\<dots> \<le> (2::nat) ^ (63 - s)" using False assms(1) by (intro power_increasing) auto
  finally show ?thesis .
qed

text \<open>The estimate of the quotient is right or one too big.\<close>

lemma quotient_estimate:
  fixes n d s v :: nat
  assumes n: "n < 2 ^ 64" and d: "2 ^ 63 \<le> d * 2 ^ s" "d * 2 ^ s < 2 ^ 64" and s: "s \<le> 31"
  defines "v \<equiv> d * 2 ^ s div 2 ^ 32"
  defines "q \<equiv> n div 2 div v div 2 ^ (31 - s)"
  shows "n div d \<le> q" and "q \<le> n div d + 1"
proof -
  define k where "k = 32 - s"
  have k: "(2::nat) ^ 32 = 2 ^ k * 2 ^ s" unfolding k_def using s by (simp flip: power_add)
  have vk: "v = d div 2 ^ k" unfolding v_def k by simp
  define V where "V = v * 2 ^ k"
  have V: "V + d mod 2 ^ k = d" unfolding V_def vk by (rule div_mult_mod_eq)
  have q: "q = n div V"
  proof -
    have "32 - s = Suc (31 - s)" using s by simp
    then have "2 * (v * 2 ^ (31 - s)) = V" unfolding V_def k_def by simp
    then show ?thesis unfolding q_def by (metis div_mult2_eq)
  qed
  have d63: "2 ^ (63 - s) \<le> d"
  proof -
    have "(2::nat) ^ (63 - s) * 2 ^ s = 2 ^ 63" using s by (simp flip: power_add)
    then show ?thesis using d(1) by (metis mult_le_cancel2 zero_less_numeral zero_less_power)
  qed
  have e: "(2::nat) ^ (63 - s) = 2 ^ 31 * 2 ^ k" unfolding k_def power_add [symmetric] using s by simp
  then have v31: "2 ^ 31 \<le> v"
    unfolding vk using d63 unfolding e by (simp add: less_eq_div_iff_mult_less_eq)
  then have V63: "2 ^ (63 - s) \<le> V" unfolding V_def e by simp
  then have Vpos: "0 < V" by (metis less_le_trans zero_less_numeral zero_less_power)
  have Vd: "V \<le> d" using V by linarith
  show "n div d \<le> q" unfolding q using Vd Vpos by (simp add: div_le_mono2)
  show "q \<le> n div d + 1"
  proof (cases "q = 0")
    case False
    have qV: "q * V \<le> n" unfolding q by simp
    have "q < 2 ^ (s + 1)"
    proof -
      have "q * 2 ^ (63 - s) \<le> q * V" using V63 by simp
      also have "\<dots> < 2 ^ 64" using qV n by linarith
      also have "(2::nat) ^ 64 = 2 ^ (s + 1) * 2 ^ (63 - s)" using s by (simp flip: power_add)
      finally show ?thesis by (simp only: mult_less_cancel2)
    qed
    then have "q - 1 < 2 ^ (s + 1) - 1" using False by (simp add: less_diff_conv2)
    moreover have "d - V < 2 ^ (32 - s)" using V unfolding k_def by (metis add_diff_cancel_left' mod_less_divisor zero_less_numeral zero_less_power)
    ultimately have "(q - 1) * (d - V) \<le> V"
      using estimate_slack [OF s] V63 by (meson order_trans)
    then have "(q - 1) * d \<le> (q - 1) * V + V"
      using Vd by (metis add_left_mono distrib_left le_add_diff_inverse)
    also have "\<dots> = q * V" using False by (simp add: mult_eq_if)
    finally have "(q - 1) * d \<le> n" using qV by linarith
    then have "q - 1 \<le> n div d" using Vpos Vd by (simp add: less_eq_div_iff_mult_less_eq)
    then show ?thesis by simp
  qed simp
qed

section \<open>The routines\<close>

lemma unat_halves:
  fixes n :: u64
  shows "unat (ucast (drop_bit 32 n) :: u32) = unat n div 2 ^ 32"
    and "unat (ucast n :: u32) = unat n mod 2 ^ 32"
proof -
  show "unat (ucast (drop_bit 32 n) :: u32) = unat n div 2 ^ 32"
    using unsigned_less [of n, where ?'a = nat]
    by (simp only: unsigned_ucast_eq unat_drop_bit) (simp add: take_bit_eq_mod less_mult_imp_div_less)
  show "unat (ucast n :: u32) = unat n mod 2 ^ 32"
    by (simp add: unsigned_ucast_eq take_bit_eq_mod)
qed

lemma unat_ucast_up: "unat (ucast (x :: u32) :: u64) = unat x"
  by (simp add: unsigned_ucast_eq take_bit_nat_eq_self unsigned_less [THEN less_trans])

text \<open>The identity on which the branch for a divisor of 32 bits rests.\<close>

lemma long_division:
  fixes n d b :: nat
  assumes "0 < d"
  shows "(b * (n div b mod d) + n mod b) div d + b * (n div b div d) = n div d"
proof -
  have "n = b * (n div b mod d) + n mod b + d * (b * (n div b div d))"
    by (metis (no_types, lifting) add.assoc add.commute distrib_left mult.left_commute mult_div_mod_eq)
  then have "n div d = (b * (n div b mod d) + n mod b) div d + b * (n div b div d)"
    using assms by (metis add.commute div_mult_self2 less_numeral_extra(3))
  then show ?thesis by simp
qed

lemma long_division_fits:
  fixes n d b :: nat
  assumes "0 < d" and "0 < b"
  shows "(b * (n div b mod d) + n mod b) div d < b"
proof -
  have "n div b mod d + 1 \<le> d" using assms(1) by (simp add: Suc_leI)
  then have "b * (n div b mod d) + b \<le> b * d" by (metis mult_le_mono2 distrib_left mult_1_right)
  moreover have "n mod b < b" using assms(2) by simp
  ultimately show ?thesis using assms(1) by (simp add: div_less_iff_less_mult)
qed

lemma udiv64_small:
  assumes "d \<noteq> 0" and "drop_bit 32 d = 0"
  shows "udiv64 n d = Some (n div d)"
proof -
  let ?d0 = "ucast d :: u32" and ?n1 = "ucast (drop_bit 32 n) :: u32" and ?n0 = "ucast n :: u32"
  let ?x = "2 ^ 32 * (unat n div 2 ^ 32 mod unat d) + unat n mod 2 ^ 32"
  have "unat d div 2 ^ 32 = 0" using arg_cong [OF assms(2), of unat] by (simp only: unat_drop_bit unat_0)
  then have dlt: "unat d < 2 ^ 32" by (simp add: div_eq_0_iff)
  then have d0: "unat ?d0 = unat d" by (simp only: unat_halves) simp
  have dpos: "0 < unat d" using assms(1) by (simp add: unat_gt_0)
  have fits: "?x div unat d < 2 ^ 32" using long_division_fits [OF dpos, of "2 ^ 32" "unat n"] by simp
  have lt: "unat n div 2 ^ 32 mod unat d < 2 ^ 32" "unat n mod 2 ^ 32 < 2 ^ 32"
    using dlt dpos by (auto intro: less_trans [of _ "unat d"])
  have b: "unat (push_bit 32 1 :: u64) = 2 ^ 32" by simp
  have m: "unat (push_bit 32 1 * ucast (?n1 mod ?d0) :: u64) = 2 ^ 32 * (unat n div 2 ^ 32 mod unat d)"
    using lt(1) unfolding unat_word_ariths b unat_ucast_up unat_mod_distrib unat_halves(1) d0 by simp
  have x: "unat (push_bit 32 1 * ucast (?n1 mod ?d0) + ucast ?n0 :: u64) = ?x"
    using lt unfolding unat_word_ariths(1) m unat_ucast_up unat_halves(2) by simp
  have nz: "?d0 \<noteq> 0" using dpos d0 by (metis less_irrefl unat_0)
  have "divl (push_bit 32 1 * ucast (?n1 mod ?d0) + ucast ?n0) ?d0 = Some (of_nat (?x div unat d))"
    using fits nz unfolding divl_unat x d0 by simp
  moreover have "ucast (of_nat (?x div unat d) :: u32) + push_bit 32 1 * ucast (?n1 div ?d0) = n div d"
  proof (rule word_unat_eq_iff [THEN iffD2])
    have q: "unat (ucast (of_nat (?x div unat d) :: u32) :: u64) = ?x div unat d"
      using fits unfolding unat_ucast_up by (intro unat_of_nat_small) simp
    have sum: "?x div unat d + 2 ^ 32 * (unat n div 2 ^ 32 div unat d) = unat (n div d)"
      using long_division [OF dpos, of "2 ^ 32" "unat n"] by (simp only: unat_div_distrib)
    then have "2 ^ 32 * (unat n div 2 ^ 32 div unat d) \<le> unat (n div d)" by linarith
    then have fit: "2 ^ 32 * (unat n div 2 ^ 32 div unat d) < 2 ^ LENGTH(64)"
      using unsigned_less [of "n div d", where ?'a = nat] by linarith
    have p: "unat (push_bit 32 1 * ucast (?n1 div ?d0) :: u64) = 2 ^ 32 * (unat n div 2 ^ 32 div unat d)"
      using fit unfolding unat_word_ariths(2) b unat_ucast_up unat_div_distrib unat_halves(1) d0
      by (simp only: mod_less)
    show "unat (ucast (of_nat (?x div unat d) :: u32) + push_bit 32 1 * ucast (?n1 div ?d0) :: u64) = unat (n div d)"
      using unsigned_less [of "n div d", where ?'a = nat]
      unfolding unat_word_ariths(1) q p sum by (simp only: mod_less)
  qed
  ultimately show ?thesis using assms(2) nz unfolding udiv64_def Let_def by simp
qed

lemma shifted_room:
  fixes a s :: nat
  assumes "a * 2 ^ s < 2 ^ 32" and "s \<le> 31"
  shows "a * 2 ^ s + 2 ^ s \<le> 2 ^ 32"
proof -
  have e: "(2::nat) ^ 32 = 2 ^ (32 - s) * 2 ^ s" unfolding power_add [symmetric] using assms(2) by simp
  then have "a < 2 ^ (32 - s)" using assms(1) by (simp only: mult_less_cancel2)
  then have "(a + 1) * 2 ^ s \<le> 2 ^ (32 - s) * 2 ^ s" by (intro mult_le_mono1) simp
  then show ?thesis unfolding e by (simp add: algebra_simps)
qed

lemma corrected_quotient:
  fixes n d q :: u64
  assumes "unat n div unat d \<le> unat q" and "unat q \<le> unat n div unat d + 1" and "d \<le> n" and "d \<noteq> 0"
  shows "(if n - (q - 1) * d < d then q - 1 else q) = n div d"
proof -
  let ?Q = "unat n div unat d"
  have dpos: "0 < unat d" using assms(4) by (simp add: unat_gt_0)
  then have "1 \<le> ?Q" using assms(3) by (simp add: word_le_nat_alt less_eq_div_iff_mult_less_eq)
  then have "q \<noteq> 0" using assms(1) by auto
  then have q1: "unat (q - 1) = unat q - 1" by (simp add: unat_minus_one)
  have "(unat q - 1) * unat d \<le> ?Q * unat d" using assms(2) by (intro mult_le_mono1) simp
  also have "\<dots> \<le> unat n" by simp
  finally have le: "(unat q - 1) * unat d \<le> unat n" .
  then have p: "unat ((q - 1) * d) = (unat q - 1) * unat d"
    using unsigned_less [of n, where ?'a = nat] by (simp add: unat_word_ariths q1)
  have sub: "unat (n - (q - 1) * d) = unat n - (unat q - 1) * unat d"
    using le p by (subst unat_sub) (auto simp: word_le_nat_alt)
  show ?thesis
  proof (cases "unat q = ?Q")
    case True
    obtain k where k: "?Q = Suc k" using \<open>1 \<le> ?Q\<close> by (cases ?Q) auto
    have "k * unat d + unat d + unat n mod unat d = unat n"
      using div_mult_mod_eq [of "unat n" "unat d"] unfolding k by simp
    then have "unat n - (unat q - 1) * unat d = unat n mod unat d + unat d"
      unfolding True k by simp
    then show ?thesis
      using True sub by (simp add: word_less_nat_alt word_unat_eq_iff unat_div_distrib)
  next
    case False
    then have "unat q = ?Q + 1" using assms(1,2) by simp
    then have "unat n - (unat q - 1) * unat d = unat n mod unat d"
      by (simp add: minus_div_mult_eq_mod)
    then show ?thesis
      using \<open>unat q = ?Q + 1\<close> sub q1 dpos by (simp add: word_less_nat_alt word_unat_eq_iff unat_div_distrib)
  qed
qed

lemma udiv64_large:
  assumes "drop_bit 32 d \<noteq> 0"
  shows "udiv64 n d = Some (n div d)"
proof (cases "n < d")
  case True
  then have "n div d = 0" by (simp add: word_less_nat_alt word_unat_eq_iff unat_div_distrib)
  then show ?thesis using True assms by (simp add: udiv64_def)
next
  case False
  define d1 where "d1 = (ucast (drop_bit 32 d) :: u32)"
  define s where "s = nlz d1"
  have d1: "unat d1 = unat d div 2 ^ 32" unfolding d1_def by (rule unat_halves(1))
  have "unat (drop_bit 32 d) \<noteq> 0" using assms by (metis unat_eq_zero)
  then have "d1 \<noteq> 0" using d1 unfolding unat_drop_bit by (metis unat_0)
  note nb = nlz_bounds [OF this, folded s_def, unfolded d1]
  have split: "unat d = unat d div 2 ^ 32 * 2 ^ 32 + unat d mod 2 ^ 32" by (rule div_mult_mod_eq [symmetric])
  have lo: "2 ^ 63 \<le> unat d * 2 ^ s"
  proof -
    have "2 ^ 31 * 2 ^ 32 \<le> unat d div 2 ^ 32 * 2 ^ s * 2 ^ 32" using nb(1) by (rule mult_le_mono1)
    also have "\<dots> = unat d div 2 ^ 32 * 2 ^ 32 * 2 ^ s" by (simp only: mult.assoc mult.commute [of "2 ^ s"])
    also have "\<dots> \<le> unat d * 2 ^ s" by (intro mult_le_mono1) simp
    finally show ?thesis by simp
  qed
  have hi: "unat d * 2 ^ s < 2 ^ 64"
  proof -
    have "unat d < (unat d div 2 ^ 32 + 1) * 2 ^ 32" using split by (simp add: distrib_right)
    then have "unat d * 2 ^ s < (unat d div 2 ^ 32 + 1) * 2 ^ 32 * 2 ^ s" by simp
    also have "\<dots> = (unat d div 2 ^ 32 * 2 ^ s + 2 ^ s) * 2 ^ 32" by (simp add: algebra_simps)
    also have "\<dots> \<le> 2 ^ 32 * 2 ^ 32"
      using shifted_room [OF nb(2,3)] by (intro mult_le_mono1) simp
    finally show ?thesis by simp
  qed
  have sh: "unat (push_bit s d) = unat d * 2 ^ s" using hi by (intro unat_push_bit) simp
  define v where "v = unat d * 2 ^ s div 2 ^ 32"
  have v: "unat (ucast (drop_bit 32 (push_bit s d)) :: u32) = v" unfolding unat_halves(1) sh v_def ..
  have v31: "2 ^ 31 \<le> v" unfolding v_def using lo by (simp add: less_eq_div_iff_mult_less_eq)
  define q1 where "q1 = unat n div 2 div v"
  have h: "unat (drop_bit 1 n) = unat n div 2" unfolding unat_drop_bit by simp
  have n64: "unat n < 2 ^ 64" using unsigned_less [of n, where ?'a = nat] by simp
  have "q1 < 2 ^ 32"
  proof -
    have "unat n div 2 < 2 ^ 32 * 2 ^ 31" using n64 by simp
    also have "\<dots> \<le> 2 ^ 32 * v" using v31 by (rule mult_le_mono2)
    finally show ?thesis unfolding q1_def using v31 by (simp add: div_less_iff_less_mult)
  qed
  moreover have "ucast (drop_bit 32 (push_bit s d)) \<noteq> (0 :: u32)" using v v31 by (auto simp: unat_eq_zero [symmetric])
  ultimately have dv: "divl (drop_bit 1 n) (ucast (drop_bit 32 (push_bit s d))) = Some (of_nat q1)"
    unfolding divl_unat h v q1_def by simp
  define q where "q = q1 div 2 ^ (31 - s)"
  have est: "unat n div unat d \<le> q" "q \<le> unat n div unat d + 1"
    using quotient_estimate [OF n64 lo hi nb(3)] unfolding q_def q1_def v_def by auto
  have uq: "unat (ucast (drop_bit (31 - s) (of_nat q1 :: u32)) :: u64) = q"
    unfolding unat_ucast_up unat_drop_bit q_def using \<open>q1 < 2 ^ 32\<close> by (subst unat_of_nat_small) simp_all
  have "(let q = (ucast (drop_bit (31 - s) (of_nat q1 :: u32)) :: u64)
      in if n - (q - 1) * d < d then q - 1 else q) = n div d"
    unfolding Let_def
    by (rule corrected_quotient) (use est uq False assms in \<open>auto simp: not_less\<close>)
  then show ?thesis
    using assms False dv unfolding udiv64_def Let_def s_def d1_def by simp
qed

lemma udiv64_div: "d \<noteq> 0 \<Longrightarrow> udiv64 n d = Some (n div d)"
  using udiv64_small udiv64_large by blast

lemma uint_magnitude: "uint (if sint n \<ge> 0 then n else - n) = \<bar>sint n\<bar>" for n :: u64
proof -
  have u: "uint n = sint n mod 2 ^ 64" using uint_sint [of n] by (simp add: take_bit_eq_mod)
  have bounds: "- (2 ^ 63) \<le> sint n" "sint n < 2 ^ 63" using sint_ge [of n] sint_lt [of n] by simp_all
  show ?thesis
  proof (cases "sint n \<ge> 0")
    case True
    then show ?thesis using u bounds by simp
  next
    case False
    have "uint (- n) = (- uint n) mod 2 ^ 64" by (simp add: uint_word_ariths)
    also have "\<dots> = (- sint n) mod 2 ^ 64" unfolding u by (rule mod_minus_eq)
    also have "\<dots> = - sint n" using False bounds by (intro mod_pos_pos_trivial) auto
    finally show ?thesis using False by simp
  qed
qed

lemma sdiv64_sdiv:
  assumes "d \<noteq> 0"
  shows "sdiv64 n d = Some (word_of_int (sint n sdiv sint d))"
proof -
  let ?abs = "\<lambda>x :: u64. if sint x \<ge> 0 then x else - x"
  have "?abs d \<noteq> 0" using assms by simp
  then have q: "udiv64 (?abs n) (?abs d) = Some (?abs n div ?abs d)" by (rule udiv64_div)
  have w: "?abs n div ?abs d = word_of_int (\<bar>sint n\<bar> div \<bar>sint d\<bar>)"
    using uint_magnitude [of n] uint_magnitude [of d] by (simp only: uint_div_distrib [symmetric] word_of_int_uint flip: uint_magnitude)
  have "sint d \<noteq> 0" using assms by (metis signed_eq_0_iff)
  then have "(if (sint n < 0) = (sint d < 0) then word_of_int (\<bar>sint n\<bar> div \<bar>sint d\<bar>)
      else - word_of_int (\<bar>sint n\<bar> div \<bar>sint d\<bar>)) = (word_of_int (sint n sdiv sint d) :: u64)"
    by (cases "sint n = 0") (auto simp: signed_divide_int_def sgn_if)
  then show ?thesis using q unfolding sdiv64_def Let_def w by simp
qed

section \<open>Properties\<close>

text \<open>
  C13: the unsigned 64-bit division routine returns the quotient for every dividend and every
  divisor but zero; none of the divide instructions it uses traps.
\<close>

theorem udivdi3_correct:
  assumes "d \<noteq> 0"
  shows "udivdi3 n d = Some (n div d)"
  using udiv64_div [OF assms] by (simp add: udivdi3_def)

theorem udivdi3_correct_witness: "udivdi3 (2 ^ 63 + 5) (2 ^ 33 + 1) = Some ((2 ^ 63 + 5) div (2 ^ 33 + 1))"
  by (rule udivdi3_correct) simp

text \<open>
  C23: the signed division routine truncates towards zero, for every divisor but zero; the one
  quotient that does not fit, of the least number by -1, wraps around.
\<close>

theorem divdi3_correct:
  assumes "d \<noteq> 0"
  shows "divdi3 n d = Some (word_of_int (sint n sdiv sint d))"
  using sdiv64_sdiv [OF assms] by (simp add: divdi3_def)

theorem divdi3_correct_witness: "divdi3 (- 7) 2 = Some (word_of_int (sint (- 7 :: u64) sdiv sint (2 :: u64)))"
  by (rule divdi3_correct) simp

text \<open>
  C24: the unsigned remainder routine goes through a 32-bit result, so what it returns is the
  remainder modulo \<open>2 ^ 32\<close>; it is the remainder exactly when that is below \<open>2 ^ 32\<close>.
\<close>

theorem umoddi3_truncates:
  assumes "d \<noteq> 0"
  shows "\<exists>r. umoddi3 n d = Some r \<and> unat r = unat (n mod d) mod 2 ^ 32 \<and>
    (r = n mod d \<longleftrightarrow> unat (n mod d) < 2 ^ 32)"
proof -
  have "n - d * (n div d) = n mod d" by (simp add: minus_mult_div_eq_mod)
  then have r: "umoddi3 n d = Some (ucast (ucast (n mod d) :: u32))"
    using udiv64_div [OF assms] by (simp add: umoddi3_def umod64_def)
  have u: "unat (ucast (ucast (n mod d) :: u32) :: u64) = unat (n mod d) mod 2 ^ 32"
    unfolding unat_ucast_up by (rule unat_halves(2))
  moreover have "unat (n mod d) mod 2 ^ 32 = unat (n mod d) \<longleftrightarrow> unat (n mod d) < 2 ^ 32"
    by (metis mod_less mod_less_divisor zero_less_numeral zero_less_power)
  ultimately show ?thesis using r unfolding word_unat_eq_iff [of _ "n mod d"] by metis
qed

theorem umoddi3_truncates_witness:
  "\<exists>r. umoddi3 (2 ^ 33) (2 ^ 40) = Some r \<and> unat r = unat ((2 ^ 33 :: u64) mod 2 ^ 40) mod 2 ^ 32 \<and>
    (r = 2 ^ 33 mod 2 ^ 40 \<longleftrightarrow> unat ((2 ^ 33 :: u64) mod 2 ^ 40) < 2 ^ 32)"
  by (rule umoddi3_truncates) simp

end
