(* ===== verification/Kstdlib.thy ===== *)
theory Kstdlib
  imports Kstring_Props
begin

text \<open>
  \<^verbatim>\<open>lib/stdlib.c\<close>: the heap sort behind \<^verbatim>\<open>sort\<close> and \<^verbatim>\<open>qsort\<close>, the binary search, and
  \<^verbatim>\<open>atoi\<close>. An array is its bytes; an element is a group of \<open>sz\<close> bytes, and the
  comparison callback gets the bytes of two elements.
\<close>

section \<open>Model\<close>

type_synonym compare_func = "u8 list \<Rightarrow> u8 list \<Rightarrow> int"

definition elem_bytes :: "u8 list \<Rightarrow> nat \<Rightarrow> nat \<Rightarrow> u8 list option" where
  "elem_bytes array ofs sz = (if ofs + sz \<le> length array then Some (take sz (drop ofs array)) else None)"

function do_swap_loop :: "u8 list \<Rightarrow> nat \<Rightarrow> nat \<Rightarrow> nat \<Rightarrow> nat \<Rightarrow> u8 list option" where
  "do_swap_loop array a b sz i =
     (if i < sz
      then do {
        t \<leftarrow> aget array (a + i);
        u \<leftarrow> aget array (b + i);
        array \<leftarrow> aset array (a + i) u;
        array \<leftarrow> aset array (b + i) t;
        do_swap_loop array a b sz (i + 1)
      }
      else Some array)"
  by pat_completeness auto
termination by (relation "measure (\<lambda>(array, a, b, sz, i). sz - i)") auto

declare do_swap_loop.simps [simp del]

definition do_swap :: "u8 list \<Rightarrow> nat \<Rightarrow> nat \<Rightarrow> nat \<Rightarrow> u8 list option" where
  "do_swap array a_idx b_idx sz =
     do_swap_loop array (size_wrap ((a_idx - 1) * sz)) (size_wrap ((b_idx - 1) * sz)) sz 0"

definition do_compare :: "u8 list \<Rightarrow> nat \<Rightarrow> nat \<Rightarrow> nat \<Rightarrow> compare_func \<Rightarrow> int option" where
  "do_compare array a_idx b_idx sz compare =
     do {
       x \<leftarrow> elem_bytes array (size_wrap ((a_idx - 1) * sz)) sz;
       y \<leftarrow> elem_bytes array (size_wrap ((b_idx - 1) * sz)) sz;
       Some (compare x y)
     }"

definition heapify_max :: "u8 list \<Rightarrow> nat \<Rightarrow> nat \<Rightarrow> nat \<Rightarrow> compare_func \<Rightarrow> nat option" where
  "heapify_max array i cnt sz compare =
     do {
       let left = size_wrap (2 * i);
       let right = size_wrap (2 * i + 1);
       mx \<leftarrow> (if left \<le> cnt
             then do { c \<leftarrow> do_compare array left i sz compare; Some (if c > 0 then left else i) }
             else Some i);
       (if right \<le> cnt
        then do { c \<leftarrow> do_compare array right mx sz compare; Some (if c > 0 then right else mx) }
        else Some mx)
     }"

partial_function (option) heapify :: "u8 list \<Rightarrow> nat \<Rightarrow> nat \<Rightarrow> nat \<Rightarrow> compare_func \<Rightarrow> u8 list option" where
  "heapify array i cnt sz compare =
     do {
       mx \<leftarrow> heapify_max array i cnt sz compare;
       if mx = i then Some array
       else do {
         array \<leftarrow> do_swap array i mx sz;
         heapify array mx cnt sz compare
       }
     }"

fun sort_build :: "u8 list \<Rightarrow> nat \<Rightarrow> nat \<Rightarrow> nat \<Rightarrow> compare_func \<Rightarrow> u8 list option" where
  "sort_build array 0 cnt sz compare = Some array"
| "sort_build array (Suc i) cnt sz compare =
     do {
       array \<leftarrow> heapify array (Suc i) cnt sz compare;
       sort_build array i cnt sz compare
     }"

fun sort_extract :: "u8 list \<Rightarrow> nat \<Rightarrow> nat \<Rightarrow> compare_func \<Rightarrow> u8 list option" where
  "sort_extract array i sz compare =
     (if i > 1
      then do {
        array \<leftarrow> do_swap array 1 i sz;
        array \<leftarrow> heapify array 1 (i - 1) sz compare;
        sort_extract array (i - 1) sz compare
      }
      else Some array)"

declare sort_extract.simps [simp del]

definition sort_array :: "u8 list \<Rightarrow> nat \<Rightarrow> nat \<Rightarrow> compare_func \<Rightarrow> u8 list option" where
  "sort_array array cnt sz compare =
     do {
       ASSERT (sz > 0);
       array \<leftarrow> sort_build array (cnt div 2) cnt sz compare;
       sort_extract array cnt sz compare
     }"

text \<open>
  The search works with byte offsets into the array instead of pointers; the result is the
  offset of the match, or none for the null pointer.
\<close>

partial_function (option) search_loop ::
  "u8 list \<Rightarrow> u8 list \<Rightarrow> nat \<Rightarrow> compare_func \<Rightarrow> nat \<Rightarrow> nat \<Rightarrow> nat option option" where
  "search_loop key array sz compare first lst =
     (if first < lst
      then do {
        let range = (lst - first) div sz;
        let middle = first + (range div 2) * sz;
        x \<leftarrow> elem_bytes array middle sz;
        let cmp = compare key x;
        if cmp < 0 then search_loop key array sz compare first middle
        else if cmp > 0 then search_loop key array sz compare (middle + sz) lst
        else Some (Some middle)
      }
      else Some None)"

definition binary_search :: "u8 list \<Rightarrow> u8 list \<Rightarrow> nat \<Rightarrow> nat \<Rightarrow> compare_func \<Rightarrow> nat option option" where
  "binary_search key array cnt sz compare = search_loop key array sz compare 0 (sz * cnt)"

text \<open>The wrappers pass the callback through \<^verbatim>\<open>compare_thunk\<close>.\<close>

definition compare_thunk :: "u8 list \<Rightarrow> u8 list \<Rightarrow> compare_func \<Rightarrow> int" where
  "compare_thunk a b aux = aux a b"

definition qsort :: "u8 list \<Rightarrow> nat \<Rightarrow> nat \<Rightarrow> compare_func \<Rightarrow> u8 list option" where
  "qsort array cnt sz compare = sort_array array cnt sz (\<lambda>a b. compare_thunk a b compare)"

definition bsearch :: "u8 list \<Rightarrow> u8 list \<Rightarrow> nat \<Rightarrow> nat \<Rightarrow> compare_func \<Rightarrow> nat option option" where
  "bsearch key array cnt sz compare =
     binary_search key array cnt sz (\<lambda>a b. compare_thunk a b compare)"

section \<open>Conversion\<close>

definition isspace_byte :: "u8 \<Rightarrow> bool" where
  "isspace_byte c \<longleftrightarrow> c = 32 \<or> c = 12 \<or> c = 10 \<or> c = 13 \<or> c = 9 \<or> c = 11"

definition isdigit_byte :: "u8 \<Rightarrow> bool" where
  "isdigit_byte c \<longleftrightarrow> 48 \<le> c \<and> c \<le> 57"

partial_function (option) atoi_skip :: "bmem \<Rightarrow> ptr \<Rightarrow> ptr option" where
  "atoi_skip m s = do { c \<leftarrow> ld m s; if isspace_byte c then atoi_skip m (s + 1) else Some s }"

text \<open>The value is an \<^verbatim>\<open>int\<close>, kept negative while digits are read.\<close>

partial_function (option) atoi_digits :: "bmem \<Rightarrow> ptr \<Rightarrow> u32 \<Rightarrow> u32 option" where
  "atoi_digits m s v =
     do {
       c \<leftarrow> ld m s;
       if isdigit_byte c then atoi_digits m (s + 1) (v * 10 - (ucast c - 48)) else Some v
     }"

definition atoi :: "bmem \<Rightarrow> ptr \<Rightarrow> u32 option" where
  "atoi m s =
     do {
       ASSERT (s \<noteq> NULL);
       s \<leftarrow> atoi_skip m s;
       c \<leftarrow> ld m s;
       let (negative, s) = (if c = 43 then (False, s + 1) else if c = 45 then (True, s + 1) else (False, s));
       v \<leftarrow> atoi_digits m s 0;
       Some (if negative then v else - v)
     }"

end
