(* ===== verification/Kstdlib_Spec.thy ===== *)
theory Kstdlib_Spec
  imports Kstdlib Klist_Spec
begin

text \<open>
  The heap sort and the binary search of \<^verbatim>\<open>lib/stdlib.c\<close> on the list of elements of an array.
  The locale \<open>compare_order\<close> is the contract of a comparison callback with a
  \<^verbatim>\<open>strcmp\<close>-type result; \<^verbatim>\<open>strcmp\<close> and \<^verbatim>\<open>memcmp\<close> meet it.
\<close>

section \<open>Elements of an array\<close>

definition elems :: "nat \<Rightarrow> nat \<Rightarrow> u8 list \<Rightarrow> u8 list list" where
  "elems sz n array = map (\<lambda>k. take sz (drop (k * sz) array)) [0..<n]"

definition array_of :: "nat \<Rightarrow> nat \<Rightarrow> u8 list \<Rightarrow> bool" where
  "array_of sz n array \<longleftrightarrow> 0 < sz \<and> n * sz = length array \<and> length array < 2 ^ 32 \<and> n < 2 ^ 31"

definition swap_at :: "'a list \<Rightarrow> nat \<Rightarrow> nat \<Rightarrow> 'a list" where
  "swap_at xs i j = xs[i := xs ! j, j := xs ! i]"

lemma length_elems [simp]: "length (elems sz n array) = n"
  by (simp add: elems_def)

lemma nth_elems [simp]: "k < n \<Longrightarrow> elems sz n array ! k = take sz (drop (k * sz) array)"
  by (simp add: elems_def)

lemma length_swap_at [simp]: "length (swap_at xs i j) = length xs"
  by (simp add: swap_at_def)

lemma mset_swap_at [simp]: "i < length xs \<Longrightarrow> j < length xs \<Longrightarrow> mset (swap_at xs i j) = mset xs"
  by (simp add: swap_at_def mset_swap)

lemma nth_swap_at:
  "i < length xs \<Longrightarrow> j < length xs \<Longrightarrow> k < length xs \<Longrightarrow>
    swap_at xs i j ! k = (if k = i then xs ! j else if k = j then xs ! i else xs ! k)"
  by (auto simp: swap_at_def nth_list_update)

lemma elem_offset:
  assumes "array_of sz n array" and "k < n"
  shows "k * sz + sz \<le> length array" and "size_wrap (k * sz) = k * sz"
proof -
  have "Suc k * sz \<le> n * sz" using assms(2) by (intro mult_le_mono1) simp
  then show "k * sz + sz \<le> length array" using assms(1) by (simp add: array_of_def)
  with assms(1) show "size_wrap (k * sz) = k * sz" by (simp add: array_of_def)
qed

lemma do_compare_elems:
  assumes "array_of sz n array" and "0 < a" "a \<le> n" and "0 < b" "b \<le> n"
  shows "do_compare array a b sz compare =
    Some (compare (elems sz n array ! (a - 1)) (elems sz n array ! (b - 1)))"
  using elem_offset [OF assms(1), of "a - 1"] elem_offset [OF assms(1), of "b - 1"] assms(2-5)
  by (simp add: do_compare_def elem_bytes_def)

text \<open>The byte loop exchanges two disjoint groups of bytes; on one group it changes nothing.\<close>

lemma do_swap_loop_bytes:
  assumes "a + sz \<le> length array" and "b + sz \<le> length array" and "i \<le> sz"
    and "a = b \<or> a + sz \<le> b \<or> b + sz \<le> a"
  shows "\<exists>array'. do_swap_loop array a b sz i = Some array' \<and> length array' = length array \<and>
    (\<forall>j<length array. array' ! j =
       (if a + i \<le> j \<and> j < a + sz then array ! (j - a + b)
        else if b + i \<le> j \<and> j < b + sz then array ! (j - b + a) else array ! j))"
  using assms
proof (induction array a b sz i rule: do_swap_loop.induct)
  case (1 array a b sz i)
  note prems = 1(2-5)
  show ?case
  proof (cases "i < sz")
    case False
    then show ?thesis using 1(4) by (subst do_swap_loop.simps) auto
  next
    case True
    define array1 where "array1 = array[a + i := array ! (b + i), b + i := array ! (a + i)]"
    have r: "a + i < length array" "b + i < length array" using True 1(2,3) by auto
    have run: "do_swap_loop array a b sz i = do_swap_loop array1 a b sz (i + 1)"
      using True r by (subst do_swap_loop.simps) (simp add: array1_def)
    have "\<exists>array'. do_swap_loop array1 a b sz (i + 1) = Some array' \<and> length array' = length array1 \<and>
      (\<forall>j<length array1. array' ! j =
         (if a + (i + 1) \<le> j \<and> j < a + sz then array1 ! (j - a + b)
          else if b + (i + 1) \<le> j \<and> j < b + sz then array1 ! (j - b + a) else array1 ! j))"
      using True r 1(2,3,5) by (intro 1(1)) (auto simp: array1_def aget_def aset_def)
    then obtain array' where a': "do_swap_loop array1 a b sz (i + 1) = Some array'"
        "length array' = length array"
      and el: "\<forall>j<length array. array' ! j =
         (if a + (i + 1) \<le> j \<and> j < a + sz then array1 ! (j - a + b)
          else if b + (i + 1) \<le> j \<and> j < b + sz then array1 ! (j - b + a) else array1 ! j)"
      by (auto simp: array1_def)
    have n1: "array1 ! j = (if j = b + i then array ! (a + i) else if j = a + i then array ! (b + i) else array ! j)"
      if "j < length array" for j
      using that r by (auto simp: array1_def nth_list_update)
    have "array' ! j =
       (if a + i \<le> j \<and> j < a + sz then array ! (j - a + b)
        else if b + i \<le> j \<and> j < b + sz then array ! (j - b + a) else array ! j)"
      if j: "j < length array" for j
    proof -
      note e = el [rule_format, OF j] n1 [OF j]
      consider "a = b" | "a \<noteq> b" "a + i \<le> j" "j < a + sz" | "a \<noteq> b" "b + i \<le> j" "j < b + sz"
        | "\<not> (a + i \<le> j \<and> j < a + sz)" "\<not> (b + i \<le> j \<and> j < b + sz)" by blast
      then show ?thesis
      proof cases
        case 1
        then have "array1 = array" by (simp add: array1_def)
        then show ?thesis using e 1 by simp
      next
        case 2
        then have "j - a + b < length array" "j - a + b \<noteq> a + i" "\<not> (b + (i + 1) \<le> j \<and> j < b + sz)"
            "j \<noteq> b + i" "j - a + b = b + i \<longleftrightarrow> j = a + i"
          using prems(1,2,4) True by linarith+
        then show ?thesis using e n1 [of "j - a + b"] 2 by (cases "j = a + i") (auto simp: add.commute)
      next
        case 3
        then have "j - b + a < length array" "j - b + a \<noteq> b + i" "\<not> (a + i \<le> j \<and> j < a + sz)"
            "\<not> (a + (i + 1) \<le> j \<and> j < a + sz)" "j \<noteq> a + i" "j - b + a = a + i \<longleftrightarrow> j = b + i"
          using prems(1,2,4) True by linarith+
        then show ?thesis using e n1 [of "j - b + a"] 3 by (cases "j = b + i") (auto simp: add.commute)
      next
        case 4
        then have o: "j \<noteq> a + i" "j \<noteq> b + i" "\<not> (a + (i + 1) \<le> j \<and> j < a + sz)"
            "\<not> (b + (i + 1) \<le> j \<and> j < b + sz)"
          using True by auto
        show ?thesis unfolding e(1) e(2) by (simp only: o 4 if_False)
      qed
    qed
    then show ?thesis using run a' by auto
  qed
qed

lemma do_swap_elems:
  assumes ar: "array_of sz n array" and a: "0 < a" "a \<le> n" and b: "0 < b" "b \<le> n"
  shows "\<exists>array'. do_swap array a b sz = Some array' \<and> array_of sz n array' \<and>
    elems sz n array' = swap_at (elems sz n array) (a - 1) (b - 1)"
proof -
  let ?a = "(a - 1) * sz" and ?b = "(b - 1) * sz"
  have o: "?a + sz \<le> length array" "?b + sz \<le> length array" "size_wrap ?a = ?a" "size_wrap ?b = ?b"
    using elem_offset [OF ar, of "a - 1"] elem_offset [OF ar, of "b - 1"] a b by auto
  have blocks: "k * sz + sz \<le> j * sz \<or> j * sz + sz \<le> k * sz" if "k \<noteq> j" for k j
    using that by (metis add.commute mult_Suc mult_le_mono1 not_less_eq_eq le_antisym linorder_le_cases Suc_leI nat_less_le)
  have "?a = ?b \<or> ?a + sz \<le> ?b \<or> ?b + sz \<le> ?a" using blocks [of "a - 1" "b - 1"] by auto
  from do_swap_loop_bytes [OF o(1,2) _ this, of 0] obtain array' where
    run: "do_swap_loop array ?a ?b sz 0 = Some array'" and len: "length array' = length array"
    and el: "\<forall>j<length array. array' ! j =
       (if ?a \<le> j \<and> j < ?a + sz then array ! (j - ?a + ?b)
        else if ?b \<le> j \<and> j < ?b + sz then array ! (j - ?b + ?a) else array ! j)"
    by auto
  have "take sz (drop (k * sz) array') = swap_at (elems sz n array) (a - 1) (b - 1) ! k" if k: "k < n" for k
  proof -
    have ko: "k * sz + sz \<le> length array" using elem_offset(1) [OF ar k] .
    have at: "array' ! (k * sz + i) =
        (if k = a - 1 then array ! (?b + i) else if k = b - 1 then array ! (?a + i) else array ! (k * sz + i))"
      if i: "i < sz" for i
      using el i ko len blocks [of k "a - 1"] blocks [of k "b - 1"]
      by (cases "k = a - 1"; cases "k = b - 1") (auto simp: add.commute)
    have sub: "take sz (drop x xs) = map (\<lambda>i. xs ! (x + i)) [0..<sz]" if "x + sz \<le> length xs"
      for x and xs :: "u8 list"
      using that by (intro nth_equalityI) auto
    have "take sz (drop (k * sz) array') =
        (if k = a - 1 then take sz (drop ?b array) else if k = b - 1 then take sz (drop ?a array)
         else take sz (drop (k * sz) array))"
      using sub [of "k * sz" array'] sub [OF o(1)] sub [OF o(2)] sub [OF ko] ko len at
      by (cases "k = a - 1"; cases "k = b - 1") auto
    then show ?thesis using k a b by (simp add: nth_swap_at)
  qed
  then have "elems sz n array' = swap_at (elems sz n array) (a - 1) (b - 1)"
    by (intro nth_equalityI) auto
  then show ?thesis using run o(3,4) len ar by (auto simp: do_swap_def array_of_def)
qed

section \<open>Comparison callbacks\<close>

locale compare_order =
  fixes cmp :: "'a \<Rightarrow> 'a \<Rightarrow> int"
  assumes cmp_swap: "cmp x y > 0 \<longleftrightarrow> cmp y x < 0"
    and cmp_trans: "cmp x y \<le> 0 \<Longrightarrow> cmp y z \<le> 0 \<Longrightarrow> cmp x z \<le> 0"
begin

lemma cmp_refl [simp]: "cmp x x = 0"
  using cmp_swap [of x x] by linarith

lemma cmp_total: "cmp x y \<le> 0 \<or> cmp y x \<le> 0"
  using cmp_swap [of x y] by linarith

lemma cmp_less_trans: "cmp x y < 0 \<Longrightarrow> cmp y z \<le> 0 \<Longrightarrow> cmp x z < 0"
  using cmp_trans [of y z x] cmp_swap [of y x] cmp_swap [of z x] cmp_swap [of x y] by linarith

lemma transp_cmp: "transp (\<lambda>x y. cmp x y \<le> 0)"
  using cmp_trans by (auto simp: transp_def)

end

text \<open>A \<^verbatim>\<open>strcmp\<close>-type callback gives a strict order of the kind the list routines ask for.\<close>

sublocale compare_order \<subseteq> strict_weak_order "\<lambda>x y. cmp x y < 0"
proof
  show "cmp x y < 0 \<Longrightarrow> \<not> cmp y x < 0" for x y using cmp_swap [of x y] by linarith
  show "cmp x z < 0 \<Longrightarrow> cmp x y < 0 \<or> cmp y z < 0" for x y z
    using cmp_trans [of z y x] cmp_swap [of z x] cmp_swap [of y x] cmp_swap [of z y] by linarith
qed

section \<open>Heaps\<close>

text \<open>
  Positions count from 1. The edges of a heap join a position from 2 to \<open>cnt\<close> with its half;
  \<open>edges_ok\<close> says that the edges whose parent is at least \<open>lo\<close> and satisfies a condition are in
  order.
\<close>

definition edge :: "('a \<Rightarrow> 'a \<Rightarrow> int) \<Rightarrow> 'a list \<Rightarrow> nat \<Rightarrow> nat \<Rightarrow> bool" where
  "edge cmp xs c p \<longleftrightarrow> cmp (xs ! (c - 1)) (xs ! (p - 1)) \<le> 0"

definition heap_from :: "('a \<Rightarrow> 'a \<Rightarrow> int) \<Rightarrow> 'a list \<Rightarrow> nat \<Rightarrow> nat \<Rightarrow> bool" where
  "heap_from cmp xs lo cnt \<longleftrightarrow> (\<forall>c. 2 \<le> c \<and> c \<le> cnt \<and> lo \<le> c div 2 \<longrightarrow> edge cmp xs c (c div 2))"

definition sifting :: "('a \<Rightarrow> 'a \<Rightarrow> int) \<Rightarrow> 'a list \<Rightarrow> nat \<Rightarrow> nat \<Rightarrow> nat \<Rightarrow> bool" where
  "sifting cmp xs lo cnt i \<longleftrightarrow>
     (\<forall>c. 2 \<le> c \<and> c \<le> cnt \<and> lo \<le> c div 2 \<and> c div 2 \<noteq> i \<longrightarrow> edge cmp xs c (c div 2)) \<and>
     (\<forall>c. 2 \<le> c \<and> c \<le> cnt \<and> c div 2 = i \<and> lo \<le> i div 2 \<longrightarrow> edge cmp xs c (i div 2))"

definition largest :: "('a \<Rightarrow> 'a \<Rightarrow> int) \<Rightarrow> 'a list \<Rightarrow> nat \<Rightarrow> nat \<Rightarrow> nat" where
  "largest cmp xs i cnt =
     (let m = (if 2 * i \<le> cnt \<and> cmp (xs ! (2 * i - 1)) (xs ! (i - 1)) > 0 then 2 * i else i)
      in if 2 * i + 1 \<le> cnt \<and> cmp (xs ! (2 * i)) (xs ! (m - 1)) > 0 then 2 * i + 1 else m)"

lemma heapify_max_largest:
  assumes "array_of sz n array" and "cnt \<le> n" and "0 < i" and "i \<le> cnt"
  shows "heapify_max array i cnt sz compare = Some (largest compare (elems sz n array) i cnt)"
proof -
  have "size_wrap (2 * i) = 2 * i" "size_wrap (2 * i + 1) = 2 * i + 1"
    using assms by (auto simp: array_of_def)
  then show ?thesis
    using assms do_compare_elems [OF assms(1), of "2 * i" i compare]
      do_compare_elems [OF assms(1), of "2 * i + 1" "2 * i" compare]
      do_compare_elems [OF assms(1), of "2 * i + 1" i compare]
    by (auto simp: heapify_max_def largest_def Let_def)
qed

lemma largest_child:
  assumes "largest cmp xs i cnt \<noteq> i" and "0 < i"
  shows "largest cmp xs i cnt div 2 = i" and "largest cmp xs i cnt \<le> cnt"
    and "i < largest cmp xs i cnt"
  using assms by (auto simp: largest_def Let_def split: if_splits)

context compare_order
begin

lemma largest_max:
  assumes "0 < i"
  shows "edge cmp xs i (largest cmp xs i cnt)"
    and "2 \<le> c \<Longrightarrow> c \<le> cnt \<Longrightarrow> c div 2 = i \<Longrightarrow> edge cmp xs c (largest cmp xs i cnt)"
proof -
  let ?m = "if 2 * i \<le> cnt \<and> cmp (xs ! (2 * i - 1)) (xs ! (i - 1)) > 0 then 2 * i else i"
  let ?L = "largest cmp xs i cnt"
  have m: "edge cmp xs i ?m" "2 * i \<le> cnt \<Longrightarrow> edge cmp xs (2 * i) ?m"
    using cmp_swap [of "xs ! (2 * i - 1)" "xs ! (i - 1)"] by (auto simp: edge_def)
  have L: "edge cmp xs ?m ?L" "2 * i + 1 \<le> cnt \<Longrightarrow> edge cmp xs (2 * i + 1) ?L"
    using cmp_swap [of "xs ! (2 * i)" "xs ! (?m - 1)"] by (auto simp: edge_def largest_def Let_def)
  show "edge cmp xs i ?L" using m(1) L(1) cmp_trans unfolding edge_def by blast
  show "edge cmp xs c ?L" if "2 \<le> c" "c \<le> cnt" "c div 2 = i"
  proof -
    have "c = 2 * i \<or> c = 2 * i + 1" using that(3) by linarith
    then show ?thesis using m(2) L that(2) cmp_trans unfolding edge_def by blast
  qed
qed

lemma sifting_done:
  assumes "sifting cmp xs lo cnt i" and "largest cmp xs i cnt = i" and "0 < i"
  shows "heap_from cmp xs lo cnt"
  using assms(1) largest_max(2) [OF assms(3), of _ cnt xs] assms(2)
  by (auto simp: sifting_def heap_from_def)

lemma sifting_step:
  assumes s: "sifting cmp xs lo cnt i" and "0 < lo" and i: "lo \<le> i" and "cnt \<le> length xs"
  defines "m \<equiv> largest cmp xs i cnt"
  assumes ne: "m \<noteq> i"
  shows "sifting cmp (swap_at xs (i - 1) (m - 1)) lo cnt m"
proof -
  have i0: "0 < i" using assms(2,3) by simp
  have m: "m div 2 = i" "m \<le> cnt" "i < m" unfolding m_def
    using largest_child [of cmp xs i cnt] ne i0 by (auto simp: m_def)
  let ?ys = "swap_at xs (i - 1) (m - 1)"
  have at: "?ys ! (k - 1) = (if k = i then xs ! (m - 1) else if k = m then xs ! (i - 1) else xs ! (k - 1))"
    if "0 < k" "k \<le> cnt" for k
    using that m i0 assms(4) nth_swap_at [of "i - 1" xs "m - 1" "k - 1"] by auto
  have best: "edge cmp xs i m" "\<And>c. 2 \<le> c \<Longrightarrow> c \<le> cnt \<Longrightarrow> c div 2 = i \<Longrightarrow> edge cmp xs c m"
    unfolding m_def using largest_max [OF i0] by blast+
  have old: "edge cmp xs c (c div 2)" if "2 \<le> c" "c \<le> cnt" "lo \<le> c div 2" "c div 2 \<noteq> i" for c
    using s that by (auto simp: sifting_def)
  have up: "edge cmp xs c (i div 2)" if "2 \<le> c" "c \<le> cnt" "c div 2 = i" "lo \<le> i div 2" for c
    using s that by (auto simp: sifting_def)
  have "edge cmp ?ys c (c div 2)" if c: "2 \<le> c" "c \<le> cnt" "lo \<le> c div 2" "c div 2 \<noteq> m" for c
  proof -
    have p: "0 < c div 2" "c div 2 \<le> cnt" using c by auto
    consider "c div 2 = i" "c = m" | "c div 2 = i" "c \<noteq> m" "c \<noteq> i" | "c = i" | "c div 2 \<noteq> i" "c \<noteq> i" "c \<noteq> m"
      using i0 m(1) by fastforce
    then show ?thesis
    proof cases
      case 3
      then have "c div 2 \<noteq> i" using i0 by auto
      then show ?thesis using 3 c up [of m] m i0 at [of c] at [OF p] by (auto simp: edge_def)
    qed (use best old c at [of c] at [OF p] in \<open>auto simp: edge_def\<close>)
  qed
  moreover have "edge cmp ?ys c (m div 2)" if c: "2 \<le> c" "c \<le> cnt" "c div 2 = m" for c
  proof -
    have "c \<noteq> i" "c \<noteq> m" "0 < i" "i \<le> cnt" using c m i0 by auto
    then show ?thesis using old [of c] c m i at [of c] at [of i] by (auto simp: edge_def)
  qed
  ultimately show ?thesis by (auto simp: sifting_def)
qed

lemma heap_root:
  assumes "heap_from cmp xs 1 cnt" and "0 < c" and "c \<le> cnt"
  shows "edge cmp xs c 1"
  using assms(2,3)
proof (induction c rule: less_induct)
  case (less c)
  show ?case
  proof (cases "c = 1")
    case False
    then have "edge cmp xs c (c div 2)" using less.prems assms(1) by (auto simp: heap_from_def)
    moreover have "edge cmp xs (c div 2) 1" using less False by auto
    ultimately show ?thesis using cmp_trans unfolding edge_def by blast
  qed (simp add: edge_def)
qed

end

section \<open>The sorting loops\<close>

text \<open>What every step of the sort keeps: the multiset of the elements and everything behind \<open>cnt\<close>.\<close>

definition prefix_perm :: "nat \<Rightarrow> 'a list \<Rightarrow> 'a list \<Rightarrow> bool" where
  "prefix_perm cnt xs ys \<longleftrightarrow> length ys = length xs \<and> mset (take cnt ys) = mset (take cnt xs) \<and>
     drop cnt ys = drop cnt xs"

lemma prefix_perm_refl [simp]: "prefix_perm cnt xs xs"
  by (simp add: prefix_perm_def)

lemma prefix_perm_trans: "prefix_perm cnt xs ys \<Longrightarrow> prefix_perm cnt ys zs \<Longrightarrow> prefix_perm cnt xs zs"
  by (simp add: prefix_perm_def)

lemma prefix_perm_swap:
  assumes "i < cnt" and "j < cnt" and "cnt \<le> length xs"
  shows "prefix_perm cnt xs (swap_at xs i j)"
proof -
  have "take cnt (swap_at xs i j) = swap_at (take cnt xs) i j"
    using assms by (simp add: swap_at_def take_update_swap)
  moreover have "mset (swap_at (take cnt xs) i j) = mset (take cnt xs)"
    using assms by (intro mset_swap_at) auto
  moreover have "drop cnt (swap_at xs i j) = drop cnt xs" using assms by (simp add: swap_at_def)
  ultimately show ?thesis by (simp add: prefix_perm_def)
qed

lemma prefix_perm_mset: "prefix_perm cnt xs ys \<Longrightarrow> mset ys = mset xs"
  by (metis append_take_drop_id mset_append prefix_perm_def)

lemma prefix_perm_set_take: "prefix_perm cnt xs ys \<Longrightarrow> set (take cnt ys) = set (take cnt xs)"
  by (metis set_mset_mset prefix_perm_def)

lemma prefix_perm_mono:
  assumes "prefix_perm cnt xs ys" and "cnt \<le> n"
  shows "prefix_perm n xs ys"
proof -
  have d: "drop cnt ys = drop cnt xs" and l: "length ys = length xs"
    and m: "mset (take cnt ys) = mset (take cnt xs)"
    using assms(1) by (auto simp: prefix_perm_def)
  have split: "take n zs = take cnt zs @ take (n - cnt) (drop cnt zs)" for zs :: "'a list"
    using assms(2) by (metis le_add_diff_inverse take_add)
  have "drop n ys = drop n xs"
    using d assms(2) by (metis drop_drop le_add_diff_inverse2)
  then show ?thesis using d l m by (simp add: prefix_perm_def split)
qed

context compare_order
begin

text \<open>The extraction: the suffix is sorted and nothing in front is greater than anything in it.\<close>

definition extracted :: "'a list \<Rightarrow> nat \<Rightarrow> bool" where
  "extracted xs i \<longleftrightarrow> sorted_wrt (\<lambda>x y. cmp x y \<le> 0) (drop i xs) \<and>
     (\<forall>x\<in>set (take i xs). \<forall>y\<in>set (drop i xs). cmp x y \<le> 0)"

lemma extracted_sorted: "extracted xs i \<Longrightarrow> i \<le> 1 \<Longrightarrow> sorted_wrt (\<lambda>x y. cmp x y \<le> 0) xs"
  by (cases xs) (auto simp: extracted_def le_Suc_eq)

lemma extracted_swap:
  assumes e: "extracted xs i" and h: "heap_from cmp xs 1 i" and i: "1 < i" "i \<le> length xs"
  shows "extracted (swap_at xs 0 (i - 1)) (i - 1)"
proof -
  define ys where "ys = swap_at xs 0 (i - 1)"
  have len: "length ys = length xs" by (simp add: ys_def)
  have at: "ys ! k = (if k = 0 then xs ! (i - 1) else if k = i - 1 then xs ! 0 else xs ! k)"
    if "k < length xs" for k
    unfolding ys_def by (rule nth_swap_at) (use that i in linarith)+
  have tail: "drop i ys = drop i xs" using i by (simp add: ys_def swap_at_def)
  have d: "drop (i - 1) ys = xs ! 0 # drop i xs"
    using Cons_nth_drop_Suc [of "i - 1" ys] i len at [of "i - 1"] tail by simp
  have front: "\<exists>k<i. x = xs ! k" if x: "x \<in> set (take (i - 1) ys)" for x
  proof -
    obtain k where "k < length (take (i - 1) ys)" "take (i - 1) ys ! k = x"
      using x unfolding in_set_conv_nth by blast
    then have k: "k < i - 1" "x = ys ! k" "k < length xs" using len by auto
    show ?thesis
    proof (cases "k = 0")
      case True
      then have "x = xs ! (i - 1)" using k at [of k] by simp
      then show ?thesis using i by (intro exI [of _ "i - 1"]) simp
    next
      case False
      then have "x = xs ! k" using k at [of k] by simp
      then show ?thesis using k by (intro exI [of _ k]) simp
    qed
  qed
  have root: "cmp (xs ! k) (xs ! 0) \<le> 0" if "k < i" for k
    using heap_root [OF h, of "k + 1"] that by (simp add: edge_def)
  have below: "cmp (xs ! k) y \<le> 0" if "k < i" "y \<in> set (drop i xs)" for k y
  proof -
    have "xs ! k \<in> set (take i xs)" using that(1) i by (metis length_take min.absorb2 nth_mem nth_take)
    then show ?thesis using e that(2) by (auto simp: extracted_def)
  qed
  have "cmp x y \<le> 0" if "x \<in> set (take (i - 1) ys)" "y \<in> set (drop (i - 1) ys)" for x y
    using front [OF that(1)] that(2) root below unfolding d by auto
  moreover have "sorted_wrt (\<lambda>x y. cmp x y \<le> 0) (drop (i - 1) ys)"
    unfolding d using e below [of 0] i by (simp add: extracted_def)
  ultimately show ?thesis unfolding ys_def [symmetric] by (simp add: extracted_def)
qed

lemma extracted_prefix_perm: "extracted xs i \<Longrightarrow> prefix_perm i xs ys \<Longrightarrow> extracted ys i"
  using prefix_perm_set_take [of i xs ys] by (simp add: extracted_def prefix_perm_def)

lemma swap_root_sifting:
  assumes "heap_from cmp xs 1 i" and "1 < i" and "i \<le> length xs"
  shows "sifting cmp (swap_at xs 0 (i - 1)) 1 (i - 1) 1"
proof -
  have "swap_at xs 0 (i - 1) ! (k - 1) = xs ! (k - 1)" if "2 \<le> k" "k \<le> i - 1" for k
    using that assms(2,3) by (subst nth_swap_at) auto
  then show ?thesis using assms(1) by (auto simp: sifting_def heap_from_def edge_def)
qed

end

text \<open>The array routines, for a callback that orders the elements.\<close>

lemma heapify_elems:
  assumes "compare_order cmp" and "array_of sz n array" and "0 < lo" and "lo \<le> i" and "i \<le> cnt" and "cnt \<le> n"
    and "sifting cmp (elems sz n array) lo cnt i"
  shows "\<exists>array'. heapify array i cnt sz cmp = Some array' \<and> array_of sz n array' \<and>
    heap_from cmp (elems sz n array') lo cnt \<and> prefix_perm cnt (elems sz n array) (elems sz n array')"
  using assms(2,4,5,7)
proof (induction "cnt - i" arbitrary: array i rule: less_induct)
  case less
  let ?m = "largest cmp (elems sz n array) i cnt"
  have i0: "0 < i" using less.prems assms(3) by simp
  have mx: "heapify_max array i cnt sz cmp = Some ?m"
    using heapify_max_largest [OF less.prems(1) assms(6) i0 less.prems(3)] .
  show ?case
  proof (cases "?m = i")
    case True
    then show ?thesis
      using mx less.prems(1) compare_order.sifting_done [OF assms(1) less.prems(4) True i0]
      by (subst heapify.simps) simp
  next
    case False
    have m: "?m \<le> cnt" "i < ?m" using largest_child [OF False i0] by auto
    obtain array1 where a1: "do_swap array i ?m sz = Some array1" "array_of sz n array1"
        "elems sz n array1 = swap_at (elems sz n array) (i - 1) (?m - 1)"
      using do_swap_elems [OF less.prems(1), of i ?m] i0 m assms(6) by auto
    have "sifting cmp (elems sz n array1) lo cnt ?m"
      unfolding a1(3) using assms(3,6) less.prems
      by (intro compare_order.sifting_step [OF assms(1)] False) auto
    moreover have "cnt - ?m < cnt - i" "lo \<le> ?m" using m less.prems(2) by linarith+
    ultimately obtain array' where a': "heapify array1 ?m cnt sz cmp = Some array'" "array_of sz n array'"
        "heap_from cmp (elems sz n array') lo cnt" "prefix_perm cnt (elems sz n array1) (elems sz n array')"
      using less.hyps [of ?m array1] a1(2) m(1) by blast
    have "prefix_perm cnt (elems sz n array) (elems sz n array1)"
      unfolding a1(3) using m i0 assms(6) by (intro prefix_perm_swap) auto
    then show ?thesis
      using mx False a1(1) a' prefix_perm_trans by (subst heapify.simps) auto
  qed
qed

lemma sort_build_elems:
  assumes "compare_order cmp" and "array_of sz n array" and "i \<le> n div 2" and "heap_from cmp (elems sz n array) (i + 1) n"
  shows "\<exists>array'. sort_build array i n sz cmp = Some array' \<and> array_of sz n array' \<and>
    heap_from cmp (elems sz n array') 1 n \<and> prefix_perm n (elems sz n array) (elems sz n array')"
  using assms(2-4)
proof (induction i arbitrary: array)
  case (Suc i)
  have "sifting cmp (elems sz n array) (Suc i) n (Suc i)"
    using Suc.prems(3) by (auto simp: sifting_def heap_from_def)
  moreover have "Suc i \<le> n" using Suc.prems(2) by linarith
  ultimately obtain array1 where "heapify array (Suc i) n sz cmp = Some array1" "array_of sz n array1"
      "heap_from cmp (elems sz n array1) (Suc i) n" "prefix_perm n (elems sz n array) (elems sz n array1)"
    using heapify_elems [OF assms(1) Suc.prems(1), of "Suc i" "Suc i" n] by auto
  then show ?case using Suc.IH [of array1] Suc.prems(2) prefix_perm_trans by fastforce
qed auto

lemma sort_extract_elems:
  assumes "compare_order cmp" and "array_of sz n array" and "i \<le> n"
    and "heap_from cmp (elems sz n array) 1 i" and "compare_order.extracted cmp (elems sz n array) i"
  shows "\<exists>array'. sort_extract array i sz cmp = Some array' \<and> array_of sz n array' \<and>
    sorted_wrt (\<lambda>x y. cmp x y \<le> 0) (elems sz n array') \<and> mset (elems sz n array') = mset (elems sz n array)"
  using assms(2-5)
proof (induction i arbitrary: array)
  case 0
  then show ?case
    using compare_order.extracted_sorted [OF assms(1) 0(4)] by (simp add: sort_extract.simps)
next
  case (Suc i)
  show ?case
  proof (cases "i = 0")
    case True
    then show ?thesis
      using compare_order.extracted_sorted [OF assms(1) Suc.prems(4)] Suc.prems(1)
      by (simp add: sort_extract.simps)
  next
    case False
    obtain array1 where a1: "do_swap array 1 (Suc i) sz = Some array1" "array_of sz n array1"
        "elems sz n array1 = swap_at (elems sz n array) 0 i"
      using do_swap_elems [OF Suc.prems(1), of 1 "Suc i"] Suc.prems(2) by auto
    have ex: "compare_order.extracted cmp (elems sz n array1) i"
      unfolding a1(3) using compare_order.extracted_swap [OF assms(1) Suc.prems(4,3)] False Suc.prems(2) by simp
    have "sifting cmp (elems sz n array1) 1 i 1"
      unfolding a1(3) using compare_order.swap_root_sifting [OF assms(1) Suc.prems(3)] False Suc.prems(2) by simp
    then obtain array2 where a2: "heapify array1 1 i sz cmp = Some array2" "array_of sz n array2"
        "heap_from cmp (elems sz n array2) 1 i" "prefix_perm i (elems sz n array1) (elems sz n array2)"
      using heapify_elems [OF assms(1) a1(2), of 1 1 i] False Suc.prems(2) by auto
    have "mset (elems sz n array2) = mset (elems sz n array)"
      using prefix_perm_mset [OF a2(4)] Suc.prems(2) unfolding a1(3) by simp
    then show ?thesis
      using Suc.IH [OF a2(2) _ a2(3) compare_order.extracted_prefix_perm [OF assms(1) ex a2(4)]]
        a1(1) a2(1) False Suc.prems(2)
      by (subst sort_extract.simps) auto
  qed
qed

lemma sort_array_elems:
  assumes "compare_order cmp" and "array_of sz n array"
  shows "\<exists>array'. sort_array array n sz cmp = Some array' \<and> array_of sz n array' \<and>
    sorted_wrt (\<lambda>x y. cmp x y \<le> 0) (elems sz n array') \<and> mset (elems sz n array') = mset (elems sz n array)"
proof -
  have "heap_from cmp (elems sz n array) (n div 2 + 1) n" by (auto simp: heap_from_def)
  then obtain array1 where a1: "sort_build array (n div 2) n sz cmp = Some array1" "array_of sz n array1"
      "heap_from cmp (elems sz n array1) 1 n" "prefix_perm n (elems sz n array) (elems sz n array1)"
    using sort_build_elems [OF assms] by blast
  have "compare_order.extracted cmp (elems sz n array1) n"
    using assms(1) by (simp add: compare_order.extracted_def)
  from sort_extract_elems [OF assms(1) a1(2) _ a1(3) this] show ?thesis
    using a1(1) prefix_perm_mset [OF a1(4)] assms(2) by (auto simp: sort_array_def array_of_def)
qed

end
