(* ===== verification/Kstdlib_Props.thy ===== *)
theory Kstdlib_Props
  imports Kstdlib_Spec
begin

text \<open>
  The binary search, the number parser, and the properties of \<^verbatim>\<open>lib/stdlib.c\<close>. The
  comparisons of \<^verbatim>\<open>lib/string.c\<close> are interpretations of the contract of a callback.
\<close>

section \<open>Callbacks of the library\<close>

lemma str_cmp_trans: "str_cmp x y \<le> 0 \<Longrightarrow> str_cmp y z \<le> 0 \<Longrightarrow> str_cmp x z \<le> 0"
proof (induction x y arbitrary: z rule: str_cmp.induct)
  case (1 z)
  then show ?case by simp
next
  case (2 y ys z)
  then show ?case by (cases z) auto
next
  case (4 x xs y ys z)
  then show ?case by (cases z) (auto split: if_splits)
qed simp

interpretation str: compare_order str_cmp
proof
  show "0 < str_cmp x y \<longleftrightarrow> str_cmp y x < 0" for x y using str_cmp_swap [of y x] by linarith
  show "str_cmp x y \<le> 0 \<Longrightarrow> str_cmp y z \<le> 0 \<Longrightarrow> str_cmp x z \<le> 0" for x y z by (rule str_cmp_trans)
qed

section \<open>Binary search\<close>

lemma search_loop_elems:
  assumes "compare_order cmp" and "array_of sz n array" and "sorted_wrt (\<lambda>x y. cmp x y \<le> 0) (elems sz n array)"
    and "l \<le> n"
    and "\<And>k. k < n \<Longrightarrow> cmp key (elems sz n array ! k) = 0 \<Longrightarrow> f \<le> k \<and> k < l"
  shows "\<exists>r. search_loop key array sz cmp (f * sz) (l * sz) = Some r \<and>
    (case r of Some ofs \<Rightarrow> \<exists>k<n. ofs = k * sz \<and> cmp key (elems sz n array ! k) = 0
     | None \<Rightarrow> \<forall>k<n. cmp key (elems sz n array ! k) \<noteq> 0)"
  using assms(4,5)
proof (induction "l - f" arbitrary: f l rule: less_induct)
  case less
  have sz: "0 < sz" using assms(2) by (simp add: array_of_def)
  show ?case
  proof (cases "f < l")
    case False
    then have "\<forall>k<n. cmp key (elems sz n array ! k) \<noteq> 0" using less.prems(2) by fastforce
    moreover have "\<not> f * sz < l * sz" using False by simp
    ultimately show ?thesis by (subst search_loop.simps) auto
  next
    case True
    define k where "k = f + (l - f) div 2"
    have k: "f \<le> k" "k < l" "k < n" using True less.prems(1) by (auto simp: k_def)
    have mid: "f * sz + (l * sz - f * sz) div sz div 2 * sz = k * sz"
      using sz by (simp add: k_def distrib_right flip: diff_mult_distrib)
    have get: "elem_bytes array (k * sz) sz = Some (elems sz n array ! k)"
      using elem_offset(1) [OF assms(2) k(3)] k(3) by (simp add: elem_bytes_def)
    have lt: "f * sz < l * sz" using True sz by simp
    let ?c = "cmp key (elems sz n array ! k)"
    have run: "search_loop key array sz cmp (f * sz) (l * sz) =
        (if ?c < 0 then search_loop key array sz cmp (f * sz) (k * sz)
         else if ?c > 0 then search_loop key array sz cmp ((k + 1) * sz) (l * sz)
         else Some (Some (k * sz)))"
      using lt get mid by (subst search_loop.simps) (simp add: Let_def add.commute)
    have ord: "cmp (elems sz n array ! a) (elems sz n array ! b) \<le> 0" if "a < b" "b < n" for a b
      using sorted_wrt_nth_less [OF assms(3) that(1)] that(2) by simp
    consider "?c < 0" | "?c > 0" | "?c = 0" by linarith
    then show ?thesis
    proof cases
      case 1
      have "cmp key (elems sz n array ! j) < 0" if "k \<le> j" "j < n" for j
        using compare_order.cmp_less_trans [OF assms(1) 1 ord [of k j]] 1 that by (cases "k = j") auto
      then have "f \<le> j \<and> j < k" if "j < n" "cmp key (elems sz n array ! j) = 0" for j
        using less.prems(2) [OF that] that by (metis not_le less_irrefl)
      from less.hyps [of k f, OF _ _ this] show ?thesis using run 1 k by auto
    next
      case 2
      have "cmp key (elems sz n array ! j) > 0" if "j \<le> k" for j
      proof (cases "j = k")
        case False
        then have "cmp (elems sz n array ! j) (elems sz n array ! k) \<le> 0" using ord [of j k] that k(3) by simp
        then show ?thesis
          using 2 assms(1) by (metis compare_order.cmp_swap compare_order.cmp_trans not_le)
      qed (use 2 in simp)
      then have "k + 1 \<le> j \<and> j < l" if "j < n" "cmp key (elems sz n array ! j) = 0" for j
        using less.prems(2) [OF that] that by (metis Suc_eq_plus1 less_irrefl not_less_eq_eq)
      from less.hyps [of l "k + 1", OF _ _ this] show ?thesis using run 2 k less.prems(1) by auto
    next
      case 3
      then show ?thesis using run k(3) by auto
    qed
  qed
qed

section \<open>Numbers\<close>

definition dec_value :: "u8 list \<Rightarrow> int" where
  "dec_value ds = fold (\<lambda>d v. v * 10 + (uint d - 48)) ds 0"

lemma atoi_skip_spaces:
  assumes "bytes_at m p sp" and "\<forall>c\<in>set sp. isspace_byte c" and "m (p + length sp) = Some c" and "\<not> isspace_byte c"
  shows "atoi_skip m p = Some (p + length sp)"
  using assms
proof (induction sp arbitrary: p)
  case Nil
  then show ?case by (subst atoi_skip.simps) simp
next
  case (Cons x sp)
  then show ?case using Cons.IH [of "p + 1"] by (subst atoi_skip.simps) simp
qed

lemma atoi_digits_value:
  assumes "bytes_at m p ds" and "\<forall>c\<in>set ds. isdigit_byte c" and "m (p + length ds) = Some c" and "\<not> isdigit_byte c"
  shows "atoi_digits m p (word_of_int (- v)) =
    Some (word_of_int (- fold (\<lambda>d v. v * 10 + (uint d - 48)) ds v))"
  using assms
proof (induction ds arbitrary: p v)
  case Nil
  then show ?case by (subst atoi_digits.simps) simp
next
  case (Cons x ds)
  have step: "word_of_int (- v) * 10 - (ucast x - 48) = (word_of_int (- (v * 10 + (uint x - 48))) :: u32)"
    by (simp add: of_int_uint algebra_simps)
  have "atoi_digits m p (word_of_int (- v)) = atoi_digits m (p + 1) (word_of_int (- v) * 10 - (ucast x - 48))"
    using Cons.prems(1,2) by (subst atoi_digits.simps) simp
  also have "\<dots> = Some (word_of_int (- fold (\<lambda>d v. v * 10 + (uint d - 48)) ds (v * 10 + (uint x - 48))))"
    unfolding step using Cons.prems by (intro Cons.IH) simp_all
  finally show ?case by simp
qed

lemma atoi_value:
  assumes "str_at m p (sp @ sign @ ds @ rest)"
    and "\<forall>c\<in>set sp. isspace_byte c" and "sign \<in> {[], [43], [45]}"
    and "ds \<noteq> []" and "\<forall>c\<in>set ds. isdigit_byte c" and "\<forall>c r. rest = c # r \<longrightarrow> \<not> isdigit_byte c"
  shows "atoi m p = Some (word_of_int (if sign = [45] then - dec_value ds else dec_value ds))"
proof -
  obtain d ds' where ds: "ds = d # ds'" "isdigit_byte d" using assms(4,5) by (cases ds) auto
  have not_sp: "\<not> isspace_byte d" "d \<noteq> 43" "d \<noteq> 45" "\<not> isspace_byte 43" "\<not> isspace_byte 45" "\<not> isdigit_byte 0"
    using ds(2) by (auto simp: isspace_byte_def isdigit_byte_def)
  let ?q = "p + length sp" and ?r = "p + length sp + length sign"
  have b: "bytes_at m p sp" "bytes_at m ?q sign" "bytes_at m ?r ds" "p \<noteq> NULL"
    and e: "bytes_at m (?r + length ds) (rest @ [0])"
    using assms(1) by (auto simp: str_at_def add.assoc)
  obtain c where c: "m (?r + length ds) = Some c" "\<not> isdigit_byte c"
    using e assms(6) not_sp(6) by (cases rest) auto
  have digits: "atoi_digits m ?r 0 = Some (word_of_int (- dec_value ds))"
    using atoi_digits_value [OF b(3) assms(5) c, of 0] by (simp add: dec_value_def)
  obtain x where x: "m ?q = Some x" "\<not> isspace_byte x" "x = hd (sign @ ds)"
    using b(2,3) assms(3) ds(1) not_sp by (cases sign) auto
  have "atoi_skip m p = Some ?q" by (rule atoi_skip_spaces [OF b(1) assms(2) x(1,2)])
  then show ?thesis
    using x digits b(4) assms(3) ds(1) not_sp by (auto simp: atoi_def)
qed

section \<open>Properties\<close>

definition demo_array :: "u8 list" where
  "demo_array = [5, 1, 3, 9, 5, 0]"

lemma demo_array_of: "array_of 2 3 demo_array" "elems 2 3 [3, 9, 5, 0, 5, 1] = [[3, 9], [5, 0], [5, 1]]"
  by (simp add: array_of_def demo_array_def) (simp add: elems_def upt_conv_Cons)

text \<open>
  C12: \<^verbatim>\<open>qsort\<close>, a heap sort on the bytes of the array, returns on every array with a callback
  that orders its elements, leaves the elements in nondecreasing order and none lost or
  invented.
\<close>

theorem qsort_correct:
  assumes "compare_order cmp" and "array_of sz n array"
  shows "\<exists>array'. qsort array n sz cmp = Some array' \<and> length array' = length array \<and>
    sorted_wrt (\<lambda>x y. cmp x y \<le> 0) (elems sz n array') \<and>
    mset (elems sz n array') = mset (elems sz n array)"
  using sort_array_elems [OF assms] assms(2)
  by (auto simp: qsort_def compare_thunk_def array_of_def)

theorem qsort_correct_witness:
  "\<exists>array'. qsort demo_array 3 2 str_cmp = Some array' \<and> length array' = length demo_array \<and>
    sorted_wrt (\<lambda>x y. str_cmp x y \<le> 0) (elems 2 3 array') \<and>
    mset (elems 2 3 array') = mset (elems 2 3 demo_array)"
  by (rule qsort_correct [OF str.compare_order_axioms demo_array_of(1)])

text \<open>
  C25: \<^verbatim>\<open>bsearch\<close> on a sorted array returns; a result is the offset of an element equal to the
  key, and no result means that no element is equal to it.
\<close>

theorem bsearch_correct:
  assumes "compare_order cmp" and "array_of sz n array" and "sorted_wrt (\<lambda>x y. cmp x y \<le> 0) (elems sz n array)"
  shows "\<exists>r. bsearch key array n sz cmp = Some r \<and>
    (case r of Some ofs \<Rightarrow> \<exists>k<n. ofs = k * sz \<and> cmp key (elems sz n array ! k) = 0
     | None \<Rightarrow> \<forall>k<n. cmp key (elems sz n array ! k) \<noteq> 0)"
  using search_loop_elems [OF assms, of n key 0]
  by (simp add: bsearch_def binary_search_def compare_thunk_def mult.commute)

theorem bsearch_correct_witness:
  "\<exists>r. bsearch [5, 0] [3, 9, 5, 0, 5, 1] 3 2 str_cmp = Some r \<and>
    (case r of Some ofs \<Rightarrow> \<exists>k<3. ofs = k * 2 \<and> str_cmp [5, 0] (elems 2 3 [3, 9, 5, 0, 5, 1] ! k) = 0
     | None \<Rightarrow> \<forall>k<3. str_cmp [5, 0] (elems 2 3 [3, 9, 5, 0, 5, 1] ! k) \<noteq> 0)"
  by (rule bsearch_correct [OF str.compare_order_axioms])
    (simp_all add: demo_array_of(2), simp add: array_of_def)

end
