(* ===== verification/Kthread.thy ===== *)
theory Kthread
  imports Klist_Spec
begin

text \<open>
  The scheduler of \<^verbatim>\<open>threads/thread.c\<close>.

  The state holds the thread structures by their address, the ready list, the semaphores,
  the locks, the condition variables and the sleepers, since \<^verbatim>\<open>threads/thread.c\<close>,
  \<^verbatim>\<open>threads/synch.c\<close> and \<^verbatim>\<open>devices/timer.c\<close> share them. The lists of threads are sequences:
  \<^verbatim>\<open>list_insert_ordered\<close> is \<open>insert_seq\<close>, \<^verbatim>\<open>list_pop_front\<close> takes the head, as the
  refinement of \<^verbatim>\<open>lib/kernel/list.c\<close> shows of the links.

  A kernel routine runs with interrupts off until it switches to another thread, and the switch
  may come in its middle. What a thread still has to do when it is next scheduled is its
  \<open>cont\<close>, the stack of its pending calls: a routine pushes its rest there before a call that may
  switch. Running a routine up to a switch, or up to its end, is one step.
\<close>

section \<open>State\<close>

datatype thread_status = THREAD_RUNNING | THREAD_READY | THREAD_BLOCKED | THREAD_DYING

text \<open>The semaphores of the kernel by where they stand: in a lock, in a thread, on the stack of \<^verbatim>\<open>cond_wait\<close>, or elsewhere.\<close>

datatype sid =
    User_sema nat
  | Lock_sema nat
  | Sleep_mutex ptr
  | Load_mutex ptr
  | Wait_mutex ptr
  | Exit_mutex ptr
  | Waiter_sema ptr

text \<open>
  A place in the list of locks a thread holds: a lock, or the end of the list of a thread.
\<close>

datatype hnode = Hlock nat | Htail ptr

text \<open>
  The rest of a routine that is not finished: what is still to do when the thread runs next.
  \<open>Sema_retry_f\<close> and \<open>Acquire_tail_f\<close> stand inside a region with interrupts off, the others at
  a place where interrupts are on.
\<close>

datatype frame =
    Sema_retry_f sid
  | Acquire_tail_f nat
  | Sema_down_f sid
  | Lock_acquire_f nat
  | Broadcast_f nat nat
  | Tid_locked_f ptr
  | Create_tail_f ptr int
  | Create_loaded_f ptr
  | Create_ret_f ptr
  | Exec_ret_f
  | Exit_children_f
  | Exit_locks_f hnode
  | Exit_next_f nat
  | Exit_tail_f
  | Wait_tail_f ptr
  | Idle_loop_f

record thread =
  t_tid :: int
  status :: thread_status
  priority :: int
  old_priority :: int
  tick_to_wake :: int
  lock_holding :: "nat list"
  lock_waiting :: "nat list"
  calling_exec :: bool
  child_list :: "ptr list"
  waited_once :: bool
  exit_status :: int
  pagedir :: bool
  retval :: int
  cont :: "frame list"

record semaphore =
  sema_value :: nat
  waiters :: "ptr list"

record lock =
  holder :: "ptr option"
  max_priority :: int
  hold_next :: hnode

record kernel =
  thr :: "ptr \<rightharpoonup> thread"
  cur :: ptr
  idle_thread :: "ptr option"
  initial_thread :: ptr
  ready_list :: "ptr list"
  all_list :: "ptr list"
  semas :: "sid \<Rightarrow> semaphore"
  locks :: "nat \<Rightarrow> lock"
  conds :: "nat \<Rightarrow> ptr list"
  waiter_priority :: "ptr \<Rightarrow> int"
  next_tid :: int
  sleep_list :: "ptr list"
  ticks :: int
  thread_ticks :: nat
  idle_ticks :: nat
  kernel_ticks :: nat
  user_ticks :: nat
  in_external_intr :: bool
  yield_on_return :: bool

definition PRI_MIN :: int where
  "PRI_MIN = 0"

definition PRI_DEFAULT :: int where
  "PRI_DEFAULT = 31"

definition PRI_MAX :: int where
  "PRI_MAX = 63"

definition TIME_SLICE :: nat where
  "TIME_SLICE = 4"

text \<open>Assignments to a member of a thread, and the pending calls of the running thread.\<close>

definition upd :: "ptr \<Rightarrow> (thread \<Rightarrow> thread) \<Rightarrow> kernel \<Rightarrow> kernel" where
  "upd t f k = k\<lparr>thr := (thr k)(t := map_option f (thr k t))\<rparr>"

definition push_cont :: "frame \<Rightarrow> kernel \<Rightarrow> kernel" where
  "push_cont f k = upd (cur k) (\<lambda>th. th\<lparr>cont := f # cont th\<rparr>) k"

definition prio :: "kernel \<Rightarrow> ptr \<Rightarrow> int" where
  "prio k t = (case thr k t of Some th \<Rightarrow> priority th | None \<Rightarrow> 0)"

section \<open>Scheduling\<close>

definition is_thread :: "ptr \<Rightarrow> kernel \<Rightarrow> bool" where
  "is_thread t k \<longleftrightarrow> thr k t \<noteq> None"

definition running_thread :: "kernel \<Rightarrow> ptr" where
  "running_thread k = cur k"

definition thread_current :: "kernel \<Rightarrow> ptr option" where
  "thread_current k =
     do {
       let t = running_thread k;
       ASSERT (is_thread t k);
       th \<leftarrow> thr k t;
       ASSERT (status th = THREAD_RUNNING);
       Some t
     }"

definition compare_priorities :: "kernel \<Rightarrow> ptr \<Rightarrow> ptr \<Rightarrow> bool" where
  "compare_priorities k a b \<longleftrightarrow> prio k a > prio k b"

definition next_thread_to_run :: "kernel \<Rightarrow> (ptr option \<times> kernel)" where
  "next_thread_to_run k =
     (case ready_list k of
        [] \<Rightarrow> (idle_thread k, k)
      | t # ts \<Rightarrow> (Some t, k\<lparr>ready_list := ts\<rparr>))"

text \<open>A page that is freed is no longer a thread.\<close>

definition thread_schedule_tail :: "ptr option \<Rightarrow> kernel \<Rightarrow> kernel option" where
  "thread_schedule_tail prev k =
     do {
       let k = upd (running_thread k) (\<lambda>th. th\<lparr>status := THREAD_RUNNING\<rparr>) k;
       let k = k\<lparr>thread_ticks := 0\<rparr>;
       case prev of
         None \<Rightarrow> Some k
       | Some p \<Rightarrow>
           do {
             th \<leftarrow> thr k p;
             if status th = THREAD_DYING \<and> p \<noteq> initial_thread k
             then do {
               ASSERT (p \<noteq> running_thread k);
               Some (k\<lparr>thr := (thr k)(p := None)\<rparr>)
             }
             else Some k
           }
     }"

definition schedule :: "kernel \<Rightarrow> kernel option" where
  "schedule k =
     do {
       let c = running_thread k;
       let (nxt, k) = next_thread_to_run k;
       th \<leftarrow> thr k c;
       ASSERT (status th \<noteq> THREAD_RUNNING);
       n \<leftarrow> nxt;
       ASSERT (is_thread n k);
       thread_schedule_tail (if c \<noteq> n then Some c else None) (k\<lparr>cur := n\<rparr>)
     }"

definition thread_block :: "kernel \<Rightarrow> kernel option" where
  "thread_block k =
     do {
       ASSERT (\<not> in_external_intr k);
       c \<leftarrow> thread_current k;
       schedule (upd c (\<lambda>th. th\<lparr>status := THREAD_BLOCKED\<rparr>) k)
     }"

definition thread_unblock :: "ptr \<Rightarrow> kernel \<Rightarrow> kernel option" where
  "thread_unblock t k =
     do {
       ASSERT (is_thread t k);
       th \<leftarrow> thr k t;
       ASSERT (status th = THREAD_BLOCKED);
       let k = k\<lparr>ready_list := insert_seq (compare_priorities k) t (ready_list k)\<rparr>;
       Some (upd t (\<lambda>th. th\<lparr>status := THREAD_READY\<rparr>) k)
     }"

definition thread_yield :: "kernel \<Rightarrow> kernel option" where
  "thread_yield k =
     do {
       c \<leftarrow> thread_current k;
       ASSERT (\<not> in_external_intr k);
       let k = (if Some c \<noteq> idle_thread k
                then k\<lparr>ready_list := insert_seq (compare_priorities k) c (ready_list k)\<rparr> else k);
       schedule (upd c (\<lambda>th. th\<lparr>status := THREAD_READY\<rparr>) k)
     }"

definition intr_yield_on_return :: "kernel \<Rightarrow> kernel option" where
  "intr_yield_on_return k = do { ASSERT (in_external_intr k); Some (k\<lparr>yield_on_return := True\<rparr>) }"

definition check_preemption :: "kernel \<Rightarrow> kernel option" where
  "check_preemption k =
     (case ready_list k of
        [] \<Rightarrow> Some k
      | t # _ \<Rightarrow>
          do {
            th \<leftarrow> thr k t;
            c \<leftarrow> thread_current k;
            if priority th > prio k c
            then (if \<not> in_external_intr k then thread_yield k else intr_yield_on_return k)
            else Some k
          })"

definition thread_set_priority :: "int \<Rightarrow> kernel \<Rightarrow> kernel option" where
  "thread_set_priority new_priority k =
     do {
       c \<leftarrow> thread_current k;
       let k = upd c (\<lambda>th. (if priority th = old_priority th then th\<lparr>priority := new_priority\<rparr> else th)
                        \<lparr>old_priority := new_priority\<rparr>) k;
       check_preemption k
     }"

definition thread_get_priority :: "kernel \<Rightarrow> int option" where
  "thread_get_priority k = do { c \<leftarrow> thread_current k; Some (prio k c) }"

text \<open>The statistics, and the time slice.\<close>

definition thread_tick :: "kernel \<Rightarrow> kernel option" where
  "thread_tick k =
     do {
       t \<leftarrow> thread_current k;
       th \<leftarrow> thr k t;
       let k = (if Some t = idle_thread k then k\<lparr>idle_ticks := idle_ticks k + 1\<rparr>
                else if pagedir th then k\<lparr>user_ticks := user_ticks k + 1\<rparr>
                else k\<lparr>kernel_ticks := kernel_ticks k + 1\<rparr>);
       let k = k\<lparr>thread_ticks := size_wrap (thread_ticks k + 1)\<rparr>;
       if thread_ticks k \<ge> TIME_SLICE then intr_yield_on_return k else Some k
     }"

end
