(* ===== verification/Ksynch.thy ===== *)
theory Ksynch
  imports Kthread
begin

text \<open>
  Semaphores, locks with priority donation and condition variables: \<^verbatim>\<open>threads/synch.c\<close>.

  A lock is in at most one \<open>lock_holding\<close> list, since its \<^verbatim>\<open>holding_elem\<close> is a single
  element; \<open>hold_next\<close> is the link that element keeps after it was removed, which
  \<^verbatim>\<open>thread_exit\<close> still follows. The \<open>lock_waiting\<close> lists only ever grow, and the code reads
  of them whether they are empty and their first element.
\<close>

section \<open>Semaphores\<close>

text \<open>The memory a semaphore is in: the ones in a thread structure exist as long as the thread.\<close>

fun sema_in_memory :: "sid \<Rightarrow> kernel \<Rightarrow> bool" where
  "sema_in_memory (Sleep_mutex t) k = is_thread t k"
| "sema_in_memory (Load_mutex t) k = is_thread t k"
| "sema_in_memory (Wait_mutex t) k = is_thread t k"
| "sema_in_memory (Exit_mutex t) k = is_thread t k"
| "sema_in_memory (Waiter_sema t) k = is_thread t k"
| "sema_in_memory s k = True"

definition set_sema :: "sid \<Rightarrow> semaphore \<Rightarrow> kernel \<Rightarrow> kernel" where
  "set_sema s v k = k\<lparr>semas := (semas k)(s := v)\<rparr>"

definition sema_init :: "sid \<Rightarrow> nat \<Rightarrow> kernel \<Rightarrow> kernel" where
  "sema_init s v k = set_sema s \<lparr>sema_value = v, waiters = []\<rparr> k"

text \<open>The body of the loop of \<^verbatim>\<open>sema_down\<close> ends in a switch, after which the value is tested again.\<close>

definition sema_down :: "sid \<Rightarrow> kernel \<Rightarrow> kernel option" where
  "sema_down s k =
     do {
       ASSERT (sema_in_memory s k);
       ASSERT (\<not> in_external_intr k);
       let v = semas k s;
       if sema_value v = 0
       then do {
         c \<leftarrow> thread_current k;
         let k = set_sema s (v\<lparr>waiters := insert_seq (compare_priorities k) c (waiters v)\<rparr>) k;
         thread_block (push_cont (Sema_retry_f s) k)
       }
       else Some (set_sema s (v\<lparr>sema_value := sema_value v - 1\<rparr>) k)
     }"

definition sema_try_down :: "sid \<Rightarrow> kernel \<Rightarrow> (bool \<times> kernel) option" where
  "sema_try_down s k =
     do {
       ASSERT (sema_in_memory s k);
       let v = semas k s;
       if sema_value v > 0
       then Some (True, set_sema s (v\<lparr>sema_value := sema_value v - 1\<rparr>) k)
       else Some (False, k)
     }"

text \<open>\<^verbatim>\<open>list_sort\<close> is stable, so it gives the sequence that ordered insertion of the elements in turn gives.\<close>

definition sort_seq :: "('a \<Rightarrow> 'a \<Rightarrow> bool) \<Rightarrow> 'a list \<Rightarrow> 'a list" where
  "sort_seq lessf xs = fold (insert_seq lessf) xs []"

definition sema_wake :: "sid \<Rightarrow> kernel \<Rightarrow> kernel option" where
  "sema_wake s k =
     (case sort_seq (compare_priorities k) (waiters (semas k s)) of
        [] \<Rightarrow> Some k
      | t # ts \<Rightarrow> thread_unblock t (set_sema s ((semas k s)\<lparr>waiters := ts\<rparr>) k))"

definition sema_up :: "sid \<Rightarrow> kernel \<Rightarrow> kernel option" where
  "sema_up s k =
     do {
       ASSERT (sema_in_memory s k);
       k \<leftarrow> sema_wake s k;
       let v = semas k s;
       check_preemption (set_sema s (v\<lparr>sema_value := size_wrap (sema_value v + 1)\<rparr>) k)
     }"

section \<open>Locks\<close>

definition set_lock :: "nat \<Rightarrow> (lock \<Rightarrow> lock) \<Rightarrow> kernel \<Rightarrow> kernel" where
  "set_lock l f k = k\<lparr>locks := (locks k)(l := f (locks k l))\<rparr>"

definition lock_init :: "nat \<Rightarrow> kernel \<Rightarrow> kernel" where
  "lock_init l k =
     sema_init (Lock_sema l) 1 (set_lock l (\<lambda>lk. lk\<lparr>holder := None, max_priority := 0\<rparr>) k)"

definition compare_priorities_lock :: "kernel \<Rightarrow> nat \<Rightarrow> nat \<Rightarrow> bool" where
  "compare_priorities_lock k a b \<longleftrightarrow> max_priority (locks k a) < max_priority (locks k b)"

definition lock_held_by_current_thread :: "nat \<Rightarrow> kernel \<Rightarrow> bool option" where
  "lock_held_by_current_thread l k = do { c \<leftarrow> thread_current k; Some (holder (locks k l) = Some c) }"

text \<open>The loop that donates the priority of the running thread along the chain of lock holders.\<close>

partial_function (option) donate :: "nat \<Rightarrow> ptr option \<Rightarrow> kernel \<Rightarrow> kernel option" where
  "donate l t k =
     (case t of
        None \<Rightarrow> Some k
      | Some h \<Rightarrow>
          do {
            c \<leftarrow> thread_current k;
            th \<leftarrow> thr k h;
            if prio k c > priority th
            then do {
              let p = prio k c;
              let k = upd h (\<lambda>th. th\<lparr>priority := p\<rparr>) k;
              let k = (if p > max_priority (locks k l)
                       then set_lock l (\<lambda>lk. lk\<lparr>max_priority := p\<rparr>) k else k);
              case lock_waiting th of
                [] \<Rightarrow> Some k
              | l' # _ \<Rightarrow> donate l' (holder (locks k l')) k
            }
            else Some k
          })"

definition lock_acquire :: "nat \<Rightarrow> kernel \<Rightarrow> kernel option" where
  "lock_acquire l k =
     do {
       ASSERT (\<not> in_external_intr k);
       held \<leftarrow> lock_held_by_current_thread l k;
       ASSERT (\<not> held);
       c \<leftarrow> thread_current k;
       k \<leftarrow> (if holder (locks k l) \<noteq> None
            then donate l (holder (locks k l)) (upd c (\<lambda>th. th\<lparr>lock_waiting := lock_waiting th @ [l]\<rparr>) k)
            else Some k);
       sema_down (Lock_sema l) (push_cont (Acquire_tail_f l) k)
     }"

text \<open>The end of \<^verbatim>\<open>lock_acquire\<close>, once the semaphore is down.\<close>

definition acquire_tail :: "nat \<Rightarrow> kernel \<Rightarrow> kernel option" where
  "acquire_tail l k =
     do {
       c \<leftarrow> thread_current k;
       let k = upd c (\<lambda>th. th\<lparr>lock_holding :=
                 insert_seq (compare_priorities_lock k) l (lock_holding th)\<rparr>) k;
       Some (set_lock l (\<lambda>lk. lk\<lparr>holder := Some c\<rparr>) k)
     }"

definition lock_try_acquire :: "nat \<Rightarrow> kernel \<Rightarrow> (bool \<times> kernel) option" where
  "lock_try_acquire l k =
     do {
       held \<leftarrow> lock_held_by_current_thread l k;
       ASSERT (\<not> held);
       (success, k) \<leftarrow> sema_try_down (Lock_sema l) k;
       if success
       then do {
         c \<leftarrow> thread_current k;
         Some (True, set_lock l (\<lambda>lk. lk\<lparr>holder := Some c\<rparr>) k)
       }
       else Some (False, k)
     }"

text \<open>The element that follows a lock in the list of the locks a thread holds.\<close>

fun next_held :: "ptr \<Rightarrow> nat list \<Rightarrow> nat \<Rightarrow> hnode" where
  "next_held t (a # b # ls) l = (if a = l then Hlock b else next_held t (b # ls) l)"
| "next_held t _ l = Htail t"

text \<open>
  \<^verbatim>\<open>list_remove\<close> needs an element that is in a list; a lock taken by \<^verbatim>\<open>lock_try_acquire\<close>
  is in none, and removing it follows links that were never set or are stale.
\<close>

definition lock_release :: "nat \<Rightarrow> kernel \<Rightarrow> kernel option" where
  "lock_release l k =
     do {
       held \<leftarrow> lock_held_by_current_thread l k;
       ASSERT held;
       let p = (case waiters (semas k (Lock_sema l)) of
                  _ # second # _ \<Rightarrow> prio k second
                | _ \<Rightarrow> 0);
       let k = set_lock l (\<lambda>lk. lk\<lparr>max_priority := p\<rparr>) k;
       c \<leftarrow> thread_current k;
       th \<leftarrow> thr k c;
       ASSERT (l \<in> set (lock_holding th));
       let rest = remove1 l (lock_holding th);
       let k = set_lock l (\<lambda>lk. lk\<lparr>hold_next := next_held c (lock_holding th) l\<rparr>) k;
       let p = (case rest of
                  [] \<Rightarrow> old_priority th
                | m # ms \<Rightarrow>
                    (let mp = max_priority (locks k (max_seq (compare_priorities_lock k) m ms))
                     in if mp > old_priority th then mp else old_priority th));
       let k = upd c (\<lambda>th. th\<lparr>lock_holding := rest, priority := p\<rparr>) k;
       sema_up (Lock_sema l) (set_lock l (\<lambda>lk. lk\<lparr>holder := None\<rparr>) k)
     }"

section \<open>Condition variables\<close>

definition cond_init :: "nat \<Rightarrow> kernel \<Rightarrow> kernel" where
  "cond_init v k = k\<lparr>conds := (conds k)(v := [])\<rparr>"

definition compare_priorities_sema :: "kernel \<Rightarrow> ptr \<Rightarrow> ptr \<Rightarrow> bool" where
  "compare_priorities_sema k a b \<longleftrightarrow> waiter_priority k a > waiter_priority k b"

definition cond_wait :: "nat \<Rightarrow> nat \<Rightarrow> kernel \<Rightarrow> kernel option" where
  "cond_wait v l k =
     do {
       ASSERT (\<not> in_external_intr k);
       held \<leftarrow> lock_held_by_current_thread l k;
       ASSERT held;
       c \<leftarrow> thread_current k;
       let k = sema_init (Waiter_sema c) 0 k;
       let k = k\<lparr>waiter_priority := (waiter_priority k)(c := prio k c)\<rparr>;
       let k = k\<lparr>conds := (conds k)(v := insert_seq (compare_priorities_sema k) c (conds k v))\<rparr>;
       lock_release l (push_cont (Sema_down_f (Waiter_sema c)) (push_cont (Lock_acquire_f l) k))
     }"

definition cond_signal :: "nat \<Rightarrow> nat \<Rightarrow> kernel \<Rightarrow> kernel option" where
  "cond_signal v l k =
     do {
       ASSERT (\<not> in_external_intr k);
       held \<leftarrow> lock_held_by_current_thread l k;
       ASSERT held;
       case conds k v of
         [] \<Rightarrow> Some k
       | t # ts \<Rightarrow> sema_up (Waiter_sema t) (k\<lparr>conds := (conds k)(v := ts)\<rparr>)
     }"

definition cond_broadcast :: "nat \<Rightarrow> nat \<Rightarrow> kernel \<Rightarrow> kernel option" where
  "cond_broadcast v l k =
     (if conds k v = [] then Some k else cond_signal v l (push_cont (Broadcast_f v l) k))"

end
