(* ===== verification/Ksystem.thy ===== *)
theory Ksystem
  imports Ksynch
begin

text \<open>
  Threads over their life and the kernel as a whole: creation and exit of a thread
  (\<^verbatim>\<open>threads/thread.c\<close>), the waiting of a parent for its child
  (\<^verbatim>\<open>userprog/process.c\<close>), sleeping and the timer interrupt (\<^verbatim>\<open>devices/timer.c\<close>,
  \<^verbatim>\<open>threads/interrupt.c\<close>), and the steps the machine can take.

  The page of a new thread comes from \<^verbatim>\<open>palloc_get_page\<close>, whose answer is an argument.
  Opening and closing of files and directories does not touch this state and is left out.
\<close>

section \<open>Creation\<close>

definition TID_ERROR :: int where
  "TID_ERROR = -1"

text \<open>The lock of \<^verbatim>\<open>allocate_tid\<close>.\<close>

definition tid_lock :: nat where
  "tid_lock = 0"

definition new_thread :: "int \<Rightarrow> thread" where
  "new_thread p =
     \<lparr>t_tid = 0, status = THREAD_BLOCKED, priority = p, old_priority = p, tick_to_wake = 0,
      lock_holding = [], lock_waiting = [], calling_exec = False, child_list = [],
      waited_once = False, exit_status = 0, pagedir = False, retval = 0, cont = []\<rparr>"

definition init_thread :: "ptr \<Rightarrow> int \<Rightarrow> kernel \<Rightarrow> kernel option" where
  "init_thread t p k =
     do {
       ASSERT (t \<noteq> NULL);
       ASSERT (PRI_MIN \<le> p \<and> p \<le> PRI_MAX);
       let k = k\<lparr>thr := (thr k)(t \<mapsto> new_thread p)\<rparr>;
       let k = sema_init (Sleep_mutex t) 0 k;
       let k = sema_init (Load_mutex t) 0 k;
       let k = sema_init (Wait_mutex t) 0 k;
       let k = sema_init (Exit_mutex t) 0 k;
       Some (k\<lparr>all_list := all_list k @ [t]\<rparr>)
     }"

definition set_retval :: "int \<Rightarrow> kernel \<Rightarrow> kernel" where
  "set_retval v k = upd (cur k) (\<lambda>th. th\<lparr>retval := v\<rparr>) k"

text \<open>Up to the call of \<^verbatim>\<open>lock_acquire\<close> in \<^verbatim>\<open>allocate_tid\<close>.\<close>

definition thread_create :: "ptr option \<Rightarrow> int \<Rightarrow> kernel \<Rightarrow> kernel option" where
  "thread_create page p k =
     (case page of
        None \<Rightarrow> Some (set_retval TID_ERROR k)
      | Some t \<Rightarrow>
          do {
            k \<leftarrow> init_thread t p k;
            lock_acquire tid_lock (push_cont (Tid_locked_f t) k)
          })"

text \<open>The rest of \<^verbatim>\<open>allocate_tid\<close>, with its lock held.\<close>

definition allocate_tid :: "ptr \<Rightarrow> kernel \<Rightarrow> kernel option" where
  "allocate_tid t k =
     do {
       let tid = next_tid k;
       let k = k\<lparr>next_tid := tid + 1\<rparr>;
       lock_release tid_lock (push_cont (Create_tail_f t tid) k)
     }"

text \<open>The rest of \<^verbatim>\<open>thread_create\<close>: up to the wait for the child to load, and after it.\<close>

definition create_tail :: "ptr \<Rightarrow> int \<Rightarrow> kernel \<Rightarrow> kernel option" where
  "create_tail t tid k =
     do {
       ASSERT (is_thread t k);
       k \<leftarrow> thread_unblock t (upd t (\<lambda>th. th\<lparr>t_tid := tid\<rparr>) k);
       c \<leftarrow> thread_current k;
       th \<leftarrow> thr k c;
       if calling_exec th
       then sema_down (Load_mutex t)
              (push_cont (Create_loaded_f t) (upd c (\<lambda>th. th\<lparr>child_list := child_list th @ [t]\<rparr>) k))
       else check_preemption (push_cont (Create_ret_f t) k)
     }"

definition create_loaded :: "ptr \<Rightarrow> kernel \<Rightarrow> kernel option" where
  "create_loaded t k =
     do {
       c \<leftarrow> thread_current k;
       child \<leftarrow> thr k t;
       let k = (if t_tid child = TID_ERROR
                then upd c (\<lambda>th. th\<lparr>child_list := remove1 t (child_list th)\<rparr>) k else k);
       check_preemption (push_cont (Create_ret_f t) k)
     }"

definition create_ret :: "ptr \<Rightarrow> kernel \<Rightarrow> kernel option" where
  "create_ret t k = do { child \<leftarrow> thr k t; Some (set_retval (t_tid child) k) }"

section \<open>Processes\<close>

definition process_execute :: "ptr option \<Rightarrow> kernel \<Rightarrow> kernel option" where
  "process_execute page k =
     do {
       c \<leftarrow> thread_current k;
       thread_create page PRI_DEFAULT (push_cont Exec_ret_f (upd c (\<lambda>th. th\<lparr>calling_exec := True\<rparr>) k))
     }"

definition exec_ret :: "kernel \<Rightarrow> kernel option" where
  "exec_ret k = do { c \<leftarrow> thread_current k; Some (upd c (\<lambda>th. th\<lparr>calling_exec := False\<rparr>) k) }"

definition thread_exit :: "kernel \<Rightarrow> kernel option" where
  "thread_exit k =
     do {
       ASSERT (\<not> in_external_intr k);
       c \<leftarrow> thread_current k;
       Some (push_cont Exit_children_f (upd c (\<lambda>th. th\<lparr>pagedir := False\<rparr>) k))
     }"

text \<open>The end of \<^verbatim>\<open>start_process\<close>, once the executable was loaded or not.\<close>

definition start_process :: "bool \<Rightarrow> kernel \<Rightarrow> kernel option" where
  "start_process success k =
     do {
       c \<leftarrow> thread_current k;
       if success
       then sema_up (Load_mutex c) (upd c (\<lambda>th. th\<lparr>pagedir := True\<rparr>) k)
       else sema_up (Load_mutex c)
              (push_cont Exit_children_f (upd c (\<lambda>th. th\<lparr>t_tid := TID_ERROR, exit_status := -1\<rparr>) k))
     }"

definition find_child :: "int \<Rightarrow> kernel \<Rightarrow> ptr list \<Rightarrow> ptr option" where
  "find_child tid k ts = find (\<lambda>t. case thr k t of Some th \<Rightarrow> t_tid th = tid | None \<Rightarrow> False) ts"

definition process_wait :: "int \<Rightarrow> kernel \<Rightarrow> kernel option" where
  "process_wait child_tid k =
     do {
       c \<leftarrow> thread_current k;
       th \<leftarrow> thr k c;
       case find_child child_tid k (child_list th) of
         None \<Rightarrow> Some (set_retval (-1) k)
       | Some child \<Rightarrow>
           do {
             ch \<leftarrow> thr k child;
             if waited_once ch then Some (set_retval (-1) k)
             else sema_down (Wait_mutex child)
                    (push_cont (Wait_tail_f child) (upd child (\<lambda>th. th\<lparr>waited_once := True\<rparr>) k))
           }
     }"

definition wait_tail :: "ptr \<Rightarrow> kernel \<Rightarrow> kernel option" where
  "wait_tail child k =
     do {
       c \<leftarrow> thread_current k;
       ch \<leftarrow> thr k child;
       let k = set_retval (exit_status ch) k;
       let k = upd c (\<lambda>th. th\<lparr>child_list := remove1 child (child_list th)\<rparr>) k;
       sema_up (Exit_mutex child) k
     }"

section \<open>Exit\<close>

definition exit_children :: "kernel \<Rightarrow> kernel option" where
  "exit_children k =
     do {
       c \<leftarrow> thread_current k;
       th \<leftarrow> thr k c;
       case child_list th of
         [] \<Rightarrow> Some (push_cont (Exit_locks_f (case lock_holding th of l # _ \<Rightarrow> Hlock l | [] \<Rightarrow> Htail c)) k)
       | child # cs \<Rightarrow>
           sema_up (Exit_mutex child)
             (push_cont Exit_children_f (upd c (\<lambda>th. th\<lparr>child_list := cs\<rparr>) k))
     }"

text \<open>
  The loop over the locks takes the next element from the one it has just released. Where that
  element is by now in the list of another thread, the walk goes on in that list; its end is not the
  end the loop looks for, and the lock computed from it lies inside a thread structure.
\<close>

definition exit_locks :: "hnode \<Rightarrow> kernel \<Rightarrow> kernel option" where
  "exit_locks e k =
     do {
       c \<leftarrow> thread_current k;
       case e of
         Htail t \<Rightarrow>
           do {
             ASSERT (t = c);
             sema_up (Wait_mutex c)
               (push_cont (Sema_down_f (Exit_mutex c)) (push_cont Exit_tail_f k))
           }
       | Hlock l \<Rightarrow> lock_release l (push_cont (Exit_next_f l) k)
     }"

definition exit_next :: "nat \<Rightarrow> kernel \<Rightarrow> kernel option" where
  "exit_next l k =
     Some (push_cont (Exit_locks_f
       (case holder (locks k l) of
          None \<Rightarrow> hold_next (locks k l)
        | Some h \<Rightarrow>
            (case thr k h of
               None \<Rightarrow> hold_next (locks k l)
             | Some th \<Rightarrow> (if l \<in> set (lock_holding th) then next_held h (lock_holding th) l
                          else hold_next (locks k l))))) k)"

definition exit_tail :: "kernel \<Rightarrow> kernel option" where
  "exit_tail k =
     do {
       c \<leftarrow> thread_current k;
       let k = k\<lparr>all_list := remove1 c (all_list k)\<rparr>;
       schedule (upd c (\<lambda>th. th\<lparr>status := THREAD_DYING\<rparr>) k)
     }"

section \<open>The idle thread\<close>

definition idle_loop :: "kernel \<Rightarrow> kernel option" where
  "idle_loop k = thread_block (push_cont Idle_loop_f k)"

definition idle :: "sid \<Rightarrow> kernel \<Rightarrow> kernel option" where
  "idle idle_started k =
     do {
       c \<leftarrow> thread_current k;
       sema_up idle_started (push_cont Idle_loop_f (k\<lparr>idle_thread := Some c\<rparr>))
     }"

section \<open>Timer\<close>

text \<open>A 64-bit signed value.\<close>

definition int64_wrap :: "int \<Rightarrow> int" where
  "int64_wrap x = (x + 2 ^ 63) mod 2 ^ 64 - 2 ^ 63"

definition wake_time :: "kernel \<Rightarrow> ptr \<Rightarrow> int" where
  "wake_time k t = (case thr k t of Some th \<Rightarrow> tick_to_wake th | None \<Rightarrow> 0)"

definition compare_ticks :: "kernel \<Rightarrow> ptr \<Rightarrow> ptr \<Rightarrow> bool" where
  "compare_ticks k a b \<longleftrightarrow> wake_time k a < wake_time k b"

definition timer_ticks :: "kernel \<Rightarrow> int" where
  "timer_ticks k = ticks k"

definition timer_elapsed :: "int \<Rightarrow> kernel \<Rightarrow> int" where
  "timer_elapsed since k = int64_wrap (timer_ticks k - since)"

definition timer_sleep :: "int \<Rightarrow> kernel \<Rightarrow> kernel option" where
  "timer_sleep n k =
     (if n \<le> 0 then Some k
      else do {
        t \<leftarrow> thread_current k;
        let k = upd t (\<lambda>th. th\<lparr>tick_to_wake := int64_wrap (timer_ticks k + n)\<rparr>) k;
        let k = k\<lparr>sleep_list := insert_seq (compare_ticks k) t (sleep_list k)\<rparr>;
        sema_down (Sleep_mutex t) k
      })"

text \<open>The loop that wakes the sleepers that are due.\<close>

fun wake_sleepers :: "ptr list \<Rightarrow> kernel \<Rightarrow> kernel option" where
  "wake_sleepers [] k = Some (k\<lparr>sleep_list := []\<rparr>)"
| "wake_sleepers (t # ts) k =
     do {
       ASSERT (is_thread t k);
       if timer_ticks k < wake_time k t then Some (k\<lparr>sleep_list := t # ts\<rparr>)
       else do {
         k \<leftarrow> sema_up (Sleep_mutex t) (k\<lparr>sleep_list := ts\<rparr>);
         wake_sleepers ts k
       }
     }"

definition timer_interrupt :: "kernel \<Rightarrow> kernel option" where
  "timer_interrupt k =
     do {
       k \<leftarrow> thread_tick (k\<lparr>ticks := int64_wrap (ticks k + 1)\<rparr>);
       wake_sleepers (sleep_list k) k
     }"

text \<open>\<^verbatim>\<open>intr_handler\<close> on an external interrupt with the given handler.\<close>

definition intr_handler :: "(kernel \<Rightarrow> kernel option) \<Rightarrow> kernel \<Rightarrow> kernel option" where
  "intr_handler handler k =
     do {
       ASSERT (\<not> in_external_intr k);
       k \<leftarrow> handler (k\<lparr>in_external_intr := True, yield_on_return := False\<rparr>);
       ASSERT (in_external_intr k);
       let k = k\<lparr>in_external_intr := False\<rparr>;
       if yield_on_return k then thread_yield k else Some k
     }"

section \<open>Steps\<close>

text \<open>Run the next pending call of the running thread.\<close>

fun run_frame :: "frame \<Rightarrow> kernel \<Rightarrow> kernel option" where
  "run_frame (Sema_retry_f s) k = sema_down s k"
| "run_frame (Acquire_tail_f l) k = acquire_tail l k"
| "run_frame (Sema_down_f s) k = sema_down s k"
| "run_frame (Lock_acquire_f l) k = lock_acquire l k"
| "run_frame (Broadcast_f v l) k = cond_broadcast v l k"
| "run_frame (Tid_locked_f t) k = allocate_tid t k"
| "run_frame (Create_tail_f t tid) k = create_tail t tid k"
| "run_frame (Create_loaded_f t) k = create_loaded t k"
| "run_frame (Create_ret_f t) k = create_ret t k"
| "run_frame Exec_ret_f k = exec_ret k"
| "run_frame Exit_children_f k = exit_children k"
| "run_frame (Exit_locks_f e) k = exit_locks e k"
| "run_frame (Exit_next_f l) k = exit_next l k"
| "run_frame Exit_tail_f k = exit_tail k"
| "run_frame (Wait_tail_f t) k = wait_tail t k"
| "run_frame Idle_loop_f k = idle_loop k"

definition resume :: "kernel \<Rightarrow> kernel option" where
  "resume k =
     do {
       c \<leftarrow> thread_current k;
       th \<leftarrow> thr k c;
       case cont th of
         [] \<Rightarrow> Some k
       | f # fs \<Rightarrow> run_frame f (upd c (\<lambda>th. th\<lparr>cont := fs\<rparr>) k)
     }"

text \<open>What the code of a thread can call, and the timer interrupt.\<close>

datatype event =
    Tick
  | Resume
  | Call_sema_init nat nat
  | Call_sema_down nat
  | Call_sema_up nat
  | Call_sema_try_down nat
  | Call_lock_acquire nat
  | Call_lock_try_acquire nat
  | Call_lock_release nat
  | Call_cond_wait nat nat
  | Call_cond_signal nat nat
  | Call_cond_broadcast nat nat
  | Call_yield
  | Call_set_priority int
  | Call_sleep int
  | Call_create "ptr option" int
  | Call_exec "ptr option"
  | Call_loaded bool
  | Call_wait int
  | Call_exit int
  | Call_idle nat

fun run_event :: "event \<Rightarrow> kernel \<Rightarrow> kernel option" where
  "run_event Tick k = intr_handler timer_interrupt k"
| "run_event Resume k = resume k"
| "run_event (Call_sema_init s v) k = Some (sema_init (User_sema s) (size_wrap v) k)"
| "run_event (Call_sema_down s) k = sema_down (User_sema s) k"
| "run_event (Call_sema_up s) k = sema_up (User_sema s) k"
| "run_event (Call_sema_try_down s) k = map_option snd (sema_try_down (User_sema s) k)"
| "run_event (Call_lock_acquire l) k = lock_acquire l k"
| "run_event (Call_lock_try_acquire l) k = map_option snd (lock_try_acquire l k)"
| "run_event (Call_lock_release l) k = lock_release l k"
| "run_event (Call_cond_wait v l) k = cond_wait v l k"
| "run_event (Call_cond_signal v l) k = cond_signal v l k"
| "run_event (Call_cond_broadcast v l) k = cond_broadcast v l k"
| "run_event Call_yield k = thread_yield k"
| "run_event (Call_set_priority p) k = thread_set_priority p k"
| "run_event (Call_sleep n) k = timer_sleep n k"
| "run_event (Call_create page p) k = thread_create page p k"
| "run_event (Call_exec page) k = process_execute page k"
| "run_event (Call_loaded b) k = start_process b k"
| "run_event (Call_wait tid) k = process_wait tid k"
| "run_event (Call_exit n) k =
     thread_exit (upd (cur k) (\<lambda>th. th\<lparr>exit_status := n\<rparr>) k)"
| "run_event (Call_idle s) k = idle (User_sema s) k"

definition pending :: "kernel \<Rightarrow> ptr \<Rightarrow> frame list" where
  "pending k t = (case thr k t of Some th \<Rightarrow> cont th | None \<Rightarrow> [])"

fun interrupts_off :: "frame list \<Rightarrow> bool" where
  "interrupts_off (Sema_retry_f s # fs) = True"
| "interrupts_off (Acquire_tail_f l # fs) = True"
| "interrupts_off fs = False"

text \<open>
  What the callers keep to: a page that \<^verbatim>\<open>palloc_get_page\<close> hands out is not the page of a
  thread, a semaphore is not initialised while threads wait for it, and there is one idle thread.
\<close>

fun call_ok :: "event \<Rightarrow> kernel \<Rightarrow> bool" where
  "call_ok (Call_create (Some t) p) k = (thr k t = None)"
| "call_ok (Call_exec (Some t)) k = (thr k t = None)"
| "call_ok (Call_sema_init s v) k = (waiters (semas k (User_sema s)) = [])"
| "call_ok (Call_idle s) k = (idle_thread k = None)"
| "call_ok e k = True"

definition enabled :: "event \<Rightarrow> kernel \<Rightarrow> bool" where
  "enabled e k =
     (case e of
        Tick \<Rightarrow> \<not> interrupts_off (pending k (cur k))
      | Resume \<Rightarrow> pending k (cur k) \<noteq> []
      | _ \<Rightarrow> pending k (cur k) = [] \<and> call_ok e k)"

text \<open>The state \<^verbatim>\<open>thread_init\<close> sets up, with the running code as its first thread.\<close>

definition boot :: "ptr \<Rightarrow> kernel" where
  "boot main =
     \<lparr>thr = [main \<mapsto> (new_thread PRI_DEFAULT)\<lparr>status := THREAD_RUNNING, t_tid := 1\<rparr>],
      cur = main, idle_thread = None, initial_thread = main, ready_list = [], all_list = [main],
      semas = (\<lambda>s. case s of Lock_sema l \<Rightarrow> \<lparr>sema_value = 1, waiters = []\<rparr>
                 | _ \<Rightarrow> \<lparr>sema_value = 0, waiters = []\<rparr>),
      locks = (\<lambda>l. \<lparr>holder = None, max_priority = 0, hold_next = Htail main\<rparr>),
      conds = (\<lambda>v. []), waiter_priority = (\<lambda>t. 0), next_tid = 2, sleep_list = [], ticks = 0,
      thread_ticks = 0, idle_ticks = 0, kernel_ticks = 0, user_ticks = 0,
      in_external_intr = False, yield_on_return = False\<rparr>"

inductive reachable :: "ptr \<Rightarrow> kernel \<Rightarrow> bool" for main where
  boot: "main \<noteq> NULL \<Longrightarrow> reachable main (boot main)"
| step: "reachable main k \<Longrightarrow> enabled e k \<Longrightarrow> run_event e k = Some k' \<Longrightarrow> reachable main k'"

end
