(* ===== verification/Kframe.thy ===== *)
theory Kframe
  imports Ksystem
begin

text \<open>
  What scheduling leaves alone. \<open>rest\<close> forgets the fields a switch of threads writes: the status of
  the threads, the ready list, the running thread and the time slice. Every operation of
  \<^verbatim>\<open>threads/synch.c\<close> is, up to \<open>rest\<close>, a plain assignment to semaphores, locks and threads.
\<close>

definition rest :: "kernel \<Rightarrow> kernel" where
  "rest k = k\<lparr>thr := (\<lambda>t. map_option (\<lambda>th. th\<lparr>status := THREAD_BLOCKED\<rparr>) (thr k t)),
      ready_list := [], cur := NULL, thread_ticks := 0, yield_on_return := False\<rparr>"

definition st :: "kernel \<Rightarrow> ptr \<Rightarrow> thread_status option" where
  "st k t = map_option status (thr k t)"

definition kids :: "kernel \<Rightarrow> ptr \<Rightarrow> ptr list" where
  "kids k t = (case thr k t of Some th \<Rightarrow> child_list th | None \<Rightarrow> [])"

definition held :: "kernel \<Rightarrow> ptr \<Rightarrow> nat list" where
  "held k t = (case thr k t of Some th \<Rightarrow> lock_holding th | None \<Rightarrow> [])"

lemma upd_kernel_fields [simp]:
  "cur (upd t f k) = cur k" "idle_thread (upd t f k) = idle_thread k"
  "initial_thread (upd t f k) = initial_thread k" "ready_list (upd t f k) = ready_list k"
  "all_list (upd t f k) = all_list k" "semas (upd t f k) = semas k" "locks (upd t f k) = locks k"
  "conds (upd t f k) = conds k" "waiter_priority (upd t f k) = waiter_priority k"
  "next_tid (upd t f k) = next_tid k" "sleep_list (upd t f k) = sleep_list k"
  "ticks (upd t f k) = ticks k" "in_external_intr (upd t f k) = in_external_intr k"
  "yield_on_return (upd t f k) = yield_on_return k"
  "thr (upd t f k) = (thr k)(t := map_option f (thr k t))"
  by (simp_all add: upd_def)

lemma set_sema_fields [simp]:
  "cur (set_sema s v k) = cur k" "idle_thread (set_sema s v k) = idle_thread k"
  "initial_thread (set_sema s v k) = initial_thread k" "ready_list (set_sema s v k) = ready_list k"
  "all_list (set_sema s v k) = all_list k" "semas (set_sema s v k) = (semas k)(s := v)"
  "locks (set_sema s v k) = locks k" "conds (set_sema s v k) = conds k"
  "waiter_priority (set_sema s v k) = waiter_priority k" "next_tid (set_sema s v k) = next_tid k"
  "sleep_list (set_sema s v k) = sleep_list k" "ticks (set_sema s v k) = ticks k"
  "in_external_intr (set_sema s v k) = in_external_intr k"
  "yield_on_return (set_sema s v k) = yield_on_return k" "thr (set_sema s v k) = thr k"
  by (simp_all add: set_sema_def)

lemma set_lock_fields [simp]:
  "cur (set_lock l f k) = cur k" "idle_thread (set_lock l f k) = idle_thread k"
  "initial_thread (set_lock l f k) = initial_thread k" "ready_list (set_lock l f k) = ready_list k"
  "all_list (set_lock l f k) = all_list k" "semas (set_lock l f k) = semas k"
  "locks (set_lock l f k) = (locks k)(l := f (locks k l))" "conds (set_lock l f k) = conds k"
  "waiter_priority (set_lock l f k) = waiter_priority k" "next_tid (set_lock l f k) = next_tid k"
  "sleep_list (set_lock l f k) = sleep_list k" "ticks (set_lock l f k) = ticks k"
  "in_external_intr (set_lock l f k) = in_external_intr k"
  "yield_on_return (set_lock l f k) = yield_on_return k" "thr (set_lock l f k) = thr k"
  by (simp_all add: set_lock_def)

text \<open>What can be read off the state up to scheduling.\<close>

lemma rest_eqD:
  assumes "rest k' = rest k"
  shows "semas k' = semas k" and "locks k' = locks k" and "conds k' = conds k"
    and "idle_thread k' = idle_thread k" and "initial_thread k' = initial_thread k"
    and "all_list k' = all_list k" and "sleep_list k' = sleep_list k" and "ticks k' = ticks k"
    and "next_tid k' = next_tid k" and "waiter_priority k' = waiter_priority k"
    and "in_external_intr k' = in_external_intr k" and "idle_ticks k' = idle_ticks k"
  using arg_cong [OF assms, of semas] arg_cong [OF assms, of locks] arg_cong [OF assms, of conds]
    arg_cong [OF assms, of idle_thread] arg_cong [OF assms, of initial_thread]
    arg_cong [OF assms, of all_list] arg_cong [OF assms, of sleep_list] arg_cong [OF assms, of ticks]
    arg_cong [OF assms, of next_tid] arg_cong [OF assms, of waiter_priority]
    arg_cong [OF assms, of in_external_intr] arg_cong [OF assms, of idle_ticks]
  by (simp_all add: rest_def)

lemma rest_eq_thr:
  assumes "rest k' = rest k"
  shows "map_option (\<lambda>th. th\<lparr>status := THREAD_BLOCKED\<rparr>) (thr k' t) =
    map_option (\<lambda>th. th\<lparr>status := THREAD_BLOCKED\<rparr>) (thr k t)"
  using fun_cong [OF arg_cong [OF assms, of thr], of t] by (simp add: rest_def)

lemma rest_eq_thread:
  assumes "rest k' = rest k" and "thr k t = Some th"
  obtains s where "thr k' t = Some (th\<lparr>status := s\<rparr>)"
proof -
  obtain th' where th': "thr k' t = Some th'"
    "th'\<lparr>status := THREAD_BLOCKED\<rparr> = th\<lparr>status := THREAD_BLOCKED\<rparr>"
    using rest_eq_thr [OF assms(1), of t] assms(2) by (cases "thr k' t") auto
  have "th' = th\<lparr>status := status th'\<rparr>"
    using arg_cong [OF th'(2), of "\<lambda>x. x\<lparr>status := status th'\<rparr>"] by simp
  with th'(1) that show thesis by auto
qed

lemma rest_eq_None: "rest k' = rest k \<Longrightarrow> thr k' t = None \<longleftrightarrow> thr k t = None"
  using rest_eq_thr [of k' k t] by auto

lemma rest_eq_NoneD: "rest k' = rest k \<Longrightarrow> thr k t = None \<Longrightarrow> thr k' t = None"
  using rest_eq_None by blast

lemma rest_eq_views:
  assumes "rest k' = rest k"
  shows "pending k' t = pending k t" and "kids k' t = kids k t" and "held k' t = held k t"
    and "prio k' t = prio k t" and "dom (thr k') = dom (thr k)" and "is_thread t k' = is_thread t k"
    and "wake_time k' t = wake_time k t" and "compare_priorities k' = compare_priorities k"
proof -
  have p: "prio k' u = prio k u" for u
    by (cases "thr k u") (auto elim: rest_eq_thread [OF assms] simp: prio_def rest_eq_NoneD [OF assms])
  show "pending k' t = pending k t" "kids k' t = kids k t" "held k' t = held k t"
    "prio k' t = prio k t" "is_thread t k' = is_thread t k" "wake_time k' t = wake_time k t"
    by (cases "thr k t"; auto elim: rest_eq_thread [OF assms]
        simp: pending_def kids_def held_def p is_thread_def wake_time_def rest_eq_NoneD [OF assms])+
  show "dom (thr k') = dom (thr k)" by (auto simp: dom_def rest_eq_None [OF assms])
  show "compare_priorities k' = compare_priorities k"
    by (auto simp: compare_priorities_def fun_eq_iff p)
qed

lemma rest_status [simp]:
  "rest (upd t (\<lambda>th. th\<lparr>status := s\<rparr>) k) = rest k"
  "rest (k\<lparr>ready_list := r\<rparr>) = rest k" "rest (k\<lparr>cur := c\<rparr>) = rest k"
  "rest (k\<lparr>thread_ticks := n\<rparr>) = rest k" "rest (k\<lparr>yield_on_return := b\<rparr>) = rest k"
  by (auto simp: rest_def upd_def fun_eq_iff option.map_comp o_def)

text \<open>Scheduling keeps the rest.\<close>

lemma thread_current_eq [simp]:
  "thread_current k = (if st k (cur k) = Some THREAD_RUNNING then Some (cur k) else None)"
  by (auto simp: thread_current_def running_thread_def is_thread_def st_def ASSERT_def
      Let_def split: Option.bind_splits if_splits)

lemma schedule_alive:
  assumes "schedule k = Some k'" and "st k (cur k) \<noteq> Some THREAD_DYING"
  obtains n where "fst (next_thread_to_run k) = Some n" and "is_thread n k"
    and "k' = (upd n (\<lambda>th. th\<lparr>status := THREAD_RUNNING\<rparr>) k)
           \<lparr>ready_list := tl (ready_list k), cur := n, thread_ticks := 0\<rparr>"
    and "st k (cur k) \<noteq> Some THREAD_RUNNING" and "st k (cur k) \<noteq> None"
proof -
  obtain nxt k1 where nx: "next_thread_to_run k = (nxt, k1)" by force
  then have k1: "k1 = k\<lparr>ready_list := tl (ready_list k)\<rparr>"
    by (auto simp: next_thread_to_run_def split: list.splits)
  then show thesis
    using assms that nx
    by (auto simp: schedule_def thread_schedule_tail_def running_thread_def st_def is_thread_def
        upd_def ASSERT_def Let_def split: Option.bind_splits if_splits option.splits)
qed

lemma schedule_rest:
  "schedule k = Some k' \<Longrightarrow> st k (cur k) \<noteq> Some THREAD_DYING \<Longrightarrow> rest k' = rest k"
  by (erule schedule_alive) simp_all

lemma st_upd_status [simp]:
  "st (upd t (\<lambda>th. th\<lparr>status := s\<rparr>) k) u = (if u = t then map_option (\<lambda>_. s) (st k t) else st k u)"
  by (simp add: st_def option.map_comp o_def)

lemma st_fields [simp]:
  "st (k\<lparr>ready_list := r\<rparr>) = st k" "st (k\<lparr>cur := c\<rparr>) = st k" "st (k\<lparr>thread_ticks := n\<rparr>) = st k"
  "st (k\<lparr>yield_on_return := b\<rparr>) = st k" "st (set_sema s v k) = st k" "st (set_lock l f k) = st k"
  by (simp_all add: st_def fun_eq_iff)

lemma thread_block_schedule:
  "thread_block k = Some k' \<longleftrightarrow> \<not> in_external_intr k \<and> st k (cur k) = Some THREAD_RUNNING \<and>
     schedule (upd (cur k) (\<lambda>th. th\<lparr>status := THREAD_BLOCKED\<rparr>) k) = Some k'"
  by (auto simp: thread_block_def ASSERT_def split: Option.bind_splits if_splits)

lemma thread_yield_schedule:
  "thread_yield k = Some k' \<longleftrightarrow> st k (cur k) = Some THREAD_RUNNING \<and> \<not> in_external_intr k \<and>
     schedule (upd (cur k) (\<lambda>th. th\<lparr>status := THREAD_READY\<rparr>)
       (if Some (cur k) \<noteq> idle_thread k
        then k\<lparr>ready_list := insert_seq (compare_priorities k) (cur k) (ready_list k)\<rparr> else k)) = Some k'"
  by (auto simp: thread_yield_def ASSERT_def Let_def split: Option.bind_splits if_splits)

lemma thread_unblock_eq:
  "thread_unblock t k = Some k' \<longleftrightarrow> st k t = Some THREAD_BLOCKED \<and>
     k' = upd t (\<lambda>th. th\<lparr>status := THREAD_READY\<rparr>)
            (k\<lparr>ready_list := insert_seq (compare_priorities k) t (ready_list k)\<rparr>)"
  by (auto simp: thread_unblock_def ASSERT_def is_thread_def st_def split: Option.bind_splits if_splits)

lemma thread_block_rest: "thread_block k = Some k' \<Longrightarrow> rest k' = rest k"
  by (auto simp: thread_block_schedule dest!: schedule_rest)

lemma thread_yield_rest: "thread_yield k = Some k' \<Longrightarrow> rest k' = rest k"
  by (cases "Some (cur k) = idle_thread k") (auto simp: thread_yield_schedule dest!: schedule_rest)

lemma thread_unblock_rest: "thread_unblock t k = Some k' \<Longrightarrow> rest k' = rest k"
  by (auto simp: thread_unblock_eq)

lemma check_preemption_eq:
  "check_preemption k =
     (case ready_list k of
        [] \<Rightarrow> Some k
      | t # _ \<Rightarrow>
          if is_thread t k \<and> st k (cur k) = Some THREAD_RUNNING
          then (if prio k t > prio k (cur k)
                then (if in_external_intr k then Some (k\<lparr>yield_on_return := True\<rparr>) else thread_yield k)
                else Some k)
          else None)"
  by (auto simp: check_preemption_def is_thread_def prio_def intr_yield_on_return_def
      split: list.split option.split)

lemma check_preemption_cases:
  assumes "check_preemption k = Some k'"
  obtains (stay) "k' = k" | (yield) "thread_yield k = Some k'" "\<not> in_external_intr k"
  | (later) "k' = k\<lparr>yield_on_return := True\<rparr>" "in_external_intr k"
proof -
  have "k' = k \<or> thread_yield k = Some k' \<and> \<not> in_external_intr k \<or>
    k' = k\<lparr>yield_on_return := True\<rparr> \<and> in_external_intr k"
    using assms by (simp add: check_preemption_eq split: list.splits if_splits)
  with that show thesis by blast
qed

lemma check_preemption_rest: "check_preemption k = Some k' \<Longrightarrow> rest k' = rest k"
  by (erule check_preemption_cases) (simp_all add: thread_yield_rest)

text \<open>The value a semaphore gets and the waiters it keeps when it is raised.\<close>

definition raised :: "kernel \<Rightarrow> sid \<Rightarrow> semaphore" where
  "raised k s = \<lparr>sema_value = size_wrap (sema_value (semas k s) + 1),
     waiters = tl (sort_seq (compare_priorities k) (waiters (semas k s)))\<rparr>"

lemma rest_set_sema:
  "rest (set_sema s v k) = set_sema s v (rest k)"
  by (simp add: rest_def set_sema_def)

lemma set_sema_twice [simp]: "set_sema s v (set_sema s w k) = set_sema s v k"
  by (simp add: set_sema_def)

lemma rest_upd:
  assumes "\<And>th b. f (th\<lparr>status := b\<rparr>) = (f th)\<lparr>status := b\<rparr>"
  shows "rest (upd t f k) = upd t f (rest k)"
  using assms by (auto simp: rest_def upd_def option.map_comp o_def fun_eq_iff)

lemma rest_set_lock: "rest (set_lock l f k) = set_lock l f (rest k)"
  by (simp add: rest_def set_lock_def)

lemma sema_wake_rest:
  assumes "sema_wake s k = Some k'"
  shows "rest k' = rest (set_sema s ((semas k s)\<lparr>waiters :=
    tl (sort_seq (compare_priorities k) (waiters (semas k s)))\<rparr>) k)"
proof (cases "sort_seq (compare_priorities k) (waiters (semas k s))")
  case Nil
  have "sort_seq lessf xs = [] \<Longrightarrow> xs = []" for lessf :: "ptr \<Rightarrow> ptr \<Rightarrow> bool" and xs
    by (cases xs rule: rev_cases) (auto simp: sort_seq_def)
  with Nil have "waiters (semas k s) = []" by blast
  then have "(semas k s)\<lparr>waiters := []\<rparr> = semas k s" by (cases "semas k s") simp
  then show ?thesis using Nil assms by (simp add: sema_wake_def set_sema_def fun_upd_idem)
next
  case (Cons t ts)
  then show ?thesis using assms thread_unblock_rest by (simp add: sema_wake_def)
qed

lemma sema_up_rest:
  assumes "sema_up s k = Some k'"
  shows "rest k' = rest (set_sema s (raised k s) k)"
proof -
  obtain k1 where w: "sema_wake s k = Some k1" and c: "check_preemption (set_sema s
      ((semas k1 s)\<lparr>sema_value := size_wrap (sema_value (semas k1 s) + 1)\<rparr>) k1) = Some k'"
    using assms by (auto simp: sema_up_def Let_def split: Option.bind_splits)
  have r: "rest k1 = rest (set_sema s ((semas k s)\<lparr>waiters :=
      tl (sort_seq (compare_priorities k) (waiters (semas k s)))\<rparr>) k)"
    by (rule sema_wake_rest [OF w])
  have "semas k1 s = (semas k s)\<lparr>waiters := tl (sort_seq (compare_priorities k) (waiters (semas k s)))\<rparr>"
    using rest_eqD(1) [OF r] by simp
  then show ?thesis
    using check_preemption_rest [OF c] r
    by (cases "semas k s") (simp add: rest_set_sema raised_def)
qed

lemma sema_down_cases:
  assumes "sema_down s k = Some k'"
  obtains (pass) "sema_value (semas k s) > 0"
      "k' = set_sema s ((semas k s)\<lparr>sema_value := sema_value (semas k s) - 1\<rparr>) k"
  | (sleep) "sema_value (semas k s) = 0" "st k (cur k) = Some THREAD_RUNNING"
      "thread_block (push_cont (Sema_retry_f s) (set_sema s ((semas k s)\<lparr>waiters :=
        insert_seq (compare_priorities k) (cur k) (waiters (semas k s))\<rparr>) k)) = Some k'"
  using assms
  by (auto simp: sema_down_def ASSERT_def Let_def split: if_splits Option.bind_splits)

end
