(* ===== verification/Kplace.thy ===== *)
theory Kplace
  imports Kframe
begin

text \<open>
  Where the threads are. In every state between two steps exactly one thread runs, the ready list
  holds exactly the ready threads other than the idle thread, each once, and the waiters of a
  semaphore are exactly the blocked threads that stand in the loop of \<^verbatim>\<open>sema_down\<close> on it. So
  a thread is never in two lists, which the shared \<^verbatim>\<open>elem\<close> member needs.
\<close>

definition in_loop :: "kernel \<Rightarrow> ptr \<Rightarrow> sid \<Rightarrow> bool" where
  "in_loop k t s \<longleftrightarrow> (\<exists>r. pending k t = Sema_retry_f s # r)"

definition queued :: "kernel \<Rightarrow> bool" where
  "queued k \<longleftrightarrow>
     distinct (ready_list k) \<and>
     (\<forall>t. t \<in> set (ready_list k) \<longleftrightarrow> st k t = Some THREAD_READY \<and> idle_thread k \<noteq> Some t) \<and>
     (\<forall>s. distinct (waiters (semas k s))) \<and>
     (\<forall>s t. t \<in> set (waiters (semas k s)) \<longleftrightarrow> st k t = Some THREAD_BLOCKED \<and> in_loop k t s) \<and>
     (\<forall>t s. idle_thread k = Some t \<longrightarrow> \<not> in_loop k t s)"

definition one_runs :: "kernel \<Rightarrow> bool" where
  "one_runs k \<longleftrightarrow> (\<forall>t. st k t = Some THREAD_RUNNING \<longleftrightarrow> t = cur k)"

definition placed :: "kernel \<Rightarrow> bool" where
  "placed k \<longleftrightarrow> queued k \<and> one_runs k"

lemma placed_cur: "placed k \<Longrightarrow> st k (cur k) = Some THREAD_RUNNING"
  by (simp add: placed_def one_runs_def)

lemma queuedD:
  assumes "queued k"
  shows "distinct (ready_list k)" and "distinct (waiters (semas k s))"
    and "t \<in> set (ready_list k) \<longleftrightarrow> st k t = Some THREAD_READY \<and> idle_thread k \<noteq> Some t"
    and "t \<in> set (waiters (semas k s)) \<longleftrightarrow> st k t = Some THREAD_BLOCKED \<and> in_loop k t s"
    and "idle_thread k = Some t \<Longrightarrow> \<not> in_loop k t s"
  using assms by (auto simp: queued_def)

lemma in_loop_cong: "pending k' t = pending k t \<Longrightarrow> in_loop k' t s = in_loop k t s"
  by (simp add: in_loop_def)

lemma pending_fields [simp]:
  "pending (k\<lparr>ready_list := r\<rparr>) = pending k" "pending (k\<lparr>cur := c\<rparr>) = pending k"
  "pending (k\<lparr>thread_ticks := n\<rparr>) = pending k" "pending (k\<lparr>yield_on_return := b\<rparr>) = pending k"
  "pending (set_sema s v k) = pending k" "pending (set_lock l f k) = pending k"
  by (simp_all add: pending_def fun_eq_iff)

lemma pending_upd:
  "pending (upd t f k) u =
     (if u = t then (case thr k t of Some th \<Rightarrow> cont (f th) | None \<Rightarrow> []) else pending k u)"
  by (simp add: pending_def split: option.split)

lemma pending_upd_same [simp]:
  "(\<And>th. cont (f th) = cont th) \<Longrightarrow> pending (upd t f k) = pending k"
  by (auto simp: fun_eq_iff pending_upd) (simp add: pending_def split: option.split)

lemma st_upd_same [simp]:
  "(\<And>th. status (f th) = status th) \<Longrightarrow> st (upd t f k) = st k"
  by (auto simp: fun_eq_iff st_def option.map_comp o_def)

lemma pending_push [simp]:
  "pending (push_cont f k) u = (if u = cur k \<and> is_thread u k then f # pending k u else pending k u)"
  by (auto simp: push_cont_def pending_upd) (auto simp: pending_def is_thread_def split: option.splits)

lemma push_fields [simp]:
  "cur (push_cont f k) = cur k" "idle_thread (push_cont f k) = idle_thread k"
  "initial_thread (push_cont f k) = initial_thread k" "ready_list (push_cont f k) = ready_list k"
  "all_list (push_cont f k) = all_list k" "semas (push_cont f k) = semas k"
  "locks (push_cont f k) = locks k" "conds (push_cont f k) = conds k"
  "waiter_priority (push_cont f k) = waiter_priority k" "next_tid (push_cont f k) = next_tid k"
  "sleep_list (push_cont f k) = sleep_list k" "ticks (push_cont f k) = ticks k"
  "in_external_intr (push_cont f k) = in_external_intr k"
  "yield_on_return (push_cont f k) = yield_on_return k" "st (push_cont f k) = st k"
  by (simp_all add: push_cont_def)

lemma is_thread_st: "is_thread t k \<longleftrightarrow> st k t \<noteq> None"
  by (simp add: is_thread_def st_def)

text \<open>A change that keeps statuses, queues and the calls of all threads but the running one keeps the placement.\<close>

lemma placed_cong:
  assumes "placed k" and "st k' = st k" and "ready_list k' = ready_list k" and "cur k' = cur k"
    and "idle_thread k' = idle_thread k" and "\<And>s. waiters (semas k' s) = waiters (semas k s)"
    and "\<And>t. t \<noteq> cur k \<Longrightarrow> pending k' t = pending k t"
    and "\<And>s. idle_thread k = Some (cur k) \<Longrightarrow> \<not> in_loop k' (cur k) s"
  shows "placed k'"
proof -
  have loop: "t \<noteq> cur k \<Longrightarrow> in_loop k' t s = in_loop k t s" for t s
    by (rule in_loop_cong) (rule assms(7))
  have run: "st k (cur k) = Some THREAD_RUNNING" by (rule placed_cur [OF assms(1)])
  have "(st k t = Some THREAD_BLOCKED \<and> in_loop k' t s) = (st k t = Some THREAD_BLOCKED \<and> in_loop k t s)" for s t
    using loop run by (cases "t = cur k") auto
  moreover have "idle_thread k = Some t \<longrightarrow> \<not> in_loop k' t s" for t s
    using assms(1,8) loop by (cases "t = cur k") (auto simp: placed_def queued_def)
  ultimately show ?thesis
    using assms(1-6) unfolding placed_def queued_def one_runs_def by simp
qed

lemma placed_keep:
  assumes "placed k" and "st k' = st k" and "ready_list k' = ready_list k" and "cur k' = cur k"
    and "idle_thread k' = idle_thread k" and "\<And>s. waiters (semas k' s) = waiters (semas k s)"
    and "pending k' = pending k"
  shows "placed k'"
proof (rule placed_cong [OF assms(1-6)])
  show "\<not> in_loop k' (cur k) s" if "idle_thread k = Some (cur k)" for s
    using assms(1,7) that by (auto simp: in_loop_def placed_def queued_def)
qed (use assms(7) in auto)

lemma schedule_placed:
  assumes "schedule k = Some k'" and "queued k" and "\<And>t. st k t \<noteq> Some THREAD_RUNNING"
    and "st k (cur k) \<noteq> Some THREAD_DYING"
  shows "placed k'"
proof -
  obtain n where n: "fst (next_thread_to_run k) = Some n" "is_thread n k"
    and k': "k' = (upd n (\<lambda>th. th\<lparr>status := THREAD_RUNNING\<rparr>) k)
      \<lparr>ready_list := tl (ready_list k), cur := n, thread_ticks := 0\<rparr>"
    using schedule_alive [OF assms(1,4)] by metis
  have st: "st k' t = (if t = n then Some THREAD_RUNNING else st k t)" for t
    using n(2) by (auto simp: k' is_thread_st)
  have loop: "in_loop k' t s = in_loop k t s" for t s
    by (rule in_loop_cong) (simp add: k')
  have run: "one_runs k'" using assms(3) by (auto simp: one_runs_def st) (simp_all add: k')
  have not_waiting: "n \<notin> set (waiters (semas k s))" for s
    using n(1) queuedD(3) [OF assms(2), of n] queuedD(4) [OF assms(2), of n s]
      queuedD(5) [OF assms(2), of n s]
    by (cases "ready_list k") (simp_all add: next_thread_to_run_def)
  have rdy: "t \<in> set (tl (ready_list k)) \<longleftrightarrow> t \<noteq> n \<and> st k t = Some THREAD_READY \<and> idle_thread k \<noteq> Some t" for t
    using n(1) queuedD(1) [OF assms(2)] queuedD(3) [OF assms(2), of t]
    by (cases "ready_list k") (auto simp: next_thread_to_run_def)
  have fields: "ready_list k' = tl (ready_list k)" "idle_thread k' = idle_thread k" "semas k' = semas k"
    by (simp_all add: k')
  have wai: "t \<in> set (waiters (semas k s)) \<longleftrightarrow> st k' t = Some THREAD_BLOCKED \<and> in_loop k t s" for t s
    using assms(2) not_waiting [of s] by (auto simp: queued_def st)
  have "queued k'"
    unfolding queued_def fields loop rdy using assms(2) wai
    by (auto simp: queued_def st distinct_tl)
  with run show ?thesis by (simp add: placed_def)
qed

section \<open>The operations keep the placement\<close>

lemma mset_sort_seq [simp]: "mset (sort_seq lessf xs) = mset xs"
proof -
  have "mset (fold (insert_seq lessf) xs ys) = mset xs + mset ys" for ys
    by (induction xs arbitrary: ys) auto
  then show ?thesis by (simp add: sort_seq_def)
qed

lemma sort_seq_Nil [simp]: "sort_seq lessf [] = []"
  by (simp add: sort_seq_def)

lemma sort_seq_simps [simp]:
  "set (sort_seq lessf xs) = set xs" "distinct (sort_seq lessf xs) = distinct xs"
  "length (sort_seq lessf xs) = length xs" "sort_seq lessf xs = [] \<longleftrightarrow> xs = []"
  using mset_sort_seq [of lessf xs]
  by (metis set_mset_mset, metis mset_eq_imp_distinct_iff, metis size_mset, metis mset_zero_iff)

text \<open>The queues just before a switch: the running thread has given up the processor.\<close>

lemma queued_yield:
  assumes "placed k"
  shows "queued (upd (cur k) (\<lambda>th. th\<lparr>status := THREAD_READY\<rparr>)
    (if Some (cur k) \<noteq> idle_thread k
     then k\<lparr>ready_list := insert_seq (compare_priorities k) (cur k) (ready_list k)\<rparr> else k))"
    (is "queued ?k1")
proof -
  have q: "queued k" and c: "st k (cur k) = Some THREAD_RUNNING"
    using assms placed_cur by (auto simp: placed_def)
  have st: "st ?k1 t = (if t = cur k then Some THREAD_READY else st k t)" for t
    using c by simp
  have loop: "in_loop ?k1 t s = in_loop k t s" for t s
    by (rule in_loop_cong) simp
  have f: "idle_thread ?k1 = idle_thread k" "semas ?k1 = semas k" by simp_all
  have ready: "set (ready_list ?k1) = (if Some (cur k) = idle_thread k then {} else {cur k}) \<union> set (ready_list k)"
    "distinct (ready_list ?k1)"
    using queuedD(1) [OF q] queuedD(3) [OF q, of "cur k"] c by auto
  show ?thesis
    unfolding queued_def f loop st ready(1)
    using ready(2) queuedD [OF q] c by auto
qed

lemma queued_block:
  assumes "placed k" and "\<And>s. \<not> in_loop k (cur k) s"
  shows "queued (upd (cur k) (\<lambda>th. th\<lparr>status := THREAD_BLOCKED\<rparr>) k)" (is "queued ?k1")
proof -
  have q: "queued k" and c: "st k (cur k) = Some THREAD_RUNNING"
    using assms placed_cur by (auto simp: placed_def)
  have st: "st ?k1 t = (if t = cur k then Some THREAD_BLOCKED else st k t)" for t
    using c by simp
  have loop: "in_loop ?k1 t s = in_loop k t s" for t s
    by (rule in_loop_cong) simp
  have f: "idle_thread ?k1 = idle_thread k" "semas ?k1 = semas k" "ready_list ?k1 = ready_list k"
    by simp_all
  show ?thesis
    unfolding queued_def f loop st using queuedD [OF q] c assms(2) by auto
qed

lemma queued_sleep:
  assumes "placed k" and "idle_thread k \<noteq> Some (cur k)"
  shows "queued (upd (cur k) (\<lambda>th. th\<lparr>status := THREAD_BLOCKED\<rparr>)
    (push_cont (Sema_retry_f s) (set_sema s ((semas k s)\<lparr>waiters :=
       insert_seq (compare_priorities k) (cur k) (waiters (semas k s))\<rparr>) k)))" (is "queued ?k1")
proof -
  have q: "queued k" and c: "st k (cur k) = Some THREAD_RUNNING"
    using assms placed_cur by (auto simp: placed_def)
  have st: "st ?k1 t = (if t = cur k then Some THREAD_BLOCKED else st k t)" for t using c by simp
  have loop: "in_loop ?k1 t s' = (if t = cur k then s' = s else in_loop k t s')" for t s'
    using c by (auto simp: in_loop_def is_thread_def st_def)
  have f: "ready_list ?k1 = ready_list k" "idle_thread ?k1 = idle_thread k" by simp_all
  have w: "set (waiters (semas ?k1 s')) = (if s' = s then {cur k} else {}) \<union> set (waiters (semas k s'))"
    "distinct (waiters (semas ?k1 s'))" for s'
    using queuedD(4) [OF q, of "cur k" s] queuedD(2) [OF q] c by auto
  show ?thesis
    unfolding queued_def f loop st w(1)
    using w(2) queuedD [OF q] c assms(2) by auto
qed

text \<open>After the running thread has given up the processor none has the status of a running one.\<close>

lemma none_runs:
  "placed k \<Longrightarrow> s \<noteq> THREAD_RUNNING \<Longrightarrow> st k' = st k \<Longrightarrow> cur k' = cur k \<Longrightarrow>
     st (upd (cur k) (\<lambda>th. th\<lparr>status := s\<rparr>) k') t \<noteq> Some THREAD_RUNNING"
  by (auto simp: placed_def one_runs_def)

lemma none_dying:
  "placed k \<Longrightarrow> s \<noteq> THREAD_DYING \<Longrightarrow> st k' = st k \<Longrightarrow> cur k' = cur k \<Longrightarrow>
     st (upd (cur k) (\<lambda>th. th\<lparr>status := s\<rparr>) k') (cur k) \<noteq> Some THREAD_DYING"
  by (auto dest: placed_cur)

lemma thread_yield_placed:
  assumes "thread_yield k = Some k'" and "placed k"
  shows "placed k'"
proof (rule schedule_placed)
  show "queued (upd (cur k) (\<lambda>th. th\<lparr>status := THREAD_READY\<rparr>)
    (if Some (cur k) \<noteq> idle_thread k
     then k\<lparr>ready_list := insert_seq (compare_priorities k) (cur k) (ready_list k)\<rparr> else k))"
    by (rule queued_yield [OF assms(2)])
  show "schedule (upd (cur k) (\<lambda>th. th\<lparr>status := THREAD_READY\<rparr>)
    (if Some (cur k) \<noteq> idle_thread k
     then k\<lparr>ready_list := insert_seq (compare_priorities k) (cur k) (ready_list k)\<rparr> else k)) = Some k'"
    using assms(1) by (simp add: thread_yield_schedule)
qed (use none_runs [OF assms(2)] none_dying [OF assms(2)] in simp_all)

lemma check_preemption_placed:
  assumes "check_preemption k = Some k'" and "placed k"
  shows "placed k'"
  using assms(1)
proof (cases rule: check_preemption_cases)
  case later
  then show ?thesis by (intro placed_keep [OF assms(2)]) simp_all
qed (use assms(2) thread_yield_placed in auto)

text \<open>A blocked thread that is in no list is put on the ready list.\<close>

lemma thread_unblock_placed:
  assumes "thread_unblock t k = Some k'" and "one_runs k" and "distinct (ready_list k)"
    and "\<And>u. u \<in> set (ready_list k) \<longleftrightarrow> st k u = Some THREAD_READY \<and> idle_thread k \<noteq> Some u"
    and "\<And>s. distinct (waiters (semas k s))"
    and "\<And>u s. u \<in> set (waiters (semas k s)) \<longleftrightarrow> u \<noteq> t \<and> st k u = Some THREAD_BLOCKED \<and> in_loop k u s"
    and "\<And>u s. idle_thread k = Some u \<Longrightarrow> \<not> in_loop k u s" and "idle_thread k \<noteq> Some t"
  shows "placed k'"
proof -
  have b: "st k t = Some THREAD_BLOCKED" and k': "k' = upd t (\<lambda>th. th\<lparr>status := THREAD_READY\<rparr>)
      (k\<lparr>ready_list := insert_seq (compare_priorities k) t (ready_list k)\<rparr>)"
    using assms(1) by (auto simp: thread_unblock_eq)
  have st: "st k' u = (if u = t then Some THREAD_READY else st k u)" for u
    using b by (simp add: k')
  have loop: "in_loop k' u s = in_loop k u s" for u s
    by (rule in_loop_cong) (simp add: k')
  have f: "idle_thread k' = idle_thread k" "semas k' = semas k" "cur k' = cur k"
    "set (ready_list k') = insert t (set (ready_list k))" "distinct (ready_list k')"
    using b assms(3,4) by (simp_all add: k')
  have "t \<noteq> cur k" using assms(2) b by (auto simp: one_runs_def dest: spec [of _ "cur k"])
  then have "one_runs k'" using assms(2) by (simp add: one_runs_def st f)
  then show ?thesis
    unfolding placed_def queued_def f loop st
    using f(5) assms(4-8) by auto
qed

lemma sema_wake_placed:
  assumes "sema_wake s k = Some k'" and "placed k"
  shows "placed k'"
proof (cases "sort_seq (compare_priorities k) (waiters (semas k s))")
  case Nil
  then show ?thesis using assms by (simp add: sema_wake_def)
next
  case (Cons t ts)
  let ?k = "set_sema s ((semas k s)\<lparr>waiters := ts\<rparr>) k"
  have q: "queued k" and run: "one_runs k" using assms(2) by (auto simp: placed_def)
  have ts: "set (waiters (semas k s)) = insert t (set ts)" "t \<notin> set ts" "distinct ts"
    using arg_cong [OF Cons, of set] arg_cong [OF Cons, of distinct] queuedD(2) [OF q, of s] by auto
  have t: "st k t = Some THREAD_BLOCKED" "in_loop k t s" using queuedD(4) [OF q, of t s] ts by auto
  have loop: "in_loop ?k u s' = in_loop k u s'" for u s' by (rule in_loop_cong) simp
  have other: "\<not> in_loop k t s'" if "s' \<noteq> s" for s' using t(2) that by (auto simp: in_loop_def)
  have w: "u \<in> set (waiters (semas ?k s')) \<longleftrightarrow> u \<noteq> t \<and> st ?k u = Some THREAD_BLOCKED \<and> in_loop ?k u s'"
    for u s'
    unfolding loop using ts other [of s'] queuedD(4) [OF q, of u s'] by (cases "s' = s") auto
  have u: "thread_unblock t ?k = Some k'" using assms(1) Cons by (simp add: sema_wake_def)
  show ?thesis
  proof (rule thread_unblock_placed [OF u _ _ _ _ w])
    show "one_runs ?k" using run by (simp add: one_runs_def)
    show "idle_thread ?k \<noteq> Some t" using t(2) queuedD(5) [OF q, of t s] by auto
    show "\<not> in_loop ?k u s'" if "idle_thread ?k = Some u" for u s'
      unfolding loop using queuedD(5) [OF q, of u s'] that by simp
  qed (use queuedD(1-3) [OF q] ts(3) in simp_all)
qed

lemma sema_up_placed:
  assumes "sema_up s k = Some k'" and "placed k"
  shows "placed k'"
proof -
  obtain k1 where w: "sema_wake s k = Some k1" and c: "check_preemption (set_sema s
      ((semas k1 s)\<lparr>sema_value := size_wrap (sema_value (semas k1 s) + 1)\<rparr>) k1) = Some k'"
    using assms by (auto simp: sema_up_def Let_def split: Option.bind_splits)
  have "placed k1" by (rule sema_wake_placed [OF w assms(2)])
  then have "placed (set_sema s ((semas k1 s)\<lparr>sema_value := size_wrap (sema_value (semas k1 s) + 1)\<rparr>) k1)"
    by (rule placed_keep) simp_all
  then show ?thesis by (rule check_preemption_placed [OF c])
qed

lemma sema_down_placed:
  assumes "sema_down s k = Some k'" and "placed k" and "idle_thread k \<noteq> Some (cur k)"
  shows "placed k'"
  using assms(1)
proof (cases rule: sema_down_cases)
  case pass
  then show ?thesis by (intro placed_keep [OF assms(2)]) simp_all
next
  case sleep
  show ?thesis
    using sleep(3) none_runs [OF assms(2)] none_dying [OF assms(2)]
    by (intro schedule_placed [OF _ queued_sleep [OF assms(2,3), of s]])
      (simp_all add: thread_block_schedule)
qed

text \<open>Donation writes priorities only.\<close>

definition donated :: "kernel \<Rightarrow> kernel \<Rightarrow> bool" where
  "donated k k' \<longleftrightarrow> k'\<lparr>thr := thr k, locks := locks k\<rparr> = k \<and>
     (\<forall>t. map_option (\<lambda>th. th\<lparr>priority := 0\<rparr>) (thr k' t) = map_option (\<lambda>th. th\<lparr>priority := 0\<rparr>) (thr k t)) \<and>
     (\<forall>l. (locks k' l)\<lparr>max_priority := 0\<rparr> = (locks k l)\<lparr>max_priority := 0\<rparr>)"

lemma donated_refl: "donated k k"
  by (simp add: donated_def)

lemma donated_trans:
  assumes "donated k k1" and "donated k1 k2"
  shows "donated k k2"
proof -
  have "k2\<lparr>thr := thr k, locks := locks k\<rparr> = (k2\<lparr>thr := thr k1, locks := locks k1\<rparr>)\<lparr>thr := thr k, locks := locks k\<rparr>"
    by simp
  also have "\<dots> = k" using assms by (simp add: donated_def)
  finally show ?thesis using assms unfolding donated_def by simp
qed

lemma donated_step:
  "donated k (upd h (\<lambda>th. th\<lparr>priority := p\<rparr>) k)"
  "donated k (set_lock l (\<lambda>lk. lk\<lparr>max_priority := p\<rparr>) k)"
  by (auto simp: donated_def option.map_comp o_def) (simp_all add: upd_def set_lock_def)

lemma donate_donated:
  assumes "donate l t k = Some k'"
  shows "donated k k'"
proof (rule donate.raw_induct [of "\<lambda>l t. donated", OF _ assms])
  fix D l t k k'
  assume IH: "\<And>l t k k'. D l t k = Some k' \<Longrightarrow> donated k k'"
    and "(case t of None \<Rightarrow> Some k
      | Some h \<Rightarrow> thread_current k \<bind> (\<lambda>c. thr k h \<bind> (\<lambda>th.
          if priority th < prio k c
          then let p = prio k c; k = upd h (\<lambda>th. th\<lparr>priority := p\<rparr>) k;
                   k = if max_priority (locks k l) < p then set_lock l (\<lambda>lk. lk\<lparr>max_priority := p\<rparr>) k else k
               in case lock_waiting th of [] \<Rightarrow> Some k | l' # xa \<Rightarrow> D l' (holder (locks k l')) k
          else Some k))) = Some k'"
  then show "donated k k'"
    by (auto simp: Let_def donated_refl split: option.splits Option.bind_splits if_splits list.splits
        dest!: IH intro: donated_trans [OF donated_trans [OF donated_step(1) donated_step(2)]]
          donated_trans [OF donated_step(1)] donated_step)
qed

end
