(* ===== verification/Kinv.thy ===== *)
theory Kinv
  imports Kplace
begin

text \<open>
  The invariant of the kernel: the placement of the threads, the shape of the stacks of pending
  calls, and the life of a thread from its creation to the release of its page. A thread that
  another one still refers to, as its child or in a pending call, exists: no page is used after
  it was freed.
\<close>

section \<open>The shape of the pending calls\<close>

definition base :: "frame list \<Rightarrow> bool" where
  "base fs \<longleftrightarrow> fs = [] \<or> fs = [Exec_ret_f]"

definition after_lock :: "nat \<Rightarrow> frame list \<Rightarrow> bool" where
  "after_lock l fs \<longleftrightarrow> fs = [] \<or> (\<exists>t fs'. fs = Tid_locked_f t # fs' \<and> l = tid_lock \<and> base fs')"

fun after_down :: "ptr \<Rightarrow> sid \<Rightarrow> frame list \<Rightarrow> bool" where
  "after_down self (User_sema s) fs = (fs = [])"
| "after_down self (Lock_sema l) fs = (\<exists>fs'. fs = Acquire_tail_f l # fs' \<and> after_lock l fs')"
| "after_down self (Sleep_mutex t) fs = (t = self \<and> fs = [])"
| "after_down self (Load_mutex t) fs = (\<exists>fs'. fs = Create_loaded_f t # fs' \<and> base fs')"
| "after_down self (Wait_mutex t) fs = (fs = [Wait_tail_f t])"
| "after_down self (Exit_mutex t) fs = (t = self \<and> fs = [Exit_tail_f])"
| "after_down self (Waiter_sema t) fs = (t = self \<and> (\<exists>l. fs = [Lock_acquire_f l]))"

fun wf_cont :: "ptr \<Rightarrow> frame list \<Rightarrow> bool" where
  "wf_cont self [] = True"
| "wf_cont self (Sema_retry_f s # fs) = after_down self s fs"
| "wf_cont self (Acquire_tail_f l # fs) = after_lock l fs"
| "wf_cont self (Sema_down_f s # fs) =
     ((s = Waiter_sema self \<or> s = Exit_mutex self) \<and> after_down self s fs)"
| "wf_cont self (Tid_locked_f t # fs) = base fs"
| "wf_cont self (Create_tail_f t i # fs) = base fs"
| "wf_cont self (Create_loaded_f t # fs) = base fs"
| "wf_cont self (Create_ret_f t # fs) = base fs"
| "wf_cont self (f # fs) = (fs = [])"

text \<open>The thread a pending call is about; a thread that is being created is not yet unblocked.\<close>

fun subject :: "frame \<Rightarrow> ptr option" where
  "subject (Tid_locked_f t) = Some t"
| "subject (Create_tail_f t i) = Some t"
| "subject (Create_loaded_f t) = Some t"
| "subject (Create_ret_f t) = Some t"
| "subject (Wait_tail_f t) = Some t"
| "subject f = None"

fun creates :: "frame \<Rightarrow> ptr option" where
  "creates (Tid_locked_f t) = Some t"
| "creates (Create_tail_f t i) = Some t"
| "creates f = None"

fun awaits :: "frame \<Rightarrow> ptr option" where
  "awaits (Create_loaded_f t) = Some t"
| "awaits (Wait_tail_f t) = Some t"
| "awaits f = None"

definition subjects :: "frame list \<Rightarrow> ptr set" where
  "subjects fs = {t. \<exists>f \<in> set fs. subject f = Some t}"

definition creating :: "frame list \<Rightarrow> ptr set" where
  "creating fs = {t. \<exists>f \<in> set fs. creates f = Some t}"

definition awaiting :: "frame list \<Rightarrow> ptr set" where
  "awaiting fs = {t. \<exists>f \<in> set fs. awaits f = Some t}"

definition refs :: "kernel \<Rightarrow> ptr \<Rightarrow> ptr set" where
  "refs k p = set (kids k p) \<union> subjects (pending k p)"

definition xvalue :: "kernel \<Rightarrow> ptr \<Rightarrow> nat" where
  "xvalue k t = sema_value (semas k (Exit_mutex t))"

definition past_exit :: "frame list \<Rightarrow> bool" where
  "past_exit fs \<longleftrightarrow> (\<exists>r. fs = Exit_tail_f # r)"

definition family :: "kernel \<Rightarrow> bool" where
  "family k \<longleftrightarrow>
     (\<forall>p t. t \<in> refs k p \<longrightarrow> thr k t \<noteq> None \<and> xvalue k t = 0 \<and> \<not> past_exit (pending k t)) \<and>
     (\<forall>p q t. t \<in> refs k p \<longrightarrow> t \<in> refs k q \<longrightarrow> p = q) \<and>
     (\<forall>p. distinct (kids k p)) \<and>
     (\<forall>p. awaiting (pending k p) \<subseteq> set (kids k p)) \<and>
     (\<forall>p t. t \<in> creating (pending k p) \<longrightarrow>
        t \<notin> set (kids k p) \<and> pending k t = [] \<and> st k t = Some THREAD_BLOCKED)"

definition stacks :: "kernel \<Rightarrow> bool" where
  "stacks k \<longleftrightarrow> (\<forall>t. wf_cont t (pending k t))"

definition idle_ok :: "kernel \<Rightarrow> bool" where
  "idle_ok k \<longleftrightarrow> (\<forall>i. idle_thread k = Some i \<longrightarrow> pending k i = [Idle_loop_f])"

definition kinv :: "kernel \<Rightarrow> bool" where
  "kinv k \<longleftrightarrow> placed k \<and> stacks k \<and> family k \<and> idle_ok k \<and> finite (dom (thr k)) \<and> \<not> in_external_intr k"

lemma subjects_simps [simp]:
  "subjects [] = {}" "subjects (f # fs) = (case subject f of Some t \<Rightarrow> insert t (subjects fs) | None \<Rightarrow> subjects fs)"
  "creating [] = {}" "creating (f # fs) = (case creates f of Some t \<Rightarrow> insert t (creating fs) | None \<Rightarrow> creating fs)"
  "awaiting [] = {}" "awaiting (f # fs) = (case awaits f of Some t \<Rightarrow> insert t (awaiting fs) | None \<Rightarrow> awaiting fs)"
  by (auto simp: subjects_def creating_def awaiting_def split: option.split)

lemma creates_subject: "creates f = Some t \<Longrightarrow> subject f = Some t"
  by (cases f) auto

lemma creating_subset: "creating fs \<subseteq> subjects fs"
  by (auto simp: subjects_def creating_def dest: creates_subject)

text \<open>A semaphore nobody stands in the loop of has no waiters.\<close>

lemma no_waiters:
  "queued k \<Longrightarrow> (\<And>t. \<not> in_loop k t s) \<Longrightarrow> waiters (semas k s) = []"
  using queuedD(4) [of k _ s] by (cases "waiters (semas k s)") auto

text \<open>
  A step of the running thread that changes its own pending calls and children. What it refers to
  afterwards it referred to before.
\<close>

lemma inv_move:
  assumes i: "kinv k" and placed: "placed k'" and intr: "\<not> in_external_intr k'"
    and idle: "idle_thread k' = idle_thread k" and dom: "\<And>t. thr k t = None \<Longrightarrow> thr k' t = None"
    and alive: "\<And>t. thr k' t = None \<Longrightarrow> thr k t = None \<or> past_exit (pending k t)"
    and pend: "pending k' = (pending k)(cur k := fs)" and kids: "kids k' = (kids k)(cur k := cs)"
    and wf: "wf_cont (cur k) fs"
    and idle_fs: "idle_thread k = Some (cur k) \<Longrightarrow> fs = [Idle_loop_f]"
    and sub: "set cs \<union> subjects fs \<subseteq> refs k (cur k)" and cs: "distinct cs"
    and aw: "awaiting fs \<subseteq> set cs"
    and cr: "creating fs \<subseteq> creating (pending k (cur k)) - set cs"
    and past: "past_exit fs \<Longrightarrow> xvalue k (cur k) \<noteq> 0 \<or> past_exit (pending k (cur k))"
    and xv: "\<And>t. xvalue k t = 0 \<Longrightarrow> xvalue k' t = 0 \<or> t \<in> refs k (cur k) - (set cs \<union> subjects fs)"
    and blocked: "\<And>t p. t \<in> creating (pending k' p) \<Longrightarrow> pending k t = [] \<Longrightarrow> st k t = Some THREAD_BLOCKED \<Longrightarrow>
      st k' t = Some THREAD_BLOCKED"
  shows "kinv k'"
proof -
  have fam: "family k" and run: "st k (cur k) = Some THREAD_RUNNING" and sk: "stacks k"
    using i placed_cur by (auto simp: kinv_def)
  have F: "thr k t \<noteq> None" "xvalue k t = 0" "\<not> past_exit (pending k t)" if "t \<in> refs k p" for p t
    using fam that by (auto simp: family_def)
  have U: "p = q" if "t \<in> refs k p" "t \<in> refs k q" for p q t
    using fam that unfolding family_def by blast
  have C: "t \<notin> set (kids k p)" "pending k t = []" "st k t = Some THREAD_BLOCKED" if "t \<in> creating (pending k p)" for p t
    using fam that by (auto simp: family_def)
  have R: "refs k' p \<subseteq> refs k p" for p
    using sub by (auto simp: refs_def pend kids)
  have cur_new: "refs k' (cur k) = set cs \<union> subjects fs" by (auto simp: refs_def pend kids)
  have "thr k' t \<noteq> None \<and> xvalue k' t = 0 \<and> \<not> past_exit (pending k' t)" if t: "t \<in> refs k' p" for p t
  proof -
    have old: "t \<in> refs k p" using R t by blast
    have "t \<notin> refs k (cur k) - (set cs \<union> subjects fs)"
      using U [OF old, of "cur k"] t cur_new by auto
    then have "xvalue k' t = 0" using xv [of t] F(2) [OF old] by auto
    moreover have "\<not> past_exit (pending k' t)"
      using past F(2,3) [OF old] by (auto simp: pend)
    moreover have "thr k' t \<noteq> None" using F(1,3) [OF old] alive [of t] by (cases "thr k' t") auto
    ultimately show ?thesis by blast
  qed
  moreover have "p = q" if "t \<in> refs k' p" "t \<in> refs k' q" for p q t
    using U R that by blast
  moreover have "distinct (kids k' p)" "awaiting (pending k' p) \<subseteq> set (kids k' p)" for p
    using fam cs aw by (auto simp: family_def kids pend)
  moreover have "t \<notin> set (kids k' p) \<and> pending k' t = [] \<and> st k' t = Some THREAD_BLOCKED"
    if t: "t \<in> creating (pending k' p)" for p t
  proof -
    have old: "t \<in> creating (pending k p)" using cr t by (auto simp: pend split: if_splits)
    note c = C [OF old]
    have "t \<noteq> cur k" using c(3) run by auto
    moreover have "t \<notin> set (kids k' p)" using cr c(1) t by (auto simp: pend kids split: if_splits)
    ultimately show ?thesis using blocked [OF t c(2,3)] c(2) by (simp add: pend)
  qed
  ultimately have "family k'" unfolding family_def by blast
  moreover have "stacks k'" using sk wf by (auto simp: stacks_def pend)
  moreover have "idle_ok k'" using i idle_fs by (auto simp: kinv_def idle_ok_def idle pend)
  moreover have "finite (dom (thr k'))"
  proof -
    have "dom (thr k') \<subseteq> dom (thr k)" using dom by (metis domIff subsetI)
    moreover have "finite (dom (thr k))" using i by (simp add: kinv_def)
    ultimately show ?thesis by (rule finite_subset)
  qed
  ultimately show ?thesis using placed intr by (simp add: kinv_def)
qed

section \<open>What the operations change\<close>

text \<open>A thread under creation stays blocked.\<close>

definition keeps_new :: "kernel \<Rightarrow> kernel \<Rightarrow> bool" where
  "keeps_new k k' \<longleftrightarrow> (\<forall>t. st k t = Some THREAD_BLOCKED \<longrightarrow> pending k t = [] \<longrightarrow> idle_thread k \<noteq> Some t \<longrightarrow>
     st k' t = Some THREAD_BLOCKED)"

lemma keeps_new_refl: "st k' = st k \<Longrightarrow> keeps_new k k'"
  by (simp add: keeps_new_def)

lemma keeps_new_trans:
  assumes "keeps_new k k1" and "keeps_new k1 k2" and "idle_thread k1 = idle_thread k"
    and "\<And>t. pending k t = [] \<Longrightarrow> st k t = Some THREAD_BLOCKED \<Longrightarrow> pending k1 t = []"
  shows "keeps_new k k2"
  using assms unfolding keeps_new_def by simp

lemma schedule_keeps_new:
  assumes "schedule k = Some k'" and "queued k" and "st k (cur k) \<noteq> Some THREAD_DYING"
  shows "keeps_new k k'"
proof -
  obtain n where n: "fst (next_thread_to_run k) = Some n"
    and k': "k' = (upd n (\<lambda>th. th\<lparr>status := THREAD_RUNNING\<rparr>) k)
      \<lparr>ready_list := tl (ready_list k), cur := n, thread_ticks := 0\<rparr>"
    using schedule_alive [OF assms(1,3)] by metis
  have "idle_thread k = Some n \<or> st k n = Some THREAD_READY"
    using n queuedD(3) [OF assms(2), of n]
    by (cases "ready_list k") (auto simp: next_thread_to_run_def)
  then show ?thesis by (auto simp: keeps_new_def k')
qed

lemma thread_yield_keeps_new:
  assumes "thread_yield k = Some k'" and "placed k"
  shows "keeps_new k k'"
proof -
  let ?k = "if Some (cur k) \<noteq> idle_thread k
    then k\<lparr>ready_list := insert_seq (compare_priorities k) (cur k) (ready_list k)\<rparr> else k"
  let ?k1 = "upd (cur k) (\<lambda>th. th\<lparr>status := THREAD_READY\<rparr>) ?k"
  have 1: "keeps_new ?k1 k'"
    using assms(1) none_dying [OF assms(2)]
    by (intro schedule_keeps_new [OF _ queued_yield [OF assms(2)]]) (simp_all add: thread_yield_schedule)
  have "keeps_new k ?k1" using placed_cur [OF assms(2)] by (auto simp: keeps_new_def)
  then show ?thesis by (rule keeps_new_trans [OF _ 1]) simp_all
qed

lemma check_preemption_keeps_new:
  assumes "check_preemption k = Some k'" and "placed k"
  shows "keeps_new k k'"
  using assms(1)
proof (cases rule: check_preemption_cases)
  case yield
  then show ?thesis using assms(2) by (blast intro: thread_yield_keeps_new)
qed (simp_all add: keeps_new_refl)

lemma sema_wake_keeps_new:
  assumes "sema_wake s k = Some k'" and "placed k"
  shows "keeps_new k k'"
proof (cases "sort_seq (compare_priorities k) (waiters (semas k s))")
  case Nil
  then show ?thesis using assms(1) by (simp add: sema_wake_def keeps_new_refl)
next
  case (Cons t ts)
  have "t \<in> set (waiters (semas k s))" using arg_cong [OF Cons, of set] by auto
  then have "in_loop k t s" using queuedD(4) [of k t s] assms(2) by (simp add: placed_def)
  then show ?thesis
    using assms(1) Cons by (auto simp: sema_wake_def thread_unblock_eq keeps_new_def in_loop_def)
qed

lemma sema_up_keeps_new:
  assumes "sema_up s k = Some k'" and "placed k"
  shows "keeps_new k k'"
proof -
  obtain k1 where w: "sema_wake s k = Some k1" and c: "check_preemption (set_sema s
      ((semas k1 s)\<lparr>sema_value := size_wrap (sema_value (semas k1 s) + 1)\<rparr>) k1) = Some k'"
    using assms by (auto simp: sema_up_def Let_def split: Option.bind_splits)
  let ?k2 = "set_sema s ((semas k1 s)\<lparr>sema_value := size_wrap (sema_value (semas k1 s) + 1)\<rparr>) k1"
  have p1: "placed k1" by (rule sema_wake_placed [OF w assms(2)])
  then have p2: "placed ?k2" by (rule placed_keep) simp_all
  have "keeps_new k1 k'"
    using check_preemption_keeps_new [OF c p2] by (simp add: keeps_new_def)
  moreover have "idle_thread k1 = idle_thread k" "pending k1 t = pending k t" for t
    using rest_eqD(4) [OF sema_wake_rest [OF w]] rest_eq_views(1) [OF sema_wake_rest [OF w]] by simp_all
  ultimately show ?thesis
    by (intro keeps_new_trans [OF sema_wake_keeps_new [OF w assms(2)]]) simp_all
qed

lemma sema_down_keeps_new:
  assumes "sema_down s k = Some k'" and "placed k" and "idle_thread k \<noteq> Some (cur k)"
  shows "keeps_new k k'"
  using assms(1)
proof (cases rule: sema_down_cases)
  case pass
  then show ?thesis by (simp add: keeps_new_refl)
next
  case sleep
  let ?k = "push_cont (Sema_retry_f s) (set_sema s ((semas k s)\<lparr>waiters :=
       insert_seq (compare_priorities k) (cur k) (waiters (semas k s))\<rparr>) k)"
  let ?k1 = "upd (cur k) (\<lambda>th. th\<lparr>status := THREAD_BLOCKED\<rparr>) ?k"
  have 1: "keeps_new ?k1 k'"
    using sleep(3) none_dying [OF assms(2)]
    by (intro schedule_keeps_new [OF _ queued_sleep [OF assms(2,3), of s]])
      (simp_all add: thread_block_schedule)
  have "keeps_new k ?k1" using sleep(2) by (auto simp: keeps_new_def)
  then show ?thesis by (rule keeps_new_trans [OF _ 1]) (use sleep(2) in auto)
qed

text \<open>What the semaphore operations leave of the views.\<close>

lemma sema_up_views:
  assumes "sema_up s k = Some k'"
  shows "pending k' = pending k" and "kids k' = kids k" and "held k' = held k"
    and "thr k' t = None \<longleftrightarrow> thr k t = None" and "idle_thread k' = idle_thread k"
    and "semas k' = (semas k)(s := raised k s)" and "locks k' = locks k" and "conds k' = conds k"
    and "in_external_intr k' = in_external_intr k" and "sleep_list k' = sleep_list k"
    and "ticks k' = ticks k" and "next_tid k' = next_tid k" and "wake_time k' = wake_time k"
    and "prio k' = prio k"
  using rest_eqD [OF sema_up_rest [OF assms]] rest_eq_views [OF sema_up_rest [OF assms]]
    rest_eq_None [OF sema_up_rest [OF assms], of t]
  by (auto simp: fun_eq_iff kids_def held_def wake_time_def prio_def)

lemma views_push [simp]:
  "kids (push_cont f k) = kids k" "held (push_cont f k) = held k" "wake_time (push_cont f k) = wake_time k"
  "prio (push_cont f k) = prio k" "thr (push_cont f k) t = None \<longleftrightarrow> thr k t = None"
  "locks (push_cont f k) = locks k"
  by (auto simp: fun_eq_iff kids_def held_def wake_time_def prio_def push_cont_def split: option.split)

lemma sema_down_views:
  assumes "sema_down s k = Some k'"
  shows "kids k' = kids k" and "held k' = held k"
    and "thr k' t = None \<longleftrightarrow> thr k t = None" and "idle_thread k' = idle_thread k"
    and "locks k' = locks k" and "conds k' = conds k"
    and "in_external_intr k' = in_external_intr k" and "sleep_list k' = sleep_list k"
    and "ticks k' = ticks k" and "next_tid k' = next_tid k" and "wake_time k' = wake_time k"
    and "prio k' = prio k" and "sema_value (semas k' s') \<le> sema_value (semas k s')"
proof -
  have "kids k' = kids k \<and> held k' = held k \<and> (thr k' t = None \<longleftrightarrow> thr k t = None) \<and>
    idle_thread k' = idle_thread k \<and> locks k' = locks k \<and> conds k' = conds k \<and>
    in_external_intr k' = in_external_intr k \<and> sleep_list k' = sleep_list k \<and> ticks k' = ticks k \<and>
    next_tid k' = next_tid k \<and> wake_time k' = wake_time k \<and> prio k' = prio k \<and>
    sema_value (semas k' s') \<le> sema_value (semas k s')"
    using assms
  proof (cases rule: sema_down_cases)
    case pass
    then show ?thesis by (auto simp: fun_eq_iff kids_def held_def wake_time_def prio_def)
  next
    case sleep
    note r = thread_block_rest [OF sleep(3)]
    show ?thesis
      using rest_eqD [OF r] rest_eq_views [OF r] rest_eq_None [OF r, of t]
      by (auto simp: fun_eq_iff) (auto simp: kids_def held_def wake_time_def prio_def)
  qed
  then show "kids k' = kids k" and "held k' = held k"
    and "thr k' t = None \<longleftrightarrow> thr k t = None" and "idle_thread k' = idle_thread k"
    and "locks k' = locks k" and "conds k' = conds k"
    and "in_external_intr k' = in_external_intr k" and "sleep_list k' = sleep_list k"
    and "ticks k' = ticks k" and "next_tid k' = next_tid k" and "wake_time k' = wake_time k"
    and "prio k' = prio k" and "sema_value (semas k' s') \<le> sema_value (semas k s')"
    by blast+
qed

text \<open>Either the semaphore was taken, or the thread stands in its loop.\<close>

lemma sema_down_pending:
  assumes "sema_down s k = Some k'" and "st k (cur k) = Some THREAD_RUNNING"
  obtains (pass) "sema_value (semas k s) > 0" "pending k' = pending k"
      "semas k' = (semas k)(s := (semas k s)\<lparr>sema_value := sema_value (semas k s) - 1\<rparr>)" "cur k' = cur k"
  | (sleep) "sema_value (semas k s) = 0"
      "pending k' = (pending k)(cur k := Sema_retry_f s # pending k (cur k))"
      "semas k' = (semas k)(s := (semas k s)\<lparr>waiters :=
        insert_seq (compare_priorities k) (cur k) (waiters (semas k s))\<rparr>)"
  using assms(1)
proof (cases rule: sema_down_cases)
  case pass
  then show thesis by (intro that(1)) simp_all
next
  case sleep
  note r = thread_block_rest [OF sleep(3)]
  show thesis
    using sleep(1) rest_eqD(1) [OF r] rest_eq_views(1) [OF r] assms(2)
    by (intro that(2)) (auto simp: fun_eq_iff is_thread_st)
qed

end
