(* ===== verification/Kmove.thy ===== *)
theory Kmove
  imports Kinv
begin

text \<open>
  The effect of the routines on the pending calls and the children of the running thread.
  \<open>local\<close> relates two states between which the running thread has only written its own data;
  \<open>moved\<close> states what a routine does that may end in a switch.
\<close>

definition local :: "kernel \<Rightarrow> kernel \<Rightarrow> bool" where
  "local k k' \<longleftrightarrow> cur k' = cur k \<and> st k' = st k \<and> idle_thread k' = idle_thread k \<and>
     ready_list k' = ready_list k \<and> (\<forall>s. waiters (semas k' s) = waiters (semas k s)) \<and>
     in_external_intr k' = in_external_intr k \<and>
     (\<forall>t. t \<noteq> cur k \<longrightarrow> pending k' t = pending k t \<and> kids k' t = kids k t)"

definition moved :: "kernel \<Rightarrow> kernel \<Rightarrow> frame list \<Rightarrow> ptr list \<Rightarrow> bool" where
  "moved k k' fs cs \<longleftrightarrow> placed k' \<and> idle_thread k' = idle_thread k \<and>
     in_external_intr k' = in_external_intr k \<and> (\<forall>t. thr k' t = None \<longleftrightarrow> thr k t = None) \<and>
     pending k' = (pending k)(cur k := fs) \<and> kids k' = (kids k)(cur k := cs) \<and> keeps_new k k'"

lemma localD:
  assumes "local k k'"
  shows "cur k' = cur k" and "st k' = st k" and "idle_thread k' = idle_thread k"
    and "in_external_intr k' = in_external_intr k"
  using assms by (auto simp: local_def)

lemma local_refl [simp]: "local k k"
  by (simp add: local_def)

lemma local_trans: "local k k1 \<Longrightarrow> local k1 k2 \<Longrightarrow> local k k2"
  by (simp add: local_def)

lemma st_None: "st k t = None \<longleftrightarrow> thr k t = None"
  by (simp add: st_def)

lemma kids_upd:
  "kids (upd t f k) u =
     (if u = t then (case thr k t of Some th \<Rightarrow> child_list (f th) | None \<Rightarrow> []) else kids k u)"
  by (simp add: kids_def split: option.split)

lemma local_upd [simp]:
  "(\<And>th. status (f th) = status th) \<Longrightarrow> local k k1 \<Longrightarrow> local k (upd (cur k) f k1)"
  by (auto simp: local_def pending_upd kids_upd)

lemma local_upd_other [simp]:
  "(\<And>th. status (f th) = status th) \<Longrightarrow> (\<And>th. cont (f th) = cont th) \<Longrightarrow>
   (\<And>th. child_list (f th) = child_list th) \<Longrightarrow> local k k1 \<Longrightarrow> local k (upd t f k1)"
  by (auto simp: local_def kids_upd) (auto simp: kids_def split: option.split)

lemma local_push [simp]: "local k k1 \<Longrightarrow> local k (push_cont f k1)"
  by (auto simp: local_def)

lemma local_set_lock [simp]: "local k k1 \<Longrightarrow> local k (set_lock l f k1)"
  by (auto simp: local_def kids_def)

lemma local_fields [simp]:
  "local k k1 \<Longrightarrow> local k (k1\<lparr>conds := c\<rparr>)" "local k k1 \<Longrightarrow> local k (k1\<lparr>waiter_priority := w\<rparr>)"
  "local k k1 \<Longrightarrow> local k (k1\<lparr>next_tid := n\<rparr>)" "local k k1 \<Longrightarrow> local k (k1\<lparr>sleep_list := l\<rparr>)"
  "local k k1 \<Longrightarrow> local k (k1\<lparr>all_list := l\<rparr>)" "local k k1 \<Longrightarrow> local k (k1\<lparr>ticks := x\<rparr>)"
  "local k k1 \<Longrightarrow> local k (k1\<lparr>yield_on_return := b\<rparr>)"
  by (auto simp: local_def pending_def kids_def st_def fun_eq_iff)

lemma local_sema_init [simp]:
  "local k k1 \<Longrightarrow> waiters (semas k1 s) = [] \<Longrightarrow> local k (sema_init s v k1)"
  by (auto simp: local_def sema_init_def kids_def)

lemma but_priority:
  assumes "\<And>x p. g (x\<lparr>priority := p\<rparr>) = g x" and "a\<lparr>priority := 0\<rparr> = b\<lparr>priority := 0\<rparr>"
  shows "g (a :: thread) = g b"
  using assms(1) [of 0 a] assms(1) [of 0 b] assms(2) by simp

lemma donated_views:
  assumes "donated k k'"
  shows "pending k' = pending k" and "kids k' = kids k" and "held k' = held k" and "st k' = st k"
    and "semas k' = semas k" and "cur k' = cur k" and "idle_thread k' = idle_thread k"
    and "ready_list k' = ready_list k" and "in_external_intr k' = in_external_intr k"
    and "holder (locks k' l) = holder (locks k l)" and "hold_next (locks k' l) = hold_next (locks k l)"
    and "conds k' = conds k" and "sleep_list k' = sleep_list k" and "ticks k' = ticks k"
    and "wake_time k' = wake_time k"
proof -
  note e = assms [unfolded donated_def]
  have "k'\<lparr>thr := thr k, locks := locks k\<rparr> = k" using e by blast
  from arg_cong [OF this, of semas] arg_cong [OF this, of cur] arg_cong [OF this, of idle_thread]
    arg_cong [OF this, of ready_list] arg_cong [OF this, of in_external_intr]
    arg_cong [OF this, of conds] arg_cong [OF this, of sleep_list] arg_cong [OF this, of ticks]
  show "semas k' = semas k" "cur k' = cur k" "idle_thread k' = idle_thread k"
    "ready_list k' = ready_list k" "in_external_intr k' = in_external_intr k"
    "conds k' = conds k" "sleep_list k' = sleep_list k" "ticks k' = ticks k"
    by simp_all
  have l: "(locks k' l)\<lparr>max_priority := 0\<rparr> = (locks k l)\<lparr>max_priority := 0\<rparr>" using e by blast
  show "holder (locks k' l) = holder (locks k l)" "hold_next (locks k' l) = hold_next (locks k l)"
    using arg_cong [OF l, of holder] arg_cong [OF l, of hold_next] by simp_all
  have th: "thr k' t = None \<and> thr k t = None \<or> (\<exists>a b. thr k' t = Some a \<and> thr k t = Some b \<and>
      cont a = cont b \<and> child_list a = child_list b \<and> lock_holding a = lock_holding b \<and>
      status a = status b \<and> tick_to_wake a = tick_to_wake b)" for t
  proof -
    have "map_option (\<lambda>th. th\<lparr>priority := 0\<rparr>) (thr k' t) = map_option (\<lambda>th. th\<lparr>priority := 0\<rparr>) (thr k t)"
      using e by blast
    then consider "thr k' t = None" "thr k t = None"
      | a b where "thr k' t = Some a" "thr k t = Some b" "a\<lparr>priority := 0\<rparr> = b\<lparr>priority := 0\<rparr>"
      by (cases "thr k' t"; cases "thr k t") auto
    then show ?thesis
    proof cases
      case 2
      note same = but_priority [OF _ 2(3)]
      show ?thesis
        using 2 same [of cont] same [of child_list] same [of lock_holding] same [of status]
          same [of tick_to_wake] by simp
    qed simp
  qed
  have "pending k' t = pending k t \<and> kids k' t = kids k t \<and> held k' t = held k t \<and> st k' t = st k t \<and>
    wake_time k' t = wake_time k t" for t
    using th [of t] by (auto simp: pending_def kids_def held_def st_def wake_time_def)
  then show "pending k' = pending k" "kids k' = kids k" "held k' = held k" "st k' = st k"
    "wake_time k' = wake_time k"
    by (simp_all add: fun_eq_iff)
qed

lemma local_donate: "donate l t k1 = Some k2 \<Longrightarrow> local k k1 \<Longrightarrow> local k k2"
  by (drule donate_donated) (simp add: local_def donated_views)

lemma local_placed:
  assumes "placed k" and "local k k'" and "idle_thread k \<noteq> Some (cur k) \<or> (\<forall>s. \<not> in_loop k' (cur k) s)"
  shows "placed k'"
  by (rule placed_cong [OF assms(1)]) (use assms(2,3) in \<open>auto simp: local_def\<close>)

lemma local_moved:
  assumes "local k k1" and "moved k1 k' fs cs" and "st k (cur k) = Some THREAD_RUNNING"
  shows "moved k k' fs cs"
proof -
  have "keeps_new k k'"
    unfolding keeps_new_def
  proof (intro allI impI)
    fix t assume t: "st k t = Some THREAD_BLOCKED" "pending k t = []" "idle_thread k \<noteq> Some t"
    then have "t \<noteq> cur k" using assms(3) by auto
    then show "st k' t = Some THREAD_BLOCKED"
      using assms(1,2) t by (auto simp: moved_def keeps_new_def local_def)
  qed
  then show ?thesis
    using assms localD [OF assms(1)] by (auto simp: moved_def local_def fun_eq_iff st_None [symmetric])
qed

text \<open>The routines one by one: pending calls and children afterwards, and the exit semaphores.\<close>

lemma moved_of_local:
  assumes "placed k" and "local k k'" and "idle_thread k \<noteq> Some (cur k) \<or> (\<forall>s. \<not> in_loop k' (cur k) s)"
  shows "moved k k' (pending k' (cur k)) (kids k' (cur k))"
  using local_placed [OF assms] assms(2)
  by (auto simp: moved_def local_def fun_eq_iff st_None [symmetric] keeps_new_refl)

lemma moved_of_rest:
  assumes "rest k' = rest k" and "placed k'" and "keeps_new k k'"
  shows "moved k k' (pending k (cur k)) (kids k (cur k))" and "xvalue k' = xvalue k"
  using assms rest_eqD [OF assms(1)] rest_eq_views [OF assms(1)] rest_eq_None [OF assms(1)]
  by (auto simp: moved_def fun_eq_iff xvalue_def)

lemma moved_yield:
  assumes "thread_yield k = Some k'" and "placed k"
  shows "moved k k' (pending k (cur k)) (kids k (cur k))" and "xvalue k' = xvalue k"
  using moved_of_rest [OF thread_yield_rest [OF assms(1)] thread_yield_placed [OF assms]
      thread_yield_keeps_new [OF assms]] by simp_all

lemma moved_check:
  assumes "check_preemption k = Some k'" and "placed k"
  shows "moved k k' (pending k (cur k)) (kids k (cur k))" and "xvalue k' = xvalue k"
  using moved_of_rest [OF check_preemption_rest [OF assms(1)] check_preemption_placed [OF assms]
      check_preemption_keeps_new [OF assms]] by simp_all

lemma moved_sema_up:
  assumes "sema_up s k = Some k'" and "placed k"
  shows "moved k k' (pending k (cur k)) (kids k (cur k))"
    and "xvalue k' t = (if s = Exit_mutex t then size_wrap (xvalue k t + 1) else xvalue k t)"
  using sema_up_views [OF assms(1)] sema_up_placed [OF assms] sema_up_keeps_new [OF assms]
  by (auto simp: moved_def xvalue_def raised_def fun_eq_iff)

lemma moved_sema_down:
  assumes "sema_down s k = Some k'" and "placed k" and "idle_thread k \<noteq> Some (cur k)"
  obtains fs where "moved k k' fs (kids k (cur k))" and "\<And>t. xvalue k' t \<le> xvalue k t"
    and "fs = pending k (cur k) \<and> sema_value (semas k s) > 0 \<or> fs = Sema_retry_f s # pending k (cur k)"
proof -
  note v = sema_down_views [OF assms(1)]
  have m: "moved k k' fs (kids k (cur k))" if "pending k' = (pending k)(cur k := fs)" for fs
    using v(1-12) sema_down_placed [OF assms] sema_down_keeps_new [OF assms] that
    by (auto simp: moved_def)
  have x: "xvalue k' t \<le> xvalue k t" for t using v(13) by (simp add: xvalue_def)
  from assms(1) placed_cur [OF assms(2)] show thesis
  proof (cases rule: sema_down_pending)
    case pass
    then show thesis by (intro that [of "pending k (cur k)"] m x) simp_all
  next
    case sleep
    then show thesis by (intro that [of "Sema_retry_f s # pending k (cur k)"] m x) simp_all
  qed
qed

text \<open>The three ways a routine ends, after the running thread has written its own data.\<close>

lemma local_running:
  "placed k \<Longrightarrow> local k k1 \<Longrightarrow> st k1 (cur k1) = Some THREAD_RUNNING"
  by (simp add: local_def placed_cur)

lemma local_sema_up:
  assumes "local k k1" and "sema_up s k1 = Some k'" and "placed k"
    and "idle_thread k \<noteq> Some (cur k) \<or> (\<forall>s. \<not> in_loop k1 (cur k) s)"
  shows "moved k k' (pending k1 (cur k)) (kids k1 (cur k))"
    and "xvalue k' t = (if s = Exit_mutex t then size_wrap (xvalue k1 t + 1) else xvalue k1 t)"
proof -
  have p: "placed k1" by (rule local_placed [OF assms(3,1,4)])
  show "moved k k' (pending k1 (cur k)) (kids k1 (cur k))"
    using local_moved [OF assms(1) moved_sema_up(1) [OF assms(2) p] placed_cur [OF assms(3)]]
    by (simp add: localD [OF assms(1)])
  show "xvalue k' t = (if s = Exit_mutex t then size_wrap (xvalue k1 t + 1) else xvalue k1 t)"
    by (rule moved_sema_up(2) [OF assms(2) p])
qed

lemma local_sema_down:
  assumes "local k k1" and "sema_down s k1 = Some k'" and "placed k" and "idle_thread k \<noteq> Some (cur k)"
  obtains fs where "moved k k' fs (kids k1 (cur k))" and "\<And>t. xvalue k' t \<le> xvalue k1 t"
    and "fs = pending k1 (cur k) \<and> sema_value (semas k1 s) > 0 \<or> fs = Sema_retry_f s # pending k1 (cur k)"
proof -
  have p: "placed k1" using local_placed [OF assms(3,1)] assms(4) by blast
  have i: "idle_thread k1 \<noteq> Some (cur k1)" using assms(1,4) by (simp add: local_def)
  obtain fs where f: "moved k1 k' fs (kids k1 (cur k1))" "\<And>t. xvalue k' t \<le> xvalue k1 t"
    "fs = pending k1 (cur k1) \<and> sema_value (semas k1 s) > 0 \<or> fs = Sema_retry_f s # pending k1 (cur k1)"
    using moved_sema_down [OF assms(2) p i] by metis
  show thesis
    using local_moved [OF assms(1) f(1) placed_cur [OF assms(3)]] f(2,3)
    by (intro that [of fs]) (simp_all add: localD [OF assms(1)])
qed

lemma local_check:
  assumes "local k k1" and "check_preemption k1 = Some k'" and "placed k"
    and "idle_thread k \<noteq> Some (cur k)"
  shows "moved k k' (pending k1 (cur k)) (kids k1 (cur k))" and "xvalue k' = xvalue k1"
proof -
  have p: "placed k1" using local_placed [OF assms(3,1)] assms(4) by blast
  show "moved k k' (pending k1 (cur k)) (kids k1 (cur k))"
    using local_moved [OF assms(1) moved_check(1) [OF assms(2) p] placed_cur [OF assms(3)]]
    by (simp add: localD [OF assms(1)])
  show "xvalue k' = xvalue k1" by (rule moved_check(2) [OF assms(2) p])
qed

lemma xvalue_simps [simp]:
  "xvalue (upd t f k) = xvalue k" "xvalue (push_cont fr k) = xvalue k" "xvalue (set_lock l g k) = xvalue k"
  "xvalue (k\<lparr>conds := c\<rparr>) = xvalue k" "xvalue (k\<lparr>waiter_priority := w\<rparr>) = xvalue k"
  "xvalue (k\<lparr>next_tid := n\<rparr>) = xvalue k" "xvalue (k\<lparr>sleep_list := l'\<rparr>) = xvalue k"
  "xvalue (k\<lparr>all_list := l'\<rparr>) = xvalue k" "xvalue (k\<lparr>idle_thread := j\<rparr>) = xvalue k"
  by (simp_all add: xvalue_def fun_eq_iff)

lemma kids_simps [simp]:
  "kids (set_lock l g k) = kids k" "kids (k\<lparr>conds := c\<rparr>) = kids k"
  "kids (k\<lparr>waiter_priority := w\<rparr>) = kids k" "kids (k\<lparr>next_tid := n\<rparr>) = kids k"
  "kids (k\<lparr>sleep_list := l'\<rparr>) = kids k" "kids (k\<lparr>all_list := l'\<rparr>) = kids k" "kids (sema_init s v k) = kids k"
  "kids (set_sema s w' k) = kids k" "kids (k\<lparr>idle_thread := j\<rparr>) = kids k"
  by (simp_all add: kids_def fun_eq_iff sema_init_def)

lemma pending_simps [simp]:
  "pending (k\<lparr>conds := c\<rparr>) = pending k" "pending (k\<lparr>waiter_priority := w\<rparr>) = pending k"
  "pending (k\<lparr>next_tid := n\<rparr>) = pending k" "pending (k\<lparr>sleep_list := l'\<rparr>) = pending k"
  "pending (k\<lparr>all_list := l'\<rparr>) = pending k" "pending (sema_init s v k) = pending k"
  "pending (k\<lparr>idle_thread := j\<rparr>) = pending k"
  by (simp_all add: pending_def fun_eq_iff sema_init_def)

lemma st_simps [simp]:
  "st (k\<lparr>conds := c\<rparr>) = st k" "st (k\<lparr>waiter_priority := w\<rparr>) = st k" "st (k\<lparr>next_tid := n\<rparr>) = st k"
  "st (k\<lparr>sleep_list := l'\<rparr>) = st k" "st (k\<lparr>all_list := l'\<rparr>) = st k" "st (sema_init s v k) = st k"
  "st (k\<lparr>idle_thread := j\<rparr>) = st k"
  by (simp_all add: st_def fun_eq_iff sema_init_def)

lemma kids_upd_same [simp]:
  "(\<And>th. child_list (f th) = child_list th) \<Longrightarrow> kids (upd t f k) = kids k"
  by (auto simp: fun_eq_iff kids_upd) (simp add: kids_def split: option.split)

lemma cur_sema_init [simp]: "cur (sema_init s v k) = cur k"
  by (simp add: sema_init_def)

lemma pending_push_cur:
  "st k (cur k) = Some THREAD_RUNNING \<Longrightarrow> pending (push_cont f k) (cur k) = f # pending k (cur k)"
  by (simp add: is_thread_st)

lemma lock_acquire_moved:
  assumes "local k k1" and "lock_acquire l k1 = Some k'" and "placed k" and "idle_thread k \<noteq> Some (cur k)"
  obtains fs where "moved k k' fs (kids k1 (cur k))" and "\<And>t. xvalue k' t \<le> xvalue k1 t"
    and "fs = Acquire_tail_f l # pending k1 (cur k) \<or>
      fs = Sema_retry_f (Lock_sema l) # Acquire_tail_f l # pending k1 (cur k)"
proof -
  let ?w = "upd (cur k1) (\<lambda>th. th\<lparr>lock_waiting := lock_waiting th @ [l]\<rparr>) k1"
  obtain k2 where k2: "k2 = k1 \<or> donate l (holder (locks k1 l)) ?w = Some k2"
    and d: "sema_down (Lock_sema l) (push_cont (Acquire_tail_f l) k2) = Some k'"
    using assms(2)
    by (auto simp: lock_acquire_def lock_held_by_current_thread_def ASSERT_def
        split: if_splits Option.bind_splits)
  have c: "cur k1 = cur k" by (rule localD(1) [OF assms(1)])
  have w: "local k ?w" using assms(1) by simp
  have "local k k2 \<and> pending k2 = pending k1 \<and> kids k2 = kids k1 \<and> xvalue k2 = xvalue k1"
    using k2
  proof
    assume "donate l (holder (locks k1 l)) ?w = Some k2"
    note d = this
    show ?thesis
      using local_donate [OF d w] donated_views [OF donate_donated [OF d]]
      by (auto simp: xvalue_def fun_eq_iff)
  qed (use assms(1) in simp)
  then have l2: "local k k2" and v: "pending k2 = pending k1" "kids k2 = kids k1" "xvalue k2 = xvalue k1"
    by auto
  have top: "pending (push_cont (Acquire_tail_f l) k2) (cur k) = Acquire_tail_f l # pending k1 (cur k)"
    using pending_push_cur [OF local_running [OF assms(3) l2]] localD(1) [OF l2] v(1) by simp
  have "local k (push_cont (Acquire_tail_f l) k2)" using l2 by simp
  from local_sema_down [OF this d assms(3,4)] top v
  show thesis by (metis that views_push(1) xvalue_simps(2))
qed

lemma lock_release_cases:
  assumes "lock_release l k = Some k'"
  obtains p n q th where "st k (cur k) = Some THREAD_RUNNING" and "thr k (cur k) = Some th"
    and "holder (locks k l) = Some (cur k)" and "l \<in> set (lock_holding th)"
    and "n = next_held (cur k) (lock_holding th) l"
    and "sema_up (Lock_sema l) (set_lock l (\<lambda>lk. lk\<lparr>holder := None\<rparr>)
      (upd (cur k) (\<lambda>th'. th'\<lparr>lock_holding := remove1 l (lock_holding th), priority := q\<rparr>)
        (set_lock l (\<lambda>lk. lk\<lparr>hold_next := n\<rparr>) (set_lock l (\<lambda>lk. lk\<lparr>max_priority := p\<rparr>) k)))) = Some k'"
  using assms unfolding lock_release_def lock_held_by_current_thread_def Let_def
  by (auto simp: ASSERT_def split: if_splits Option.bind_splits)

lemma lock_release_moved:
  assumes "local k k1" and "lock_release l k1 = Some k'" and "placed k"
    and "idle_thread k \<noteq> Some (cur k)"
  shows "moved k k' (pending k1 (cur k)) (kids k1 (cur k))" and "xvalue k' = xvalue k1"
proof -
  obtain p n q and th :: thread where u: "sema_up (Lock_sema l) (set_lock l (\<lambda>lk. lk\<lparr>holder := None\<rparr>)
      (upd (cur k1) (\<lambda>th'. th'\<lparr>lock_holding := remove1 l (lock_holding th), priority := q\<rparr>)
        (set_lock l (\<lambda>lk. lk\<lparr>hold_next := n\<rparr>) (set_lock l (\<lambda>lk. lk\<lparr>max_priority := p\<rparr>) k1)))) = Some k'"
    using lock_release_cases [OF assms(2)] by metis
  have loc: "local k (set_lock l (\<lambda>lk. lk\<lparr>holder := None\<rparr>)
      (upd (cur k1) (\<lambda>th'. th'\<lparr>lock_holding := remove1 l (lock_holding th), priority := q\<rparr>)
        (set_lock l (\<lambda>lk. lk\<lparr>hold_next := n\<rparr>) (set_lock l (\<lambda>lk. lk\<lparr>max_priority := p\<rparr>) k1))))"
    using assms(1) by simp
  note m = local_sema_up [OF loc u assms(3) disjI1 [OF assms(4)]]
  show "moved k k' (pending k1 (cur k)) (kids k1 (cur k))" using m(1) by simp
  show "xvalue k' = xvalue k1" using m(2) by (simp add: fun_eq_iff)
qed

end
