(* ===== verification/Kstep.thy ===== *)
theory Kstep
  imports Kmove
begin

text \<open>
  The invariant of the kernel holds in every reachable state: every call a thread can make, every
  continuation of a call and every timer interrupt keeps it.
\<close>

lemma kinvD:
  assumes "kinv k"
  shows "placed k" and "stacks k" and "family k" and "idle_ok k" and "finite (dom (thr k))"
    and "\<not> in_external_intr k" and "st k (cur k) = Some THREAD_RUNNING" and "wf_cont t (pending k t)"
    and "queued k"
  using assms placed_cur by (auto simp: kinv_def stacks_def placed_def)

lemma familyD:
  assumes "family k"
  shows "t \<in> refs k p \<Longrightarrow> thr k t \<noteq> None" and "t \<in> refs k p \<Longrightarrow> xvalue k t = 0"
    and "t \<in> refs k p \<Longrightarrow> \<not> past_exit (pending k t)"
    and "t \<in> refs k p \<Longrightarrow> t \<in> refs k q \<Longrightarrow> p = q" and "distinct (kids k p)"
    and "awaiting (pending k p) \<subseteq> set (kids k p)"
    and "t \<in> creating (pending k p) \<Longrightarrow> t \<notin> set (kids k p)"
    and "t \<in> creating (pending k p) \<Longrightarrow> pending k t = []"
    and "t \<in> creating (pending k p) \<Longrightarrow> st k t = Some THREAD_BLOCKED"
  using assms unfolding family_def by blast+

lemma kinv_moved:
  assumes i: "kinv k" and m: "moved k k' fs cs" and wf: "wf_cont (cur k) fs"
    and idle: "idle_thread k = Some (cur k) \<Longrightarrow> fs = [Idle_loop_f]"
    and sub: "set cs \<union> subjects fs \<subseteq> refs k (cur k)" and cs: "distinct cs"
    and aw: "awaiting fs \<subseteq> set cs" and cr: "creating fs \<subseteq> creating (pending k (cur k)) - set cs"
    and past: "past_exit fs \<Longrightarrow> xvalue k (cur k) \<noteq> 0 \<or> past_exit (pending k (cur k))"
    and xv: "\<And>t. xvalue k t = 0 \<Longrightarrow> xvalue k' t = 0 \<or> t \<in> refs k (cur k) - (set cs \<union> subjects fs)"
  shows "kinv k'"
proof (rule inv_move [OF i, of _ fs cs])
  show "st k' t = Some THREAD_BLOCKED" if "pending k t = []" "st k t = Some THREAD_BLOCKED" for t
  proof -
    have "idle_thread k \<noteq> Some t" using kinvD(4) [OF i] that by (auto simp: idle_ok_def)
    then show ?thesis using m that by (simp add: moved_def keeps_new_def)
  qed
  show "\<not> in_external_intr k'" using m kinvD(6) [OF i] by (simp add: moved_def)
qed (use assms in \<open>simp_all add: moved_def\<close>)

text \<open>The usual case: the children are as they were.\<close>

lemma kinv_same_kids:
  assumes "kinv k" and "moved k k' fs (kids k (cur k))" and "wf_cont (cur k) fs"
    and "idle_thread k = Some (cur k) \<Longrightarrow> fs = [Idle_loop_f]"
    and "subjects fs \<subseteq> subjects (pending k (cur k))" and "awaiting fs \<subseteq> awaiting (pending k (cur k))"
    and "creating fs \<subseteq> creating (pending k (cur k))"
    and "past_exit fs \<Longrightarrow> xvalue k (cur k) \<noteq> 0 \<or> past_exit (pending k (cur k))"
    and "\<And>t. xvalue k' t \<le> xvalue k t"
  shows "kinv k'"
proof (rule kinv_moved [OF assms(1-4)])
  show "xvalue k' t = 0 \<or> t \<in> refs k (cur k) - (set (kids k (cur k)) \<union> subjects fs)" if "xvalue k t = 0" for t
    using assms(9) [of t] that by simp
  note f = kinvD(3) [OF assms(1)]
  show "distinct (kids k (cur k))" by (rule familyD(5) [OF f])
  show "awaiting fs \<subseteq> set (kids k (cur k))"
    using assms(6) familyD(6) [OF f, of "cur k"] by blast
  show "creating fs \<subseteq> creating (pending k (cur k)) - set (kids k (cur k))"
    using assms(7) familyD(7) [OF f, of _ "cur k"] by blast
qed (use assms(5,8) in \<open>auto simp: refs_def\<close>)

lemma past_exit_simps [simp]:
  "\<not> past_exit []" "past_exit (f # fs) \<longleftrightarrow> f = Exit_tail_f"
  by (auto simp: past_exit_def)

lemma not_idle: "kinv k \<Longrightarrow> pending k (cur k) \<noteq> [Idle_loop_f] \<Longrightarrow> idle_thread k \<noteq> Some (cur k)"
  by (auto simp: kinv_def idle_ok_def)

text \<open>The frame at the top is taken off before it runs.\<close>

definition popped :: "kernel \<Rightarrow> kernel" where
  "popped k = upd (cur k) (\<lambda>th. th\<lparr>cont := tl (cont th)\<rparr>) k"

lemma popped_local [simp]: "local k (popped k)"
  by (simp add: popped_def)

lemma popped_views [simp]:
  "cur (popped k) = cur k" "kids (popped k) = kids k" "semas (popped k) = semas k" "xvalue (popped k) = xvalue k"
  "st (popped k) = st k" "locks (popped k) = locks k" "idle_thread (popped k) = idle_thread k"
  "conds (popped k) = conds k" "pending (popped k) = (pending k)(cur k := tl (pending k (cur k)))"
  "ready_list (popped k) = ready_list k" "in_external_intr (popped k) = in_external_intr k"
  by (auto simp: popped_def fun_eq_iff pending_upd) (auto simp: pending_def split: option.splits)

lemma resume_run:
  assumes "resume k = Some k'" and "pending k (cur k) = f # fs"
  shows "run_frame f (popped k) = Some k'"
proof -
  obtain th where th: "thr k (cur k) = Some th" "cont th = f # fs"
    using assms(2) by (auto simp: pending_def split: option.splits)
  have "upd (cur k) (\<lambda>th. th\<lparr>cont := fs\<rparr>) k = popped k"
    using th by (simp add: upd_def popped_def)
  then show ?thesis using assms(1) th by (simp add: resume_def split: if_splits)
qed

section \<open>Continuing a pending call\<close>

lemma after_down_wf: "after_down self s fs \<Longrightarrow> wf_cont self fs"
  by (cases s) (auto simp: after_lock_def base_def)

lemma base_simps [simp]:
  "base fs \<Longrightarrow> subjects fs = {}" "base fs \<Longrightarrow> creating fs = {}" "base fs \<Longrightarrow> awaiting fs = {}"
  "base fs \<Longrightarrow> \<not> past_exit fs" "base fs \<Longrightarrow> wf_cont self fs" "base []"
  by (auto simp: base_def)

lemma kinv_down:
  assumes i: "kinv k" and p: "pending k (cur k) = f # fs" and f: "f = Sema_retry_f s \<or> f = Sema_down_f s"
    and d: "sema_down s (popped k) = Some k'"
  shows "kinv k'"
proof -
  have ad: "after_down (cur k) s fs" using kinvD(8) [OF i, of "cur k"] p f by auto
  have ni: "idle_thread k \<noteq> Some (cur k)" using not_idle [OF i] p f by auto
  have exit: "xvalue k (cur k) \<noteq> 0" if "past_exit fs" "sema_value (semas k s) > 0"
    using ad that by (cases s) (auto simp: xvalue_def)
  obtain gs where m: "moved k k' gs (kids (popped k) (cur k))" and x: "\<And>t. xvalue k' t \<le> xvalue (popped k) t"
    and gs: "gs = pending (popped k) (cur k) \<and> sema_value (semas (popped k) s) > 0 \<or>
      gs = Sema_retry_f s # pending (popped k) (cur k)"
    using local_sema_down [OF popped_local d kinvD(1) [OF i] ni] by metis
  have "wf_cont (cur k) gs" using gs ad p by (auto simp: after_down_wf)
  moreover have "subjects gs \<subseteq> subjects fs" "awaiting gs \<subseteq> awaiting fs" "creating gs \<subseteq> creating fs"
    using gs p by auto
  moreover have "past_exit gs \<Longrightarrow> xvalue k (cur k) \<noteq> 0" using gs p exit by auto
  ultimately show ?thesis
    using m x p f ni by (intro kinv_same_kids [OF i]) (auto split: option.splits)
qed

lemma kinv_local:
  assumes i: "kinv k" and l: "local k k'" and ni: "idle_thread k \<noteq> Some (cur k)"
    and "kids k' (cur k) = kids k (cur k)" and "wf_cont (cur k) (pending k' (cur k))"
    and "subjects (pending k' (cur k)) \<subseteq> subjects (pending k (cur k))"
    and "awaiting (pending k' (cur k)) \<subseteq> awaiting (pending k (cur k))"
    and "creating (pending k' (cur k)) \<subseteq> creating (pending k (cur k))"
    and "past_exit (pending k' (cur k)) \<Longrightarrow> past_exit (pending k (cur k))"
    and "\<And>t. xvalue k' t \<le> xvalue k t"
  shows "kinv k'"
  using moved_of_local [OF kinvD(1) [OF i] l disjI1 [OF ni]] assms
  by (intro kinv_same_kids [OF i]) auto

lemma kinv_acquire_tail:
  assumes i: "kinv k" and p: "pending k (cur k) = Acquire_tail_f l # fs"
    and d: "acquire_tail l (popped k) = Some k'"
  shows "kinv k'"
proof (rule kinv_local [OF i])
  have k': "\<exists>f. k' = set_lock l (\<lambda>lk. lk\<lparr>holder := Some (cur k)\<rparr>)
      (upd (cur k) (\<lambda>th. th\<lparr>lock_holding := f (lock_holding th)\<rparr>) (popped k))"
    using d by (auto simp: acquire_tail_def Let_def split: if_splits)
  show "local k k'" using k' by auto
  show "idle_thread k \<noteq> Some (cur k)" using not_idle [OF i] p by auto
  show "wf_cont (cur k) (pending k' (cur k))"
    using k' p kinvD(8) [OF i, of "cur k"] by (auto simp: after_lock_def)
  show "past_exit (pending k (cur k))" if "past_exit (pending k' (cur k))"
    using k' p that kinvD(8) [OF i, of "cur k"] by (auto simp: after_lock_def)
qed (use d p in \<open>auto simp: acquire_tail_def Let_def split: if_splits\<close>)

lemma kinv_lock_acquire:
  assumes i: "kinv k" and l: "local k k1" and d: "lock_acquire l k1 = Some k'"
    and ni: "idle_thread k \<noteq> Some (cur k)" and "kids k1 (cur k) = kids k (cur k)"
    and al: "after_lock l (pending k1 (cur k))"
    and "subjects (pending k1 (cur k)) \<subseteq> subjects (pending k (cur k))"
    and "awaiting (pending k1 (cur k)) \<subseteq> awaiting (pending k (cur k))"
    and "creating (pending k1 (cur k)) \<subseteq> creating (pending k (cur k))"
    and "\<And>t. xvalue k1 t \<le> xvalue k t"
  shows "kinv k'"
proof -
  obtain gs where m: "moved k k' gs (kids k1 (cur k))" and x: "\<And>t. xvalue k' t \<le> xvalue k1 t"
    and gs: "gs = Acquire_tail_f l # pending k1 (cur k) \<or>
      gs = Sema_retry_f (Lock_sema l) # Acquire_tail_f l # pending k1 (cur k)"
    using lock_acquire_moved [OF l d kinvD(1) [OF i] ni] by metis
  have "xvalue k' t \<le> xvalue k t" for t using x [of t] assms(10) [of t] by simp
  then show ?thesis
    using m gs assms by (intro kinv_same_kids [OF i, of k' gs]) auto
qed

lemma kinv_lock_release:
  assumes i: "kinv k" and l: "local k k1" and d: "lock_release l k1 = Some k'"
    and ni: "idle_thread k \<noteq> Some (cur k)" and "kids k1 (cur k) = kids k (cur k)"
    and "wf_cont (cur k) (pending k1 (cur k))"
    and "subjects (pending k1 (cur k)) \<subseteq> subjects (pending k (cur k))"
    and "awaiting (pending k1 (cur k)) \<subseteq> awaiting (pending k (cur k))"
    and "creating (pending k1 (cur k)) \<subseteq> creating (pending k (cur k))"
    and "past_exit (pending k1 (cur k)) \<Longrightarrow> past_exit (pending k (cur k))"
    and "\<And>t. xvalue k1 t \<le> xvalue k t"
  shows "kinv k'"
  using lock_release_moved [OF l d kinvD(1) [OF i] ni] assms
  by (intro kinv_same_kids [OF i, of k' "pending k1 (cur k)"]) auto

lemma kinv_sema_up:
  assumes i: "kinv k" and l: "local k k1" and d: "sema_up s k1 = Some k'"
    and ni: "idle_thread k \<noteq> Some (cur k)" and "kids k1 (cur k) = kids k (cur k)"
    and "wf_cont (cur k) (pending k1 (cur k))"
    and "subjects (pending k1 (cur k)) \<subseteq> subjects (pending k (cur k))"
    and "awaiting (pending k1 (cur k)) \<subseteq> awaiting (pending k (cur k))"
    and "creating (pending k1 (cur k)) \<subseteq> creating (pending k (cur k))"
    and "past_exit (pending k1 (cur k)) \<Longrightarrow> past_exit (pending k (cur k))"
    and "\<And>t. xvalue k1 t \<le> xvalue k t" and "\<And>t. s \<noteq> Exit_mutex t"
  shows "kinv k'"
  using local_sema_up [OF l d kinvD(1) [OF i] disjI1 [OF ni]] assms
  by (intro kinv_same_kids [OF i, of k' "pending k1 (cur k)"]) auto

lemma pending_push_local:
  "placed k \<Longrightarrow> local k k1 \<Longrightarrow> pending (push_cont f k1) (cur k) = f # pending k1 (cur k)"
  using pending_push_cur [of k1 f] local_running [of k k1] localD(1) [of k k1] by simp

lemma cond_signal_cases:
  assumes "cond_signal v l k = Some k'"
  obtains "k' = k" "conds k v = []" | t ts where "conds k v = t # ts"
    "sema_up (Waiter_sema t) (k\<lparr>conds := (conds k)(v := ts)\<rparr>) = Some k'"
  using assms
  by (auto simp: cond_signal_def lock_held_by_current_thread_def ASSERT_def
      split: if_splits Option.bind_splits list.splits)

lemma kinv_cond_signal:
  assumes i: "kinv k" and l: "local k k1" and d: "cond_signal v l' k1 = Some k'"
    and ni: "idle_thread k \<noteq> Some (cur k)" and kids: "kids k1 (cur k) = kids k (cur k)"
    and wf: "wf_cont (cur k) (pending k1 (cur k))"
    and sub: "subjects (pending k1 (cur k)) = {}" "awaiting (pending k1 (cur k)) = {}"
      "creating (pending k1 (cur k)) = {}" "\<not> past_exit (pending k1 (cur k))"
    and x: "xvalue k1 = xvalue k"
  shows "kinv k'"
  using d
proof (cases rule: cond_signal_cases)
  case 1
  then show ?thesis using assms by (intro kinv_local [OF i]) simp_all
next
  case (2 t ts)
  show ?thesis by (rule kinv_sema_up [OF i _ 2(2)]) (use assms in simp_all)
qed

lemma kinv_broadcast:
  assumes i: "kinv k" and l: "local k k1" and d: "cond_broadcast v l' k1 = Some k'"
    and ni: "idle_thread k \<noteq> Some (cur k)" and kids: "kids k1 = kids k"
    and p: "pending k1 (cur k) = []" and x: "xvalue k1 = xvalue k"
  shows "kinv k'"
proof (cases "conds k1 v = []")
  case True
  then show ?thesis using assms by (intro kinv_local [OF i, of k']) (simp_all add: cond_broadcast_def)
next
  case False
  then have s: "cond_signal v l' (push_cont (Broadcast_f v l') k1) = Some k'"
    using d by (simp add: cond_broadcast_def)
  show ?thesis
    using assms pending_push_local [OF kinvD(1) [OF i] l, of "Broadcast_f v l'"]
    by (intro kinv_cond_signal [OF i _ s]) (simp_all add: past_exit_def del: pending_push)
qed

lemma kinv_allocate_tid:
  assumes i: "kinv k" and p: "pending k (cur k) = Tid_locked_f t # fs"
    and d: "allocate_tid t (popped k) = Some k'"
  shows "kinv k'"
proof -
  let ?k = "popped k\<lparr>next_tid := next_tid (popped k) + 1\<rparr>"
  let ?f = "Create_tail_f t (next_tid (popped k))"
  have r: "lock_release tid_lock (push_cont ?f ?k) = Some k'"
    using d by (simp add: allocate_tid_def Let_def)
  have l: "local k ?k" by simp
  have "pending (push_cont ?f ?k) (cur k) = ?f # fs"
    using pending_push_local [OF kinvD(1) [OF i] l] p by simp
  then show ?thesis
    using p not_idle [OF i] kinvD(8) [OF i, of "cur k"]
    by (intro kinv_lock_release [OF i _ r]) (auto simp del: pending_push)
qed

lemma kinv_ret:
  assumes i: "kinv k" and p: "pending k (cur k) = f # fs" and b: "base fs" and f: "f \<noteq> Idle_loop_f"
    and k': "k' = upd (cur k) g (popped k)"
    and g: "\<And>th. status (g th) = status th" "\<And>th. cont (g th) = cont th" "\<And>th. child_list (g th) = child_list th"
  shows "kinv k'"
  using assms not_idle [OF i] by (intro kinv_local [OF i]) auto

lemma kinv_exit_next:
  assumes i: "kinv k" and p: "pending k (cur k) = Exit_next_f l # fs"
    and d: "exit_next l (popped k) = Some k'"
  shows "kinv k'"
proof -
  obtain e where k': "k' = push_cont (Exit_locks_f e) (popped k)" using d by (auto simp: exit_next_def)
  have "pending k' (cur k) = [Exit_locks_f e]"
    using pending_push_local [OF kinvD(1) [OF i], of "popped k"] p kinvD(8) [OF i, of "cur k"]
    by (simp add: k' del: pending_push)
  then show ?thesis
    using not_idle [OF i] p by (intro kinv_local [OF i]) (auto simp: k' simp del: pending_push)
qed

lemma kinv_exit_locks:
  assumes i: "kinv k" and p: "pending k (cur k) = Exit_locks_f e # fs"
    and d: "exit_locks e (popped k) = Some k'"
  shows "kinv k'"
proof -
  have ni: "idle_thread k \<noteq> Some (cur k)" using not_idle [OF i] p by auto
  have fs: "fs = []" using kinvD(8) [OF i, of "cur k"] p by simp
  note pl = kinvD(1) [OF i]
  show ?thesis
  proof (cases e)
    case (Hlock l)
    then have r: "lock_release l (push_cont (Exit_next_f l) (popped k)) = Some k'"
      using d by (auto simp: exit_locks_def split: if_splits)
    show ?thesis
      using pending_push_local [OF pl, of "popped k"] p fs ni
      by (intro kinv_lock_release [OF i _ r]) (auto simp del: pending_push)
  next
    case (Htail t)
    let ?k = "push_cont Exit_tail_f (popped k)"
    let ?k2 = "push_cont (Sema_down_f (Exit_mutex (cur k))) ?k"
    have u: "sema_up (Wait_mutex (cur k)) ?k2 = Some k'"
      using d Htail by (auto simp: exit_locks_def ASSERT_def split: if_splits)
    have "pending ?k2 (cur k) = [Sema_down_f (Exit_mutex (cur k)), Exit_tail_f]"
      using pending_push_local [OF pl, of "popped k"] pending_push_local [OF pl, of ?k] p fs
      by (simp del: pending_push)
    then show ?thesis
      using p fs ni by (intro kinv_sema_up [OF i _ u]) (auto simp del: pending_push)
  qed
qed

lemma kids_upd_cur:
  assumes "st k (cur k) = Some THREAD_RUNNING" and "\<And>th. child_list (g th) = h (child_list th)"
  shows "kids (upd (cur k) g k) (cur k) = h (kids k (cur k))"
  using assms by (auto simp: kids_upd kids_def st_def split: option.splits)

text \<open>A child is released: it leaves the list of children, then its exit semaphore is raised.\<close>

lemma kinv_release_child:
  assumes i: "kinv k" and l: "local k k1" and u: "sema_up (Exit_mutex child) k1 = Some k'"
    and ni: "idle_thread k \<noteq> Some (cur k)" and child: "child \<in> set (kids k (cur k))"
    and kids: "kids k1 (cur k) = remove1 child (kids k (cur k))"
    and wf: "wf_cont (cur k) (pending k1 (cur k))"
    and fs: "subjects (pending k1 (cur k)) = {}" "awaiting (pending k1 (cur k)) = {}"
      "creating (pending k1 (cur k)) = {}" "\<not> past_exit (pending k1 (cur k))"
    and x: "xvalue k1 = xvalue k"
  shows "kinv k'"
proof (rule kinv_moved [OF i])
  note m = local_sema_up [OF l u kinvD(1) [OF i] disjI1 [OF ni]]
  note f = kinvD(3) [OF i]
  show "moved k k' (pending k1 (cur k)) (remove1 child (kids k (cur k)))" using m(1) kids by simp
  show "set (remove1 child (kids k (cur k))) \<union> subjects (pending k1 (cur k)) \<subseteq> refs k (cur k)"
    using fs(1) set_remove1_subset [of child "kids k (cur k)"] by (auto simp: refs_def)
  show "distinct (remove1 child (kids k (cur k)))" using familyD(5) [OF f] by simp
  show "xvalue k' t = 0 \<or>
      t \<in> refs k (cur k) - (set (remove1 child (kids k (cur k))) \<union> subjects (pending k1 (cur k)))"
    if "xvalue k t = 0" for t
    using m(2) [of t] that x fs(1) child familyD(5) [OF f, of "cur k"]
    by (auto simp: refs_def split: if_splits)
qed (use assms in simp_all)

lemma kinv_wait_tail:
  assumes i: "kinv k" and p: "pending k (cur k) = Wait_tail_f child # fs"
    and d: "wait_tail child (popped k) = Some k'"
  shows "kinv k'"
proof -
  note run = kinvD(7) [OF i]
  obtain ch where ch: "thr (popped k) child = Some ch"
    and u: "sema_up (Exit_mutex child) (upd (cur k) (\<lambda>th. th\<lparr>child_list := remove1 child (child_list th)\<rparr>)
      (set_retval (exit_status ch) (popped k))) = Some k'"
    using d by (auto simp: wait_tail_def Let_def split: if_splits Option.bind_splits)
  let ?r = "set_retval (exit_status ch) (popped k)"
  let ?k = "upd (cur k) (\<lambda>th. th\<lparr>child_list := remove1 child (child_list th)\<rparr>) ?r"
  have r: "cur ?r = cur k" "kids ?r = kids k" "st ?r = st k" by (simp_all add: set_retval_def)
  have fs: "fs = []" using kinvD(8) [OF i, of "cur k"] p by simp
  have child: "child \<in> set (kids k (cur k))" using familyD(6) [OF kinvD(3) [OF i], of "cur k"] p by simp
  have kids: "kids ?k (cur k) = remove1 child (kids k (cur k))"
    using kids_upd_cur [of ?r "\<lambda>th. th\<lparr>child_list := remove1 child (child_list th)\<rparr>" "remove1 child"] run r
    by simp
  have "local k ?k" by (simp add: set_retval_def)
  then show ?thesis
    by (rule kinv_release_child [OF i _ u _ child kids])
      (use p fs not_idle [OF i] in \<open>auto simp: set_retval_def\<close>)
qed

lemma kinv_exit_children:
  assumes i: "kinv k" and p: "pending k (cur k) = Exit_children_f # fs"
    and d: "exit_children (popped k) = Some k'"
  shows "kinv k'"
proof -
  note run = kinvD(7) [OF i] and pl = kinvD(1) [OF i]
  have fs: "fs = []" using kinvD(8) [OF i, of "cur k"] p by simp
  have ni: "idle_thread k \<noteq> Some (cur k)" using not_idle [OF i] p by auto
  obtain th where th: "thr (popped k) (cur k) = Some th" using run by (auto simp: popped_def st_def)
  have "kids (popped k) (cur k) = child_list th" using th by (simp add: kids_def del: popped_views)
  then have kth: "child_list th = kids k (cur k)" by simp
  show ?thesis
  proof (cases "child_list th")
    case Nil
    then obtain e where k': "k' = push_cont (Exit_locks_f e) (popped k)"
      using d th run by (auto simp: exit_children_def)
    have "pending k' (cur k) = [Exit_locks_f e]"
      using pending_push_local [OF pl, of "popped k"] p fs by (simp add: k' del: pending_push)
    then show ?thesis
      using ni by (intro kinv_local [OF i]) (auto simp: k' simp del: pending_push)
  next
    case (Cons child cs)
    let ?u = "upd (cur k) (\<lambda>th. th\<lparr>child_list := cs\<rparr>) (popped k)"
    have u: "sema_up (Exit_mutex child) (push_cont Exit_children_f ?u) = Some k'"
      using d th run Cons by (simp add: exit_children_def)
    have l: "local k ?u" by simp
    have kids: "kids (push_cont Exit_children_f ?u) (cur k) = remove1 child (kids k (cur k))"
      using th Cons kth by (simp add: kids_upd)
    have "pending (push_cont Exit_children_f ?u) (cur k) = [Exit_children_f]"
      using pending_push_local [OF pl l] p fs by (simp del: pending_push)
    then show ?thesis
      using Cons kth ni
      by (intro kinv_release_child [OF i _ u _ _ kids]) (simp_all del: pending_push)
  qed
qed

lemma kinv_create_loaded:
  assumes i: "kinv k" and p: "pending k (cur k) = Create_loaded_f t # fs"
    and d: "create_loaded t (popped k) = Some k'"
  shows "kinv k'"
proof -
  note run = kinvD(7) [OF i] and pl = kinvD(1) [OF i] and f = kinvD(3) [OF i]
  have b: "base fs" using kinvD(8) [OF i, of "cur k"] p by simp
  have ni: "idle_thread k \<noteq> Some (cur k)" using not_idle [OF i] p by auto
  obtain k1 where k1: "k1 = popped k \<or> k1 = upd (cur k) (\<lambda>th. th\<lparr>child_list := remove1 t (child_list th)\<rparr>) (popped k)"
    and c: "check_preemption (push_cont (Create_ret_f t) k1) = Some k'"
    using d by (auto simp: create_loaded_def Let_def split: if_splits Option.bind_splits)
  have l: "local k k1" using k1 by auto
  have pend: "pending (push_cont (Create_ret_f t) k1) (cur k) = Create_ret_f t # fs"
    using pending_push_local [OF pl l] k1 p by (auto simp del: pending_push)
  have kids: "kids k1 (cur k) = kids k (cur k) \<or> kids k1 (cur k) = remove1 t (kids k (cur k))"
    using k1 kids_upd_cur [of "popped k" "\<lambda>th. th\<lparr>child_list := remove1 t (child_list th)\<rparr>" "remove1 t"] run
    by auto
  have sub: "set (kids k1 (cur k)) \<subseteq> set (kids k (cur k))"
    using kids set_remove1_subset [of t "kids k (cur k)"] by auto
  have x1: "xvalue k1 = xvalue k" using k1 by auto
  note m = local_check [OF local_push [OF l] c pl ni]
  show ?thesis
  proof (rule kinv_moved [OF i])
    show "moved k k' (Create_ret_f t # fs) (kids k1 (cur k))" using m(1) pend by simp
    show "set (kids k1 (cur k)) \<union> subjects (Create_ret_f t # fs) \<subseteq> refs k (cur k)"
      using sub b p by (auto simp: refs_def)
    show "distinct (kids k1 (cur k))" using kids familyD(5) [OF f, of "cur k"] by auto
  qed (use b ni m(2) x1 in simp_all)
qed

text \<open>The new thread goes to the ready list; it may become a child of the running thread.\<close>

lemma create_tail_unblocked:
  assumes i: "kinv k" and p: "pending k (cur k) = Create_tail_f t tid # fs"
    and u: "thread_unblock t (upd t (\<lambda>th. th\<lparr>t_tid := tid\<rparr>) (popped k)) = Some k2"
  shows "placed k2" and "cur k2 = cur k" and "pending k2 = (pending k)(cur k := fs)" and "kids k2 = kids k"
    and "idle_thread k2 = idle_thread k" and "thr k2 x = None \<longleftrightarrow> thr k x = None" and "xvalue k2 = xvalue k"
    and "x \<noteq> t \<Longrightarrow> st k2 x = st k x" and "in_external_intr k2 = in_external_intr k"
proof -
  let ?k1 = "upd t (\<lambda>th. th\<lparr>t_tid := tid\<rparr>) (popped k)"
  have cr: "t \<in> creating (pending k (cur k))" using p by simp
  note f = familyD(8,9) [OF kinvD(3) [OF i] cr]
  have tc: "t \<noteq> cur k" using f(2) kinvD(7) [OF i] by auto
  have l: "local k ?k1" by simp
  have ni: "idle_thread k \<noteq> Some (cur k)" using not_idle [OF i] p by auto
  have p1: "placed ?k1" using local_placed [OF kinvD(1) [OF i] l] ni by blast
  have k2: "k2 = upd t (\<lambda>th. th\<lparr>status := THREAD_READY\<rparr>)
      (?k1\<lparr>ready_list := insert_seq (compare_priorities ?k1) t (ready_list ?k1)\<rparr>)"
    using u by (simp add: thread_unblock_eq)
  have loop: "\<not> in_loop ?k1 t s" for s using f(1) tc by (simp add: in_loop_def)
  have q: "queued ?k1" using p1 by (simp add: placed_def)
  show "placed k2"
  proof (rule thread_unblock_placed [OF u])
    show "one_runs ?k1" using p1 by (simp add: placed_def)
    show "idle_thread ?k1 \<noteq> Some t" using kinvD(4) [OF i] f(1) by (auto simp: idle_ok_def)
    show "x \<in> set (waiters (semas ?k1 s)) \<longleftrightarrow> x \<noteq> t \<and> st ?k1 x = Some THREAD_BLOCKED \<and> in_loop ?k1 x s" for x s
      using queuedD(4) [OF q, of x s] loop by auto
  qed (use queuedD [OF q] in auto)
  show "cur k2 = cur k" "idle_thread k2 = idle_thread k" "in_external_intr k2 = in_external_intr k"
    by (simp_all add: k2)
  show "pending k2 = (pending k)(cur k := fs)" using p by (simp add: k2)
  show "kids k2 = kids k" by (simp add: k2 kids_upd_same) (simp add: kids_def fun_eq_iff popped_def split: option.split)
  show "thr k2 x = None \<longleftrightarrow> thr k x = None" by (auto simp: k2 popped_def)
  show "xvalue k2 = xvalue k" by (simp add: k2 xvalue_def fun_eq_iff)
  show "x \<noteq> t \<Longrightarrow> st k2 x = st k x" by (simp add: k2)
qed

lemma kinv_create_tail:
  assumes i: "kinv k" and p: "pending k (cur k) = Create_tail_f t tid # fs"
    and d: "create_tail t tid (popped k) = Some k'"
  shows "kinv k'"
proof -
  have b: "base fs" using kinvD(8) [OF i, of "cur k"] p by simp
  have ni: "idle_thread k \<noteq> Some (cur k)" using not_idle [OF i] p by auto
  have cr: "t \<in> creating (pending k (cur k))" using p by simp
  have tref: "t \<in> refs k (cur k)" using p by (simp add: refs_def)
  note f = kinvD(3) [OF i]
  obtain k2 th where u: "thread_unblock t (upd t (\<lambda>th. th\<lparr>t_tid := tid\<rparr>) (popped k)) = Some k2"
    and th: "thr k2 (cur k2) = Some th"
    and r: "(if calling_exec th then sema_down (Load_mutex t) (push_cont (Create_loaded_f t)
        (upd (cur k2) (\<lambda>th. th\<lparr>child_list := child_list th @ [t]\<rparr>) k2))
      else check_preemption (push_cont (Create_ret_f t) k2)) = Some k'"
    using d by (auto simp: create_tail_def ASSERT_def split: if_splits Option.bind_splits)
  note v = create_tail_unblocked [OF i p u]
  have ni2: "idle_thread k2 \<noteq> Some (cur k2)" using ni v(2,5) by simp
  obtain gs cs where m: "moved k2 k' gs cs" and x: "\<And>t. xvalue k' t \<le> xvalue k2 t"
    and gc: "gs = Create_ret_f t # fs \<and> cs = kids k (cur k) \<or>
      (gs = Create_loaded_f t # fs \<or> gs = Sema_retry_f (Load_mutex t) # Create_loaded_f t # fs) \<and>
      cs = kids k (cur k) @ [t]"
  proof (cases "calling_exec th")
    case True
    let ?u = "upd (cur k2) (\<lambda>th. th\<lparr>child_list := child_list th @ [t]\<rparr>) k2"
    have l: "local k2 ?u" by simp
    have kids: "kids ?u (cur k2) = kids k (cur k) @ [t]"
      using kids_upd_cur [OF placed_cur [OF v(1)], of "\<lambda>th. th\<lparr>child_list := child_list th @ [t]\<rparr>" "\<lambda>cs. cs @ [t]"]
      by (simp add: v)
    have pend: "pending (push_cont (Create_loaded_f t) ?u) (cur k2) = Create_loaded_f t # fs"
      using pending_push_local [OF v(1) l] by (simp add: v del: pending_push)
    have dn: "sema_down (Load_mutex t) (push_cont (Create_loaded_f t) ?u) = Some k'" using r True by simp
    obtain gs where g: "moved k2 k' gs (kids (push_cont (Create_loaded_f t) ?u) (cur k2))"
      "\<And>x. xvalue k' x \<le> xvalue (push_cont (Create_loaded_f t) ?u) x"
      "gs = pending (push_cont (Create_loaded_f t) ?u) (cur k2) \<and>
          sema_value (semas (push_cont (Create_loaded_f t) ?u) (Load_mutex t)) > 0 \<or>
        gs = Sema_retry_f (Load_mutex t) # pending (push_cont (Create_loaded_f t) ?u) (cur k2)"
      by (rule local_sema_down [OF local_push [OF l] dn v(1) ni2]) (rule that)
    show thesis
      by (rule that [of gs "kids k (cur k) @ [t]"])
        (use g(1,2) kids in simp, use g(2) in simp, use g(3) [unfolded pend] in blast)
  next
    case False
    then have c: "check_preemption (push_cont (Create_ret_f t) k2) = Some k'" using r by simp
    note m = local_check [OF local_push [OF local_refl] c v(1) ni2]
    have "pending (push_cont (Create_ret_f t) k2) (cur k2) = Create_ret_f t # fs"
      using pending_push_local [OF v(1) local_refl] by (simp add: v del: pending_push)
    then show thesis
      using m by (intro that [of "Create_ret_f t # fs" "kids k (cur k)"]) (simp_all add: v del: pending_push)
  qed
  have pend': "pending k' = (pending k)(cur k := gs)" using m by (auto simp: moved_def v fun_eq_iff)
  have cgs: "creating gs = {}" using gc b by auto
  show ?thesis
  proof (rule inv_move [OF i])
    show "pending k' = (pending k)(cur k := gs)" by (rule pend')
    show "kids k' = (kids k)(cur k := cs)" using m by (auto simp: moved_def v fun_eq_iff)
    show "wf_cont (cur k) gs" using gc b by auto
    show "set cs \<union> subjects gs \<subseteq> refs k (cur k)" using gc b tref by (auto simp: refs_def)
    show "distinct cs" using gc familyD(5) [OF f, of "cur k"] familyD(7) [OF f cr] by auto
    show "awaiting gs \<subseteq> set cs" using gc b by auto
    show "past_exit gs \<Longrightarrow> xvalue k (cur k) \<noteq> 0 \<or> past_exit (pending k (cur k))" using gc by auto
    show "xvalue k' x = 0 \<or> x \<in> refs k (cur k) - (set cs \<union> subjects gs)" if "xvalue k x = 0" for x
      using x [of x] that v(7) by simp
    show "st k' x = Some THREAD_BLOCKED"
      if c: "x \<in> creating (pending k' q)" and e: "pending k x = []" and s: "st k x = Some THREAD_BLOCKED" for x q
    proof -
      have "q \<noteq> cur k" using c cgs pend' by auto
      then have "x \<in> refs k q" using c pend' creating_subset by (auto simp: refs_def)
      then have "x \<noteq> t" using familyD(4) [OF f _ tref, of q] \<open>q \<noteq> cur k\<close> by auto
      moreover have "x \<noteq> cur k" using s kinvD(7) [OF i] by auto
      moreover have "idle_thread k \<noteq> Some x" using e kinvD(4) [OF i] by (auto simp: idle_ok_def)
      ultimately show ?thesis using m e s by (auto simp: moved_def keeps_new_def v)
    qed
  qed (use m ni cgs kinvD(6) [OF i] in \<open>auto simp: moved_def v\<close>)
qed

section \<open>The end of a thread\<close>

lemma schedule_dying:
  assumes s: "schedule k = Some k'" and d: "st k (cur k) = Some THREAD_DYING"
    and q: "queued k" and ni: "idle_thread k \<noteq> Some (cur k)"
  obtains n where "fst (next_thread_to_run k) = Some n" and "n \<noteq> cur k" and "is_thread n k"
    and "k' = (let k1 = (upd n (\<lambda>th. th\<lparr>status := THREAD_RUNNING\<rparr>) k)
                 \<lparr>ready_list := tl (ready_list k), cur := n, thread_ticks := 0\<rparr>
               in if cur k = initial_thread k then k1 else k1\<lparr>thr := (thr k1)(cur k := None)\<rparr>)"
proof -
  obtain nxt k1 where nx: "next_thread_to_run k = (nxt, k1)" by force
  then have k1: "k1 = k\<lparr>ready_list := tl (ready_list k)\<rparr>"
    by (auto simp: next_thread_to_run_def split: list.splits)
  obtain n where n: "nxt = Some n" using s nx k1
    by (auto simp: schedule_def Let_def split: Option.bind_splits)
  have nc: "n \<noteq> cur k"
    using nx n ni d queuedD(3) [OF q, of n]
    by (cases "ready_list k") (auto simp: next_thread_to_run_def)
  obtain th where th: "thr k (cur k) = Some th" "status th = THREAD_DYING" using d by (auto simp: st_def)
  have "is_thread n k" using s nx n k1
    by (auto simp: schedule_def Let_def ASSERT_def is_thread_def split: Option.bind_splits if_splits)
  then show thesis
    using s nx n k1 nc th that [of n]
    by (auto simp: schedule_def thread_schedule_tail_def running_thread_def is_thread_def
        upd_def ASSERT_def Let_def split: Option.bind_splits if_splits option.splits)
qed

lemma queued_dying:
  assumes "placed k"
  shows "queued (upd (cur k) (\<lambda>th. th\<lparr>status := THREAD_DYING\<rparr>) k)" (is "queued ?k1")
proof -
  have q: "queued k" and c: "st k (cur k) = Some THREAD_RUNNING"
    using assms placed_cur by (auto simp: placed_def)
  have st: "st ?k1 t = (if t = cur k then Some THREAD_DYING else st k t)" for t
    using c by simp
  have loop: "in_loop ?k1 t s = in_loop k t s" for t s
    by (rule in_loop_cong) simp
  have f: "idle_thread ?k1 = idle_thread k" "semas ?k1 = semas k" "ready_list ?k1 = ready_list k"
    by simp_all
  show ?thesis
    unfolding queued_def f loop st using queuedD [OF q] c by auto
qed

text \<open>After the switch away from a dying thread, which is freed unless it is the initial one.\<close>

lemma exit_tail_views:
  assumes p: "placed k" and e: "pending k (cur k) = []" and ni: "idle_thread k \<noteq> Some (cur k)"
    and d: "exit_tail k = Some k'"
  shows "placed k'" and "pending k' = pending k" and "idle_thread k' = idle_thread k"
    and "semas k' = semas k" and "in_external_intr k' = in_external_intr k"
    and "\<exists>cs. kids k' = (kids k)(cur k := cs) \<and> (cs = [] \<or> cs = kids k (cur k))"
    and "thr k t = None \<Longrightarrow> thr k' t = None" and "thr k' t = None \<Longrightarrow> thr k t = None \<or> t = cur k"
    and "st k t = Some THREAD_BLOCKED \<Longrightarrow> pending k t = [] \<Longrightarrow> idle_thread k \<noteq> Some t \<Longrightarrow> st k' t = Some THREAD_BLOCKED"
    and "locks k' = locks k" and "\<exists>hs. held k' = (held k)(cur k := hs) \<and> (hs = [] \<or> hs = held k (cur k))"
    and "sleep_list k' = sleep_list k" and "ticks k' = ticks k" and "conds k' = conds k"
proof -
  let ?j = "k\<lparr>all_list := remove1 (cur k) (all_list k)\<rparr>"
  let ?k = "upd (cur k) (\<lambda>th. th\<lparr>status := THREAD_DYING\<rparr>) ?j"
  have p0: "placed ?j" by (rule placed_keep [OF p]) simp_all
  have run: "st k (cur k) = Some THREAD_RUNNING" by (rule placed_cur [OF p])
  have q: "queued ?k" using queued_dying [OF p0] by simp
  have s: "schedule ?k = Some k'" using d run by (simp add: exit_tail_def Let_def)
  have dy: "st ?k (cur ?k) = Some THREAD_DYING" and ni': "idle_thread ?k \<noteq> Some (cur ?k)"
    using run ni by simp_all
  obtain n where n: "fst (next_thread_to_run ?k) = Some n" "n \<noteq> cur ?k" "is_thread n ?k"
    and k': "k' = (let k1 = (upd n (\<lambda>th. th\<lparr>status := THREAD_RUNNING\<rparr>) ?k)
                 \<lparr>ready_list := tl (ready_list ?k), cur := n, thread_ticks := 0\<rparr>
               in if cur ?k = initial_thread ?k then k1 else k1\<lparr>thr := (thr k1)(cur ?k := None)\<rparr>)"
    by (rule schedule_dying [OF s dy q ni']) (rule that)
  have n2: "n \<noteq> cur k" using n(2) by simp
  have thr: "thr k' t = (if t = n then map_option (\<lambda>th. th\<lparr>status := THREAD_RUNNING\<rparr>) (thr k n)
      else if t = cur k then (if cur k = initial_thread k
        then map_option (\<lambda>th. th\<lparr>status := THREAD_DYING\<rparr>) (thr k t) else None) else thr k t)" for t
    using n2 by (auto simp: k' Let_def)
  have fields: "ready_list k' = tl (ready_list k)" "cur k' = n" "idle_thread k' = idle_thread k" "semas k' = semas k"
    "in_external_intr k' = in_external_intr k" "locks k' = locks k" "sleep_list k' = sleep_list k"
    "ticks k' = ticks k" "conds k' = conds k"
    by (simp_all add: k' Let_def)
  have nn: "thr k n \<noteq> None" using n2 n(3) by (auto simp: is_thread_def)
  have st: "st k' t = (if t = n then Some THREAD_RUNNING else if t = cur k
      then (if cur k = initial_thread k then Some THREAD_DYING else None) else st k t)" for t
    using nn run by (auto simp: st_def thr option.map_comp o_def)
  show pend: "pending k' = pending k"
    using e by (auto simp: fun_eq_iff pending_def thr split: option.splits)
  have loop: "in_loop k' t s = in_loop k t s" for t s by (simp add: in_loop_def pend)
  have qk: "queued k" using p by (simp add: placed_def)
  have ready: "t \<in> set (tl (ready_list k)) \<longleftrightarrow> t \<noteq> n \<and> st k t = Some THREAD_READY \<and> idle_thread k \<noteq> Some t" for t
    using n(1) queuedD(1) [OF qk] queuedD(3) [OF qk, of t]
    by (cases "ready_list k") (auto simp: next_thread_to_run_def)
  have nb: "\<not> (st k n = Some THREAD_BLOCKED \<and> in_loop k n s)" for s
    using n(1) queuedD(3,5) [OF qk, of n]
    by (cases "ready_list k") (auto simp: next_thread_to_run_def)
  have "one_runs k'" using p by (auto simp: one_runs_def st fields placed_def)
  moreover have "queued k'"
    unfolding queued_def fields loop ready st
    using queuedD [OF qk] nb n2 run e by (auto simp: distinct_tl in_loop_def)
  ultimately show "placed k'" by (simp add: placed_def)
  show "\<exists>cs. kids k' = (kids k)(cur k := cs) \<and> (cs = [] \<or> cs = kids k (cur k))"
    by (rule exI [of _ "kids k' (cur k)"]) (auto simp: fun_eq_iff kids_def thr split: option.splits)
  show "\<exists>hs. held k' = (held k)(cur k := hs) \<and> (hs = [] \<or> hs = held k (cur k))"
    by (rule exI [of _ "held k' (cur k)"]) (auto simp: fun_eq_iff held_def thr split: option.splits)
  show "thr k t = None \<Longrightarrow> thr k' t = None" "thr k' t = None \<Longrightarrow> thr k t = None \<or> t = cur k"
    using nn n2 by (auto simp: thr split: if_splits)
  show "st k' t = Some THREAD_BLOCKED"
    if t: "st k t = Some THREAD_BLOCKED" "pending k t = []" "idle_thread k \<noteq> Some t"
  proof -
    have "t \<noteq> n"
      using n(1) t(1,3) queuedD(3) [OF qk, of n] by (cases "ready_list k") (auto simp: next_thread_to_run_def)
    moreover have "t \<noteq> cur k" using t(1) run by auto
    ultimately show ?thesis using t by (simp add: st)
  qed
  show "idle_thread k' = idle_thread k" "semas k' = semas k" "in_external_intr k' = in_external_intr k"
    "locks k' = locks k" "sleep_list k' = sleep_list k" "ticks k' = ticks k" "conds k' = conds k"
    by (fact fields)+
qed

lemma kinv_exit_tail:
  assumes i: "kinv k" and p: "pending k (cur k) = Exit_tail_f # fs" and d: "exit_tail (popped k) = Some k'"
  shows "kinv k'"
proof -
  have fs: "fs = []" using kinvD(8) [OF i, of "cur k"] p by simp
  have ni: "idle_thread k \<noteq> Some (cur k)" using not_idle [OF i] p by auto
  have pl: "placed (popped k)" using local_placed [OF kinvD(1) [OF i] popped_local] ni by blast
  have e: "pending (popped k) (cur (popped k)) = []" and ni': "idle_thread (popped k) \<noteq> Some (cur (popped k))"
    using p fs ni by simp_all
  note v = exit_tail_views [OF pl e ni' d]
  obtain cs where cs: "kids k' = (kids k)(cur k := cs)" "cs = [] \<or> cs = kids k (cur k)" using v(6) by auto
  have thr: "thr (popped k) t = None \<longleftrightarrow> thr k t = None" for t by (auto simp: popped_def)
  note f = kinvD(3) [OF i]
  show ?thesis
  proof (rule inv_move [OF i v(1)])
    show "pending k' = (pending k)(cur k := [])" using v(2) p fs by simp
    show "kids k' = (kids k)(cur k := cs)" by (rule cs(1))
    show "thr k' t = None \<Longrightarrow> thr k t = None \<or> past_exit (pending k t)" for t
      using v(8) [of t] thr [of t] p by auto
    show "set cs \<union> subjects [] \<subseteq> refs k (cur k)" using cs(2) by (auto simp: refs_def)
    show "distinct cs" using cs(2) familyD(5) [OF f, of "cur k"] by auto
    show "xvalue k' t = 0 \<or> t \<in> refs k (cur k) - (set cs \<union> subjects [])" if "xvalue k t = 0" for t
      using v(4) that by (simp add: xvalue_def)
    show "st k' t = Some THREAD_BLOCKED" if "pending k t = []" "st k t = Some THREAD_BLOCKED" for t
    proof -
      have "idle_thread k \<noteq> Some t" using that(1) kinvD(4) [OF i] by (auto simp: idle_ok_def)
      then show ?thesis using v(9) [of t] that p by (cases "t = cur k") simp_all
    qed
  qed (use v ni kinvD(6) [OF i] thr in simp_all)
qed

section \<open>The idle thread\<close>

lemma kinv_idle_loop:
  assumes i: "kinv k" and p: "pending k (cur k) = Idle_loop_f # fs" and d: "idle_loop (popped k) = Some k'"
  shows "kinv k'"
proof -
  have fs: "fs = []" using kinvD(8) [OF i, of "cur k"] p by simp
  let ?k = "push_cont Idle_loop_f (popped k)"
  have l: "local k ?k" by simp
  have pend: "pending ?k (cur k) = [Idle_loop_f]"
    using pending_push_local [OF kinvD(1) [OF i] popped_local] p fs by (simp del: pending_push)
  have nl: "\<not> in_loop ?k (cur k) s" for s using pend by (simp add: in_loop_def del: pending_push)
  have pl: "placed ?k" using local_placed [OF kinvD(1) [OF i] l] nl by blast
  have b: "thread_block ?k = Some k'" using d by (simp add: idle_loop_def)
  have q: "queued (upd (cur ?k) (\<lambda>th. th\<lparr>status := THREAD_BLOCKED\<rparr>) ?k)"
    by (rule queued_block [OF pl]) (use nl in simp)
  have s: "schedule (upd (cur ?k) (\<lambda>th. th\<lparr>status := THREAD_BLOCKED\<rparr>) ?k) = Some k'"
    using b by (simp add: thread_block_schedule)
  have pl': "placed k'"
    by (rule schedule_placed [OF s q]) (use none_runs [OF pl] none_dying [OF pl] in simp_all)
  have "keeps_new (upd (cur ?k) (\<lambda>th. th\<lparr>status := THREAD_BLOCKED\<rparr>) ?k) k'"
    by (rule schedule_keeps_new [OF s q]) (use none_dying [OF pl] in simp)
  then have kn: "keeps_new ?k k'"
    using placed_cur [OF pl] by (auto simp: keeps_new_def split: if_splits)
  note m = moved_of_rest [OF thread_block_rest [OF b] pl' kn]
  have "moved k k' [Idle_loop_f] (kids k (cur k))"
    using local_moved [OF l m(1) kinvD(7) [OF i]] pend by (simp del: pending_push)
  then show ?thesis
    by (rule kinv_same_kids [OF i]) (use p fs m(2) in simp_all)
qed

lemma kinv_resume:
  assumes i: "kinv k" and d: "resume k = Some k'" and e: "pending k (cur k) \<noteq> []"
  shows "kinv k'"
proof -
  obtain f fs where p: "pending k (cur k) = f # fs" using e by (cases "pending k (cur k)") auto
  note r = resume_run [OF d p]
  have wf: "wf_cont (cur k) (f # fs)" using kinvD(8) [OF i, of "cur k"] p by simp
  have ni: "idle_thread k \<noteq> Some (cur k)" if "f \<noteq> Idle_loop_f" using not_idle [OF i] p that by auto
  have kr: "kinv k'" if "base fs" "f \<noteq> Idle_loop_f" "k' = upd (cur k) g (popped k)"
    "\<And>th. status (g th) = status th" "\<And>th. cont (g th) = cont th" "\<And>th. child_list (g th) = child_list th" for g
    by (rule kinv_ret [OF i p that])
  show ?thesis
  proof (cases f)
    case (Sema_retry_f s)
    then show ?thesis using kinv_down [OF i p] r by auto
  next
    case (Sema_down_f s)
    then show ?thesis using kinv_down [OF i p] r by auto
  next
    case (Acquire_tail_f l)
    then show ?thesis using kinv_acquire_tail [OF i] p r by simp
  next
    case (Lock_acquire_f l)
    then show ?thesis
      using r p wf ni by (intro kinv_lock_acquire [OF i popped_local]) (auto simp: after_lock_def)
  next
    case (Broadcast_f v l)
    then show ?thesis using r p wf ni by (intro kinv_broadcast [OF i popped_local]) auto
  next
    case (Tid_locked_f t)
    then show ?thesis using kinv_allocate_tid [OF i] p r by simp
  next
    case (Create_tail_f t tid)
    then show ?thesis using kinv_create_tail [OF i] p r by simp
  next
    case (Create_loaded_f t)
    then show ?thesis using kinv_create_loaded [OF i] p r by simp
  next
    case (Create_ret_f t)
    then obtain v where "k' = upd (cur k) (\<lambda>th. th\<lparr>retval := v\<rparr>) (popped k)"
      using r by (auto simp: create_ret_def set_retval_def split: Option.bind_splits)
    then show ?thesis using wf Create_ret_f by (intro kr [of "\<lambda>th. th\<lparr>retval := v\<rparr>"]) auto
  next
    case Exec_ret_f
    then have "k' = upd (cur k) (\<lambda>th. th\<lparr>calling_exec := False\<rparr>) (popped k)"
      using r kinvD(7) [OF i] by (simp add: exec_ret_def)
    then show ?thesis using wf Exec_ret_f by (intro kr [of "\<lambda>th. th\<lparr>calling_exec := False\<rparr>"]) auto
  next
    case Exit_children_f
    then show ?thesis using kinv_exit_children [OF i] p r by simp
  next
    case (Exit_locks_f x)
    then show ?thesis using kinv_exit_locks [OF i] p r by simp
  next
    case (Exit_next_f l)
    then show ?thesis using kinv_exit_next [OF i] p r by simp
  next
    case Exit_tail_f
    then show ?thesis using kinv_exit_tail [OF i] p r by simp
  next
    case (Wait_tail_f t)
    then show ?thesis using kinv_wait_tail [OF i] p r by simp
  next
    case Idle_loop_f
    then show ?thesis using kinv_idle_loop [OF i] p r by simp
  qed
qed

section \<open>A new thread\<close>

definition own_semas :: "ptr \<Rightarrow> sid set" where
  "own_semas t = {Sleep_mutex t, Load_mutex t, Wait_mutex t, Exit_mutex t}"

lemma init_thread_eq:
  assumes "init_thread t p k = Some k'"
  shows "thr k' = (thr k)(t \<mapsto> new_thread p)" and "cur k' = cur k" and "idle_thread k' = idle_thread k"
    and "ready_list k' = ready_list k" and "in_external_intr k' = in_external_intr k"
    and "semas k' s = (if s \<in> own_semas t then \<lparr>sema_value = 0, waiters = []\<rparr> else semas k s)"
    and "locks k' = locks k" and "conds k' = conds k" and "sleep_list k' = sleep_list k" and "ticks k' = ticks k"
  using assms
  by (auto simp: init_thread_def Let_def sema_init_def ASSERT_def own_semas_def split: if_splits Option.bind_splits)

text \<open>Nobody waits for a semaphore in a page that is no thread.\<close>

lemma no_loop_dead:
  assumes i: "kinv k" and t: "thr k t = None" and s: "s \<in> own_semas t"
  shows "\<not> in_loop k u s"
proof
  assume "in_loop k u s"
  then obtain r where r: "pending k u = Sema_retry_f s # r" by (auto simp: in_loop_def)
  have u: "thr k u \<noteq> None" using r by (auto simp: pending_def split: option.splits)
  have ad: "after_down u s r" using kinvD(8) [OF i, of u] r by simp
  have "t \<in> refs k u \<or> t = u"
    using s ad r by (auto simp: own_semas_def refs_def)
  then show False using familyD(1) [OF kinvD(3) [OF i], of t u] t u by auto
qed

lemma kinv_init_thread:
  assumes i: "kinv k" and t: "thr k t = None" and d: "init_thread t p k = Some k'"
  shows "kinv k'" and "pending k' = pending k" and "kids k' = kids k" and "st k' t = Some THREAD_BLOCKED"
    and "\<And>u. t \<notin> refs k' u" and "xvalue k' t = 0"
proof -
  note v = init_thread_eq [OF d]
  note f = kinvD(3) [OF i]
  show pend: "pending k' = pending k" and kids: "kids k' = kids k"
    using t by (auto simp: pending_def kids_def v(1) new_thread_def fun_eq_iff)
  have st: "st k' u = (if u = t then Some THREAD_BLOCKED else st k u)" for u
    by (simp add: st_def v(1) new_thread_def)
  have w: "waiters (semas k' s) = waiters (semas k s)" for s
    using no_waiters [OF kinvD(9) [OF i] no_loop_dead [OF i t]] by (simp add: v(6))
  have refs: "refs k' = refs k" by (simp add: fun_eq_iff refs_def pend kids)
  show nr: "t \<notin> refs k' u" for u using familyD(1) [OF f, of t u] t by (auto simp: refs)
  have x: "xvalue k' u = (if u = t then 0 else xvalue k u)" for u
    by (simp add: xvalue_def v(6) own_semas_def)
  then show "xvalue k' t = 0" by simp
  show "st k' t = Some THREAD_BLOCKED" by (simp add: st)
  have pt: "pending k t = []" and nst: "st k t = None" using t by (simp_all add: pending_def st_def)
  have "placed k'"
  proof -
    have loop: "in_loop k' u s = in_loop k u s" for u s by (simp add: in_loop_def pend)
    have "t \<noteq> cur k" using kinvD(7) [OF i] nst by auto
    then have "one_runs k'" using kinvD(1) [OF i] nst by (simp add: placed_def one_runs_def st v)
    moreover have "queued k'"
      unfolding queued_def v(3,4) w loop st
      using queuedD [OF kinvD(9) [OF i]] nst pt by (auto simp: in_loop_def)
    ultimately show ?thesis by (simp add: placed_def)
  qed
  moreover have "family k'"
    unfolding family_def refs pend kids x st
  proof (intro conjI allI impI)
    fix p u assume u: "u \<in> refs k p"
    show "thr k' u \<noteq> None" using familyD(1) [OF f u] by (simp add: v(1))
    show "(if u = t then 0 else xvalue k u) = 0" using familyD(2) [OF f u] by simp
    show "\<not> past_exit (pending k u)" by (rule familyD(3) [OF f u])
  next
    fix p u assume u: "u \<in> creating (pending k p)"
    show "(if u = t then Some THREAD_BLOCKED else st k u) = Some THREAD_BLOCKED"
      using familyD(9) [OF f u] by simp
  qed (use familyD(4-8) [OF f] in blast)+
  ultimately show "kinv k'"
    using i by (auto simp: kinv_def stacks_def idle_ok_def pend v)
qed

text \<open>The thread that creates it refers to it from now on.\<close>

lemma kinv_adopt:
  assumes i: "kinv k" and b: "base (pending k (cur k))" and ni: "idle_thread k \<noteq> Some (cur k)"
    and t: "st k t = Some THREAD_BLOCKED" "pending k t = []" "xvalue k t = 0" "\<And>u. t \<notin> refs k u"
  shows "kinv (push_cont (Tid_locked_f t) k)"
proof -
  let ?k = "push_cont (Tid_locked_f t) k"
  note f = kinvD(3) [OF i]
  have tc: "t \<noteq> cur k" using t(1) kinvD(7) [OF i] by auto
  have pend: "pending ?k = (pending k)(cur k := Tid_locked_f t # pending k (cur k))"
    using kinvD(7) [OF i] by (auto simp: fun_eq_iff is_thread_st)
  have refs: "refs ?k u = (if u = cur k then insert t (refs k u) else refs k u)" for u
    by (simp add: refs_def pend del: pending_push)
  have thr: "thr ?k u = None \<longleftrightarrow> thr k u = None" for u by simp
  have "placed ?k" using local_placed [OF kinvD(1) [OF i], of ?k] ni by simp
  moreover have "family ?k"
    unfolding family_def refs pend
  proof (intro conjI allI impI)
    fix p u assume u: "u \<in> (if p = cur k then insert t (refs k p) else refs k p)"
    show "thr ?k u \<noteq> None" using u t(1) familyD(1) [OF f, of u p] by (auto simp: thr st_def split: if_splits)
    show "xvalue ?k u = 0" using u t(3) familyD(2) [OF f, of u p] by (auto split: if_splits)
    show "\<not> past_exit (((pending k)(cur k := Tid_locked_f t # pending k (cur k))) u)"
      using u t(2) familyD(3) [OF f, of u p] by (auto split: if_splits)
  next
    fix p q u
    assume "u \<in> (if p = cur k then insert t (refs k p) else refs k p)"
      and "u \<in> (if q = cur k then insert t (refs k q) else refs k q)"
    then show "p = q" using familyD(4) [OF f, of u p q] t(4) by (auto split: if_splits)
  next
    fix p show "distinct (kids ?k p)" using familyD(5) [OF f] by simp
  next
    fix p show "awaiting (((pending k)(cur k := Tid_locked_f t # pending k (cur k))) p) \<subseteq> set (kids ?k p)"
      using familyD(6) [OF f, of p] by auto
  next
    fix p u assume "u \<in> creating (((pending k)(cur k := Tid_locked_f t # pending k (cur k))) p)"
    then have "u = t \<and> p = cur k \<or> u \<in> creating (pending k p)" by (auto split: if_splits)
    then show "u \<notin> set (kids ?k p)"
      "((pending k)(cur k := Tid_locked_f t # pending k (cur k))) u = []" "st ?k u = Some THREAD_BLOCKED"
      using t tc familyD(7-9) [OF f, of u p] kinvD(7) [OF i] by (auto simp: refs_def)
  qed
  moreover have "stacks ?k" "idle_ok ?k"
    using kinvD(2,4) [OF i] b ni by (auto simp: stacks_def idle_ok_def pend simp del: pending_push)
  moreover have "dom (thr ?k) = dom (thr k)" by (auto simp: push_cont_def)
  ultimately show ?thesis using i by (simp add: kinv_def)
qed

lemma kinv_thread_create:
  assumes i: "kinv k" and b: "base (pending k (cur k))" and ni: "idle_thread k \<noteq> Some (cur k)"
    and t: "\<And>t. page = Some t \<Longrightarrow> thr k t = None" and d: "thread_create page p k = Some k'"
  shows "kinv k'"
proof (cases page)
  case None
  then have k': "k' = upd (cur k) (\<lambda>th. th\<lparr>retval := TID_ERROR\<rparr>) k"
    using d by (simp add: thread_create_def set_retval_def)
  show ?thesis using b ni by (intro kinv_local [OF i]) (auto simp: k')
next
  case (Some t)
  then obtain k1 where k1: "init_thread t p k = Some k1"
    and a: "lock_acquire tid_lock (push_cont (Tid_locked_f t) k1) = Some k'"
    using d by (auto simp: thread_create_def split: Option.bind_splits)
  note v = kinv_init_thread [OF i assms(4) [OF Some] k1]
  have c: "cur k1 = cur k" "idle_thread k1 = idle_thread k" using init_thread_eq [OF k1] by auto
  let ?k = "push_cont (Tid_locked_f t) k1"
  have k2: "kinv ?k"
    by (rule kinv_adopt [OF v(1)]) (use b ni v assms(4) [OF Some] in \<open>simp_all add: c pending_def\<close>)
  have pend: "pending ?k (cur k) = Tid_locked_f t # pending k (cur k)"
    using pending_push_cur [OF kinvD(7) [OF v(1)]] by (simp add: v(2) c del: pending_push)
  show ?thesis
    by (rule kinv_lock_acquire [OF k2 local_refl a])
      (use b ni in \<open>auto simp: c after_lock_def pend simp del: pending_push\<close>)
qed

section \<open>The timer interrupt\<close>

text \<open>A change that leaves the pending calls and the children of all threads alone.\<close>

definition quiet :: "kernel \<Rightarrow> kernel \<Rightarrow> bool" where
  "quiet k k' \<longleftrightarrow> placed k' \<and> pending k' = pending k \<and> kids k' = kids k \<and>
     (\<forall>t. thr k' t = None \<longleftrightarrow> thr k t = None) \<and> idle_thread k' = idle_thread k \<and>
     keeps_new k k' \<and> xvalue k' = xvalue k \<and> locks k' = locks k \<and> held k' = held k"

lemma quiet_trans: "quiet k k1 \<Longrightarrow> quiet k1 k2 \<Longrightarrow> quiet k k2"
  unfolding quiet_def by (auto intro: keeps_new_trans)

lemma quiet_moved: "quiet k k' \<Longrightarrow> in_external_intr k' = in_external_intr k \<Longrightarrow> moved k k' (pending k (cur k)) (kids k (cur k))"
  by (simp add: quiet_def moved_def)

lemma quiet_fields:
  assumes "placed k" and "thr k' = thr k" and "semas k' = semas k" and "cur k' = cur k"
    and "ready_list k' = ready_list k" and "idle_thread k' = idle_thread k" and "locks k' = locks k"
  shows "quiet k k'"
proof -
  have s: "st k' = st k" and p: "pending k' = pending k" using assms by (auto simp: st_def pending_def fun_eq_iff)
  have "placed k'" by (rule placed_keep [OF assms(1) s assms(5,4,6) _ p]) (simp add: assms)
  then show ?thesis
    using assms s p by (auto simp: quiet_def kids_def held_def xvalue_def keeps_new_def fun_eq_iff)
qed

lemma sema_up_quiet:
  assumes "sema_up s k = Some k'" and "placed k" and "\<And>t. s \<noteq> Exit_mutex t"
  shows "quiet k k'"
  using sema_up_views [OF assms(1)] sema_up_placed [OF assms(1,2)] sema_up_keeps_new [OF assms(1,2)]
    moved_sema_up(2) [OF assms(1,2)] assms(3)
  by (auto simp: quiet_def fun_eq_iff)

lemma yield_quiet:
  assumes "thread_yield k = Some k'" and "placed k"
  shows "quiet k k'"
  using rest_eqD [OF thread_yield_rest [OF assms(1)]] rest_eq_views [OF thread_yield_rest [OF assms(1)]]
    rest_eq_None [OF thread_yield_rest [OF assms(1)]] thread_yield_placed [OF assms] thread_yield_keeps_new [OF assms]
  by (auto simp: quiet_def fun_eq_iff xvalue_def)

lemma wake_sleepers_quiet:
  "wake_sleepers ts k = Some k' \<Longrightarrow> placed k \<Longrightarrow> quiet k k' \<and> in_external_intr k' = in_external_intr k"
proof (induction ts arbitrary: k)
  case Nil
  then show ?case by (auto intro: quiet_fields)
next
  case (Cons t ts)
  show ?case
  proof (cases "timer_ticks k < wake_time k t")
    case True
    then show ?thesis using Cons.prems by (auto simp: ASSERT_def intro: quiet_fields split: if_splits)
  next
    case False
    then obtain k1 where u: "sema_up (Sleep_mutex t) (k\<lparr>sleep_list := ts\<rparr>) = Some k1"
      and w: "wake_sleepers ts k1 = Some k'"
      using Cons.prems(1) by (auto simp: ASSERT_def split: if_splits Option.bind_splits)
    have q: "quiet k (k\<lparr>sleep_list := ts\<rparr>)" using Cons.prems(2) by (auto intro: quiet_fields)
    then have q1: "quiet (k\<lparr>sleep_list := ts\<rparr>) k1" using u by (intro sema_up_quiet) (auto simp: quiet_def)
    then have "quiet k1 k' \<and> in_external_intr k' = in_external_intr k1"
      using Cons.IH [OF w] by (simp add: quiet_def)
    then show ?thesis using quiet_trans [OF quiet_trans [OF q q1]] sema_up_views(9) [OF u] by simp
  qed
qed

lemma thread_tick_fields:
  assumes "thread_tick k = Some k'"
  shows "thr k' = thr k" and "semas k' = semas k" and "cur k' = cur k" and "ready_list k' = ready_list k"
    and "idle_thread k' = idle_thread k" and "locks k' = locks k" and "in_external_intr k' = in_external_intr k"
    and "sleep_list k' = sleep_list k" and "ticks k' = ticks k" and "conds k' = conds k"
  using assms
  by (auto simp: thread_tick_def Let_def intr_yield_on_return_def ASSERT_def
      split: if_splits Option.bind_splits)

lemma timer_interrupt_quiet:
  assumes "timer_interrupt k = Some k'" and "placed k"
  shows "quiet k k'" and "in_external_intr k' = in_external_intr k"
proof -
  let ?k = "k\<lparr>ticks := int64_wrap (ticks k + 1)\<rparr>"
  obtain k1 where t: "thread_tick ?k = Some k1" and w: "wake_sleepers (sleep_list k1) k1 = Some k'"
    using assms(1) by (auto simp: timer_interrupt_def split: Option.bind_splits)
  have q: "quiet k k1" using assms(2) thread_tick_fields [OF t] by (auto intro: quiet_fields)
  then have "placed k1" by (simp add: quiet_def)
  note w = wake_sleepers_quiet [OF w this]
  show "quiet k k'" using quiet_trans [OF q] w by blast
  show "in_external_intr k' = in_external_intr k" using w thread_tick_fields(7) [OF t] by simp
qed

lemma intr_handler_quiet:
  assumes "intr_handler timer_interrupt k = Some k'" and "placed k" and "\<not> in_external_intr k"
  shows "quiet k k'" and "\<not> in_external_intr k'"
proof -
  let ?k = "k\<lparr>in_external_intr := True, yield_on_return := False\<rparr>"
  obtain k1 where t: "timer_interrupt ?k = Some k1"
    and y: "k' = k1\<lparr>in_external_intr := False\<rparr> \<or> thread_yield (k1\<lparr>in_external_intr := False\<rparr>) = Some k'"
    using assms(1) by (auto simp: intr_handler_def Let_def ASSERT_def split: if_splits Option.bind_splits)
  have q: "quiet k ?k" using assms(2) by (auto intro: quiet_fields)
  then have "quiet ?k k1" using timer_interrupt_quiet [OF t] by (simp add: quiet_def)
  then have q1: "quiet k k1" by (rule quiet_trans [OF q])
  then have "quiet k1 (k1\<lparr>in_external_intr := False\<rparr>)" by (auto simp: quiet_def [of k k1] intro: quiet_fields)
  then have q2: "quiet k (k1\<lparr>in_external_intr := False\<rparr>)" by (rule quiet_trans [OF q1])
  show "quiet k k'"
    using y q2 yield_quiet [of "k1\<lparr>in_external_intr := False\<rparr>" k'] quiet_trans [OF q2]
    by (auto simp: quiet_def [of k "k1\<lparr>in_external_intr := False\<rparr>"])
  show "\<not> in_external_intr k'"
    using y rest_eqD(11) [OF thread_yield_rest, of "k1\<lparr>in_external_intr := False\<rparr>" k'] by auto
qed

lemma kinv_quiet:
  assumes "kinv k" and "quiet k k'" and "\<not> in_external_intr k'"
  shows "kinv k'"
proof (rule kinv_same_kids [OF assms(1)])
  show "moved k k' (pending k (cur k)) (kids k (cur k))"
    using assms kinvD(6) [OF assms(1)] by (intro quiet_moved) simp_all
  show "idle_thread k = Some (cur k) \<Longrightarrow> pending k (cur k) = [Idle_loop_f]"
    using kinvD(4) [OF assms(1)] by (simp add: idle_ok_def)
qed (use assms kinvD(8) [OF assms(1)] in \<open>simp_all add: quiet_def\<close>)

section \<open>Every event\<close>

lemma family_cong:
  assumes f: "family k" and refs: "\<And>p. refs k' p = refs k p" and x: "xvalue k' = xvalue k" and kids: "kids k' = kids k"
    and thr: "\<And>t. thr k' t = None \<longleftrightarrow> thr k t = None" and st: "st k' = st k"
    and aw: "\<And>p. awaiting (pending k' p) = awaiting (pending k p)"
    and cr: "\<And>p. creating (pending k' p) = creating (pending k p)"
    and past: "\<And>p. past_exit (pending k' p) = past_exit (pending k p)"
    and new: "\<And>t p. t \<in> creating (pending k p) \<Longrightarrow> pending k' t = []"
  shows "family k'"
  unfolding family_def refs x kids aw cr past st
proof (intro conjI allI impI)
  fix p t assume "t \<in> refs k p"
  then show "thr k' t \<noteq> None" using familyD(1) [OF f] thr [of t] by simp
next
  fix p t assume "t \<in> creating (pending k p)"
  then show "pending k' t = []" by (rule new)
qed (use familyD [OF f] in blast)+

lemma kinv_idle:
  assumes i: "kinv k" and e: "pending k (cur k) = []" and n: "idle_thread k = None"
    and d: "idle (User_sema s) k = Some k'"
  shows "kinv k'"
proof -
  let ?k = "push_cont Idle_loop_f (k\<lparr>idle_thread := Some (cur k)\<rparr>)"
  have u: "sema_up (User_sema s) ?k = Some k'" using d kinvD(7) [OF i] by (simp add: idle_def)
  have run: "st k (cur k) = Some THREAD_RUNNING" by (rule kinvD(7) [OF i])
  have pend: "pending ?k = (pending k)(cur k := [Idle_loop_f])"
    using run e by (auto simp: fun_eq_iff is_thread_def st_def)
  have loop: "in_loop ?k t s' = in_loop k t s'" for t s' using e by (simp add: in_loop_def pend del: pending_push)
  have f: "ready_list ?k = ready_list k" "idle_thread ?k = Some (cur k)" "semas ?k = semas k" "st ?k = st k" "cur ?k = cur k"
    by simp_all
  have "queued ?k"
    unfolding queued_def loop f using queuedD [OF kinvD(9) [OF i]] run n e by (auto simp: in_loop_def)
  then have pl: "placed ?k" using kinvD(1) [OF i] by (simp add: placed_def one_runs_def)
  have new: "pending ?k t = []" if "t \<in> creating (pending k p)" for t p
    using familyD(8,9) [OF kinvD(3) [OF i] that] run by (auto simp: pend simp del: pending_push)
  have fam: "family ?k"
  proof (rule family_cong [OF kinvD(3) [OF i]])
    show "refs ?k p = refs k p" for p using e by (auto simp: refs_def pend simp del: pending_push)
    show "thr ?k t = None \<longleftrightarrow> thr k t = None" for t by (simp add: push_cont_def)
  qed (use e new in \<open>simp_all add: pend del: pending_push\<close>)
  have "stacks ?k" "idle_ok ?k"
    using kinvD(2) [OF i] by (auto simp: stacks_def idle_ok_def pend simp del: pending_push)
  moreover have "dom (thr ?k) = dom (thr k)" by (auto simp: push_cont_def)
  ultimately have k: "kinv ?k" using i fam pl by (simp add: kinv_def)
  have "quiet ?k k'" by (rule sema_up_quiet [OF u pl]) simp
  then show ?thesis
    by (rule kinv_quiet [OF k]) (use sema_up_views(9) [OF u] kinvD(6) [OF i] in simp)
qed

lemma kinv_call_down:
  assumes i: "kinv k" and e: "pending k (cur k) = []" and l: "local k k1" and d: "sema_down s k1 = Some k'"
    and k1: "kids k1 (cur k) = kids k (cur k)" "xvalue k1 = xvalue k" "pending k1 (cur k) = []"
    and ad: "after_down (cur k) s []"
  shows "kinv k'"
proof -
  have ni: "idle_thread k \<noteq> Some (cur k)" using not_idle [OF i] e by auto
  obtain gs where m: "moved k k' gs (kids k1 (cur k))" "\<And>t. xvalue k' t \<le> xvalue k1 t"
    "gs = pending k1 (cur k) \<and> sema_value (semas k1 s) > 0 \<or> gs = Sema_retry_f s # pending k1 (cur k)"
    by (rule local_sema_down [OF l d kinvD(1) [OF i] ni]) (rule that)
  have "gs = [] \<or> gs = [Sema_retry_f s]" using m(3) k1(3) by auto
  then show ?thesis
    using m(1,2) k1 ad ni e by (intro kinv_same_kids [OF i, of k' gs]) auto
qed

lemma kinv_cond_wait:
  assumes i: "kinv k" and e: "pending k (cur k) = []" and d: "cond_wait v l k = Some k'"
  shows "kinv k'"
proof -
  note run = kinvD(7) [OF i]
  have ni: "idle_thread k \<noteq> Some (cur k)" using not_idle [OF i] e by auto
  let ?i = "sema_init (Waiter_sema (cur k)) 0 k"
  obtain f g where r: "lock_release l (push_cont (Sema_down_f (Waiter_sema (cur k)))
      (push_cont (Lock_acquire_f l) (?i\<lparr>waiter_priority := f, conds := g\<rparr>))) = Some k'"
    using d run by (auto simp: cond_wait_def lock_held_by_current_thread_def ASSERT_def Let_def
        split: if_splits Option.bind_splits)
  have "\<not> in_loop k u (Waiter_sema (cur k))" for u
    using kinvD(8) [OF i, of u] e by (auto simp: in_loop_def)
  then have w: "waiters (semas k (Waiter_sema (cur k))) = []" by (rule no_waiters [OF kinvD(9) [OF i]])
  let ?a = "?i\<lparr>waiter_priority := f, conds := g\<rparr>"
  let ?b = "push_cont (Lock_acquire_f l) ?a"
  have la: "local k ?a" using w by simp
  have lb: "local k ?b" using la by simp
  have pb: "pending ?b (cur k) = [Lock_acquire_f l]"
    using pending_push_local [OF kinvD(1) [OF i] la] e by (simp del: pending_push)
  have p: "pending (push_cont (Sema_down_f (Waiter_sema (cur k))) ?b) (cur k) =
      [Sema_down_f (Waiter_sema (cur k)), Lock_acquire_f l]"
    using pending_push_local [OF kinvD(1) [OF i] lb] pb by (simp del: pending_push)
  have x: "xvalue ?i = xvalue k" by (simp add: sema_init_def xvalue_def fun_eq_iff)
  show ?thesis
    by (rule kinv_lock_release [OF i local_push [OF lb] r ni])
      (use p x in \<open>simp_all del: pending_push\<close>)
qed

lemma kinv_process_wait:
  assumes i: "kinv k" and e: "pending k (cur k) = []" and d: "process_wait tid k = Some k'"
  shows "kinv k'"
proof -
  note run = kinvD(7) [OF i] and pl = kinvD(1) [OF i]
  have ni: "idle_thread k \<noteq> Some (cur k)" using not_idle [OF i] e by auto
  obtain th where th: "thr k (cur k) = Some th" using run by (auto simp: st_def)
  have kids: "child_list th = kids k (cur k)" using th by (simp add: kids_def)
  consider "k' = set_retval (-1) k"
    | child where "child \<in> set (kids k (cur k))" "sema_down (Wait_mutex child) (push_cont (Wait_tail_f child)
        (upd child (\<lambda>th. th\<lparr>waited_once := True\<rparr>) k)) = Some k'"
  proof (cases "find_child tid k (child_list th)")
    case None
    then show thesis using d th run that(1) by (simp add: process_wait_def)
  next
    case (Some child)
    then have c: "child \<in> set (kids k (cur k))"
      by (auto simp: find_child_def find_Some_iff kids)
    have "thr k child \<noteq> None" using familyD(1) [OF kinvD(3) [OF i], of child "cur k"] c by (simp add: refs_def)
    then obtain ch where ch: "thr k child = Some ch" by auto
    show thesis
    proof (cases "waited_once ch")
      case True
      show thesis by (rule that(1)) (use d th run Some ch True in \<open>simp add: process_wait_def\<close>)
    next
      case False
      show thesis by (rule that(2) [OF c]) (use d th run Some ch False in \<open>simp add: process_wait_def\<close>)
    qed
  qed
  then show ?thesis
  proof cases
    case 1
    then show ?thesis using e ni by (intro kinv_local [OF i]) (auto simp: set_retval_def)
  next
    case (2 child)
    let ?u = "upd child (\<lambda>th. th\<lparr>waited_once := True\<rparr>) k"
    let ?w = "push_cont (Wait_tail_f child) ?u"
    have l: "local k ?u" by simp
    have p: "pending ?w (cur k) = [Wait_tail_f child]"
      using pending_push_local [OF pl l] e by (simp del: pending_push)
    obtain gs where m: "moved k k' gs (kids ?w (cur k))" "\<And>t. xvalue k' t \<le> xvalue ?w t"
      "gs = pending ?w (cur k) \<and> sema_value (semas ?w (Wait_mutex child)) > 0 \<or>
        gs = Sema_retry_f (Wait_mutex child) # pending ?w (cur k)"
      by (rule local_sema_down [OF local_push [OF l] 2(2) pl ni]) (rule that)
    have gs: "gs = [Wait_tail_f child] \<or> gs = [Sema_retry_f (Wait_mutex child), Wait_tail_f child]"
      using m(3) unfolding p by blast
    show ?thesis
    proof (rule kinv_moved [OF i])
      show "moved k k' gs (kids k (cur k))" using m(1) by simp
      show "distinct (kids k (cur k))" by (rule familyD(5) [OF kinvD(3) [OF i]])
      show "xvalue k' t = 0 \<or> t \<in> refs k (cur k) - (set (kids k (cur k)) \<union> subjects gs)" if "xvalue k t = 0" for t
        using m(2) [of t] that by simp
    qed (use gs ni 2(1) in \<open>auto simp: refs_def\<close>)
  qed
qed

lemma kinv_event:
  assumes i: "kinv k" and en: "enabled e k" and d: "run_event e k = Some k'"
  shows "kinv k'"
proof (cases "e = Tick \<or> e = Resume")
  case True
  then show ?thesis
    using d en kinv_resume [OF i] intr_handler_quiet [OF _ kinvD(1,6) [OF i]] kinv_quiet [OF i]
    by (auto simp: enabled_def)
next
  case False
  then have p: "pending k (cur k) = []" and c: "call_ok e k" using en by (auto simp: enabled_def split: event.splits)
  have ni: "idle_thread k \<noteq> Some (cur k)" using not_idle [OF i] p by auto
  note run = kinvD(7) [OF i] and pl = kinvD(1) [OF i]
  have loc: "kinv k'" if "local k k'" "kids k' (cur k) = kids k (cur k)" "pending k' (cur k) = []" "xvalue k' = xvalue k"
    using that ni p by (intro kinv_local [OF i]) auto
  have quiet: "kinv k'" if "quiet k k'" "in_external_intr k' = in_external_intr k"
    by (rule kinv_quiet [OF i that(1)]) (use that kinvD(6) [OF i] in simp)
  show ?thesis
  proof (cases e)
    case (Call_sema_init s v)
    then have k': "k' = sema_init (User_sema s) (size_wrap v) k" and w: "waiters (semas k (User_sema s)) = []"
      using d c by auto
    show ?thesis using w p by (intro loc) (auto simp: k', simp add: sema_init_def xvalue_def fun_eq_iff)
  next
    case (Call_sema_down s)
    then show ?thesis using d p by (intro kinv_call_down [OF i p local_refl]) auto
  next
    case (Call_sema_up s)
    then show ?thesis
      using d sema_up_quiet [OF _ pl, of "User_sema s" k'] sema_up_views(9) [of "User_sema s" k k'] by (intro quiet) auto
  next
    case (Call_sema_try_down s)
    then have "k' = k \<or> k' = set_sema (User_sema s) ((semas k (User_sema s))\<lparr>sema_value := sema_value (semas k (User_sema s)) - 1\<rparr>) k"
      using d by (auto simp: sema_try_down_def ASSERT_def Let_def split: if_splits Option.bind_splits)
    then show ?thesis using p by (intro loc) (auto simp: local_def xvalue_def fun_eq_iff)
  next
    case (Call_lock_acquire l)
    then show ?thesis using d p ni by (intro kinv_lock_acquire [OF i local_refl]) (auto simp: after_lock_def)
  next
    case (Call_lock_try_acquire l)
    let ?t = "set_sema (Lock_sema l) ((semas k (Lock_sema l))\<lparr>sema_value := sema_value (semas k (Lock_sema l)) - 1\<rparr>) k"
    have "k' = k \<or> k' = set_lock l (\<lambda>lk. lk\<lparr>holder := Some (cur k)\<rparr>) ?t"
      using d Call_lock_try_acquire run by (auto simp: lock_try_acquire_def lock_held_by_current_thread_def
        sema_try_down_def ASSERT_def Let_def split: if_splits Option.bind_splits)
    then show ?thesis using p by (intro loc) (auto simp: local_def xvalue_def fun_eq_iff)
  next
    case (Call_lock_release l)
    then show ?thesis using d p ni by (intro kinv_lock_release [OF i local_refl]) auto
  next
    case (Call_cond_wait v l)
    then show ?thesis using d kinv_cond_wait [OF i p] by auto
  next
    case (Call_cond_signal v l)
    then show ?thesis using d p ni by (intro kinv_cond_signal [OF i local_refl]) auto
  next
    case (Call_cond_broadcast v l)
    then show ?thesis using d p ni by (intro kinv_broadcast [OF i local_refl]) auto
  next
    case Call_yield
    then show ?thesis
      using d yield_quiet [OF _ pl, of k'] rest_eqD(11) [OF thread_yield_rest, of k k'] by (intro quiet) auto
  next
    case (Call_set_priority x)
    then obtain f where f: "check_preemption (upd (cur k) f k) = Some k'"
      "\<And>th. status (f th) = status th" "\<And>th. cont (f th) = cont th" "\<And>th. child_list (f th) = child_list th"
      using d run by (auto simp: thread_set_priority_def Let_def)
    have "local k (upd (cur k) f k)" using f by simp
    from local_check [OF this f(1) pl ni] show ?thesis
      using f p ni by (intro kinv_same_kids [OF i]) auto
  next
    case (Call_sleep n)
    show ?thesis
    proof (cases "n \<le> 0")
      case True
      then show ?thesis using d Call_sleep i by (simp add: timer_sleep_def)
    next
      case False
      let ?u = "upd (cur k) (\<lambda>th. th\<lparr>tick_to_wake := int64_wrap (timer_ticks k + n)\<rparr>) k"
      have dn: "sema_down (Sleep_mutex (cur k)) (?u\<lparr>sleep_list := insert_seq (compare_ticks ?u) (cur k) (sleep_list ?u)\<rparr>) = Some k'"
        using d Call_sleep False run by (simp add: timer_sleep_def Let_def)
      show ?thesis by (rule kinv_call_down [OF i p _ dn]) (use p in simp_all)
    qed
  next
    case (Call_create page x)
    then show ?thesis using d c p ni by (intro kinv_thread_create [OF i, of page x]) auto
  next
    case (Call_exec page)
    let ?u = "push_cont Exec_ret_f (upd (cur k) (\<lambda>th. th\<lparr>calling_exec := True\<rparr>) k)"
    have t: "thread_create page PRI_DEFAULT ?u = Some k'" using d Call_exec run by (simp add: process_execute_def)
    have pend: "pending ?u (cur k) = [Exec_ret_f]"
      using pending_push_local [OF pl, of "upd (cur k) (\<lambda>th. th\<lparr>calling_exec := True\<rparr>) k"] p by (simp del: pending_push)
    have "kinv ?u" by (rule kinv_local [OF i]) (use pend ni p in \<open>simp_all del: pending_push\<close>)
    then show ?thesis
      by (rule kinv_thread_create [OF _ _ _ _ t])
        (use pend ni c Call_exec in \<open>auto simp: base_def push_cont_def simp del: pending_push\<close>)
  next
    case (Call_loaded b)
    let ?k1 = "if b then upd (cur k) (\<lambda>th. th\<lparr>pagedir := True\<rparr>) k
      else push_cont Exit_children_f (upd (cur k) (\<lambda>th. th\<lparr>t_tid := TID_ERROR, exit_status := -1\<rparr>) k)"
    have u: "sema_up (Load_mutex (cur k)) ?k1 = Some k'" using d Call_loaded run by (simp add: start_process_def split: if_splits)
    have "pending ?k1 (cur k) = (if b then [] else [Exit_children_f])"
      using pending_push_local [OF pl, of "upd (cur k) (\<lambda>th. th\<lparr>t_tid := TID_ERROR, exit_status := -1\<rparr>) k"] p
      by (simp del: pending_push)
    then show ?thesis
      using ni p by (intro kinv_sema_up [OF i _ u]) (auto simp del: pending_push split: if_splits)
  next
    case (Call_exit n)
    have k': "\<exists>f. k' = push_cont Exit_children_f (upd (cur k) (\<lambda>th. th\<lparr>pagedir := False\<rparr>) (upd (cur k) f k)) \<and>
        (\<forall>th. status (f th) = status th \<and> cont (f th) = cont th \<and> child_list (f th) = child_list th)"
      using d Call_exit run by (auto simp: thread_exit_def ASSERT_def split: if_splits)
    then obtain f where k': "k' = push_cont Exit_children_f (upd (cur k) (\<lambda>th. th\<lparr>pagedir := False\<rparr>) (upd (cur k) f k))"
      and f: "\<And>th. status (f th) = status th" "\<And>th. cont (f th) = cont th" "\<And>th. child_list (f th) = child_list th"
      by auto
    have l: "local k (upd (cur k) (\<lambda>th. th\<lparr>pagedir := False\<rparr>) (upd (cur k) f k))" using f by simp
    have "pending k' (cur k) = [Exit_children_f]"
      using pending_push_local [OF pl l] p f by (simp add: k' del: pending_push)
    then show ?thesis using l f ni p by (intro kinv_local [OF i]) (auto simp: k' simp del: pending_push)
  next
    case (Call_idle s)
    then show ?thesis using d c kinv_idle [OF i p] by auto
  next
    case (Call_wait tid)
    then show ?thesis using d kinv_process_wait [OF i p] by auto
  qed (use False in auto)
qed

section \<open>Every reachable state\<close>

lemma kinv_boot: "main \<noteq> NULL \<Longrightarrow> kinv (boot main)"
proof -
  assume "main \<noteq> NULL"
  have st: "st (boot main) t = (if t = main then Some THREAD_RUNNING else None)" for t
    by (simp add: boot_def st_def new_thread_def)
  have p: "pending (boot main) t = []" "kids (boot main) t = []" for t
    by (simp_all add: boot_def pending_def kids_def new_thread_def)
  have w: "waiters (semas (boot main) s) = []" for s by (simp add: boot_def split: sid.split)
  have f: "ready_list (boot main) = []" "idle_thread (boot main) = None" "cur (boot main) = main"
    "\<not> in_external_intr (boot main)" "dom (thr (boot main)) = {main}"
    by (simp_all add: boot_def)
  have "placed (boot main)"
    by (simp add: placed_def one_runs_def queued_def in_loop_def st p w f)
  then show ?thesis
    by (simp add: kinv_def stacks_def family_def idle_ok_def refs_def p f)
qed

lemma reachable_kinv: "reachable main k \<Longrightarrow> kinv k"
  by (induction rule: reachable.induct) (blast intro: kinv_boot kinv_event)+

end
