(* ===== verification/Ksync_Inv.thy ===== *)
theory Ksync_Inv
  imports Kstep
begin

text \<open>
  The accounts of semaphores and locks. A semaphore with waiters has at most as many units as
  threads that were woken for it and have not run since, so no wake-up is lost. A lock is either
  free, or held, or on its way to the thread that has taken its semaphore and is about to
  become the holder.
\<close>

section \<open>Accounts\<close>

definition looping :: "(ptr \<Rightarrow> frame list) \<Rightarrow> sid \<Rightarrow> ptr set" where
  "looping P s = {t. \<exists>r. P t = Sema_retry_f s # r}"

definition taking :: "(ptr \<Rightarrow> frame list) \<Rightarrow> nat \<Rightarrow> ptr set" where
  "taking P l = {t. \<exists>r. P t = Acquire_tail_f l # r}"

definition credit :: "(sid \<Rightarrow> semaphore) \<Rightarrow> (ptr \<Rightarrow> frame list) \<Rightarrow> bool" where
  "credit S P \<longleftrightarrow> (\<forall>s. waiters (S s) \<noteq> [] \<longrightarrow> sema_value (S s) + length (waiters (S s)) \<le> card (looping P s))"

definition balance :: "(sid \<Rightarrow> semaphore) \<Rightarrow> (ptr \<Rightarrow> frame list) \<Rightarrow> (nat \<Rightarrow> ptr option) \<Rightarrow> nat \<Rightarrow> nat" where
  "balance S P H l = sema_value (S (Lock_sema l)) + (if H l = None then 0 else 1) + card (taking P l)"

definition accounts :: "(sid \<Rightarrow> semaphore) \<Rightarrow> (ptr \<Rightarrow> frame list) \<Rightarrow> (nat \<Rightarrow> ptr option) \<Rightarrow> bool" where
  "accounts S P H \<longleftrightarrow> finite {t. P t \<noteq> []} \<and> credit S P \<and> (\<forall>l. balance S P H l = 1)"

fun special :: "frame list \<Rightarrow> bool" where
  "special (Sema_retry_f s # fs) = True"
| "special (Acquire_tail_f l # fs) = True"
| "special fs = False"

lemma looping_upd:
  "looping (P(c := fs)) s = (if \<exists>r. fs = Sema_retry_f s # r then insert c (looping P s) else looping P s - {c})"
  by (auto simp: looping_def)

lemma taking_upd:
  "taking (P(c := fs)) l = (if \<exists>r. fs = Acquire_tail_f l # r then insert c (taking P l) else taking P l - {c})"
  by (auto simp: taking_def)

lemma not_special:
  assumes "\<not> special (P c)"
  shows "c \<notin> looping P s" and "c \<notin> taking P l"
  using assms by (auto simp: looping_def taking_def)

lemma plain_upd:
  assumes "\<not> special (P c)" and "\<not> special fs"
  shows "looping (P(c := fs)) s = looping P s" and "taking (P(c := fs)) l = taking P l"
  using not_special [of P c, OF assms(1)] assms(2) by (auto simp: looping_upd taking_upd)

lemma accountsD:
  assumes "accounts S P H"
  shows "finite (looping P s)" and "finite (taking P l)" and "balance S P H l = 1"
    and "finite {t. (P(c := fs)) t \<noteq> []}"
    and "waiters (S s) \<noteq> [] \<Longrightarrow> sema_value (S s) + length (waiters (S s)) \<le> card (looping P s)"
proof -
  have f: "finite {t. P t \<noteq> []}" using assms by (simp add: accounts_def)
  show "finite (looping P s)" "finite (taking P l)"
    by (rule finite_subset [OF _ f], auto simp: looping_def taking_def)+
  show "finite {t. (P(c := fs)) t \<noteq> []}"
    by (rule finite_subset [of _ "insert c {t. P t \<noteq> []}"]) (use f in auto)
qed (use assms in \<open>auto simp: accounts_def credit_def\<close>)

lemma accountsI:
  "finite {t. P t \<noteq> []} \<Longrightarrow> (\<And>l. balance S P H l = 1) \<Longrightarrow>
   (\<And>s. waiters (S s) \<noteq> [] \<Longrightarrow> sema_value (S s) + length (waiters (S s)) \<le> card (looping P s)) \<Longrightarrow> accounts S P H"
  by (simp add: accounts_def credit_def)

lemma accounts_local:
  assumes "accounts S P H" and "\<not> special (P c)" and "\<not> special fs"
  shows "accounts S (P(c := fs)) H"
proof (rule accountsI)
  note d = accountsD [OF assms(1)]
  show "finite {t. (P(c := fs)) t \<noteq> []}" by (rule d(4))
  show "balance S (P(c := fs)) H l = 1" for l
    using d(3) [of l] plain_upd [of P c fs, OF assms(2,3)] by (simp add: balance_def)
  show "sema_value (S s) + length (waiters (S s)) \<le> card (looping (P(c := fs)) s)" if "waiters (S s) \<noteq> []" for s
    using d(5) [OF that] plain_upd [of P c fs, OF assms(2,3)] by simp
qed

lemma shorter: "ws \<noteq> [] \<Longrightarrow> length ws = length us - 1 \<Longrightarrow> us \<noteq> [] \<and> length us = length ws + 1"
  by (cases us) auto

lemma accounts_up:
  assumes a: "accounts S P H" and s: "\<And>l. s \<noteq> Lock_sema l" and len: "length ws = length (waiters (S s)) - 1"
  shows "accounts (S(s := \<lparr>sema_value = size_wrap (sema_value (S s) + 1), waiters = ws\<rparr>)) P H"
    (is "accounts ?S P H")
proof (rule accountsI)
  note d = accountsD [OF a]
  have w: "size_wrap (sema_value (S s) + 1) \<le> sema_value (S s) + 1" by (simp add: size_wrap_def)
  show "sema_value (?S u) + length (waiters (?S u)) \<le> card (looping P u)" if "waiters (?S u) \<noteq> []" for u
    using that d(5) [of u] shorter [OF _ len] w by (cases "u = s") auto
  show "balance ?S P H l = 1" for l using d(3) [of l] s [of l] by (simp add: balance_def)
  show "finite {t. P t \<noteq> []}" using a by (simp add: accounts_def)
qed

lemma accounts_release:
  assumes a: "accounts S P H" and h: "H l \<noteq> None" and len: "length ws = length (waiters (S (Lock_sema l))) - 1"
  shows "accounts (S(Lock_sema l := \<lparr>sema_value = size_wrap (sema_value (S (Lock_sema l)) + 1), waiters = ws\<rparr>))
    P (H(l := None))" (is "accounts ?S P ?H")
proof (rule accountsI)
  note d = accountsD [OF a]
  have b: "sema_value (S (Lock_sema l)) = 0" "card (taking P l) = 0"
    using d(3) [of l] h by (auto simp: balance_def)
  show "sema_value (?S u) + length (waiters (?S u)) \<le> card (looping P u)" if "waiters (?S u) \<noteq> []" for u
    using that d(5) [of u] shorter [OF _ len] b by (cases "u = Lock_sema l") auto
  show "balance ?S P ?H m = 1" for m using d(3) [of m] b by (cases "m = l") (simp_all add: balance_def)
  show "finite {t. P t \<noteq> []}" using a by (simp add: accounts_def)
qed

lemma accounts_pass:
  assumes a: "accounts S P H" and s: "\<And>l. s \<noteq> Lock_sema l"
  shows "accounts (S(s := (S s)\<lparr>sema_value := sema_value (S s) - 1\<rparr>)) P H" (is "accounts ?S P H")
proof (rule accountsI)
  note d = accountsD [OF a]
  show "sema_value (?S u) + length (waiters (?S u)) \<le> card (looping P u)" if "waiters (?S u) \<noteq> []" for u
    using that d(5) [of u] by (cases "u = s") auto
  show "balance ?S P H m = 1" for m using d(3) [of m] s [of m] by (simp add: balance_def)
  show "finite {t. P t \<noteq> []}" using a by (simp add: accounts_def)
qed

text \<open>The running thread enters the loop of a semaphore without units, or stays in it.\<close>

lemma accounts_sleep:
  assumes a: "accounts S P H" and v: "sema_value (S s) = 0" and c: "\<not> special (P c)"
    and len: "length ws = length (waiters (S s)) + 1" and w: "length (waiters (S s)) \<le> card (looping P s)"
  shows "accounts (S(s := (S s)\<lparr>waiters := ws\<rparr>)) (P(c := Sema_retry_f s # fs)) H" (is "accounts ?S ?P H")
proof (rule accountsI)
  note d = accountsD [OF a] and n = not_special [of P c, OF c]
  have "card (insert c (looping P s)) = card (looping P s) + 1" using d(1) n by simp
  then show "sema_value (?S u) + length (waiters (?S u)) \<le> card (looping ?P u)" if "waiters (?S u) \<noteq> []" for u
    using that d(5) [of u] v len w n by (cases "u = s") (auto simp: looping_upd)
  show "balance ?S ?P H m = 1" for m using d(3) [of m] n by (auto simp: balance_def taking_upd)
  show "finite {t. ?P t \<noteq> []}" by (rule d(4))
qed

lemma accounts_sleep_again:
  assumes a: "accounts S P H" and v: "sema_value (S s) = 0" and w: "length ws \<le> card (looping P s)"
  shows "accounts (S(s := (S s)\<lparr>waiters := ws\<rparr>)) P H" (is "accounts ?S P H")
proof (rule accountsI)
  note d = accountsD [OF a]
  show "sema_value (?S u) + length (waiters (?S u)) \<le> card (looping P u)" if "waiters (?S u) \<noteq> []" for u
    using that d(5) [of u] v w by (cases "u = s") auto
  show "balance ?S P H m = 1" for m using d(3) [of m] by (auto simp: balance_def)
  show "finite {t. P t \<noteq> []}" using a by (simp add: accounts_def)
qed

text \<open>A unit is taken by a thread that leaves the loop.\<close>

lemma accounts_leave:
  assumes a: "accounts S P H" and v: "sema_value (S s) > 0" and c: "P c = Sema_retry_f s # fs"
    and s: "\<And>l. s \<noteq> Lock_sema l" and fs: "\<not> special fs"
  shows "accounts (S(s := (S s)\<lparr>sema_value := sema_value (S s) - 1\<rparr>)) (P(c := fs)) H" (is "accounts ?S ?P H")
proof (rule accountsI)
  note d = accountsD [OF a]
  have c1: "c \<in> looping P s" using c by (simp add: looping_def)
  have l: "looping ?P u = (if u = s then looping P s - {c} else looping P u)" for u
    using c fs by (auto simp: looping_def)
  have t: "taking ?P m = taking P m" for m using c fs by (auto simp: taking_def)
  have "card (looping P s - {c}) = card (looping P s) - 1" using c1 by simp
  then show "sema_value (?S u) + length (waiters (?S u)) \<le> card (looping ?P u)" if "waiters (?S u) \<noteq> []" for u
    using that d(5) [of u] v by (cases "u = s") (auto simp: l)
  show "balance ?S ?P H m = 1" for m using d(3) [of m] s [of m] by (simp add: balance_def t)
  show "finite {t. ?P t \<noteq> []}" by (rule d(4))
qed

text \<open>A lock is taken: at once, after a wait, or by a try; then its taker becomes the holder.\<close>

lemma accounts_take:
  assumes a: "accounts S P H" and v: "sema_value (S (Lock_sema l)) > 0"
    and c: "\<not> special (P c) \<and> fs = Acquire_tail_f l # r \<or> P c = Sema_retry_f (Lock_sema l) # fs \<and> fs = Acquire_tail_f l # r"
  shows "accounts (S(Lock_sema l := (S (Lock_sema l))\<lparr>sema_value := sema_value (S (Lock_sema l)) - 1\<rparr>)) (P(c := fs)) H"
    (is "accounts ?S ?P H")
proof (rule accountsI)
  note d = accountsD [OF a]
  have b: "sema_value (S (Lock_sema l)) = 1" "card (taking P l) = 0" "H l = None"
    using d(3) [of l] v by (auto simp: balance_def split: if_splits)
  have nt: "c \<notin> taking P m" for m using c by (auto simp: taking_def)
  have t: "taking ?P m = (if m = l then {c} else taking P m)" for m
    using c b(2) d(2) [of l] nt by (auto simp: taking_upd)
  have lo: "looping ?P u = looping P u - {c}" for u using c by (auto simp: looping_def)
  have lo': "c \<notin> looping P u" if "u \<noteq> Lock_sema l" for u using c that by (auto simp: looping_def)
  show "sema_value (?S u) + length (waiters (?S u)) \<le> card (looping ?P u)" if "waiters (?S u) \<noteq> []" for u
  proof (cases "u = Lock_sema l")
    case True
    then show ?thesis using that d(5) [of u] b(1) d(1) [of u] by (auto simp: lo card_Diff_singleton_if)
  qed (use that d(5) [of u] lo lo' in simp)
  show "balance ?S ?P H m = 1" for m using d(3) [of m] b by (auto simp: balance_def t)
  show "finite {t. ?P t \<noteq> []}" by (rule d(4))
qed

lemma accounts_hold:
  assumes a: "accounts S P H" and c: "P c = Acquire_tail_f l # fs" and fs: "\<not> special fs"
  shows "accounts S (P(c := fs)) (H(l := Some c))" (is "accounts S ?P ?H")
proof (rule accountsI)
  note d = accountsD [OF a]
  have "c \<in> taking P l" using c by (simp add: taking_def)
  then have "card (taking P l) > 0" using d(2) card_gt_0_iff by blast
  then have b: "sema_value (S (Lock_sema l)) = 0" "card (taking P l) = 1" "H l = None"
    using d(3) [of l] by (auto simp: balance_def split: if_splits)
  have t: "taking ?P m = (if m = l then taking P l - {c} else taking P m)" for m
    using c fs by (auto simp: taking_def)
  have lo: "looping ?P u = looping P u" for u using c fs by (auto simp: looping_def)
  show "sema_value (S u) + length (waiters (S u)) \<le> card (looping ?P u)" if "waiters (S u) \<noteq> []" for u
    using that d(5) [of u] lo by simp
  show "balance S ?P ?H m = 1" for m
    using d(3) [of m] b \<open>c \<in> taking P l\<close> by (auto simp: balance_def t)
  show "finite {t. ?P t \<noteq> []}" by (rule d(4))
qed

lemma accounts_try:
  assumes a: "accounts S P H" and v: "sema_value (S (Lock_sema l)) > 0"
  shows "accounts (S(Lock_sema l := (S (Lock_sema l))\<lparr>sema_value := sema_value (S (Lock_sema l)) - 1\<rparr>)) P (H(l := Some c))"
    (is "accounts ?S P ?H")
proof (rule accountsI)
  note d = accountsD [OF a]
  have b: "sema_value (S (Lock_sema l)) = 1" "card (taking P l) = 0" "H l = None"
    using d(3) [of l] v by (auto simp: balance_def split: if_splits)
  show "sema_value (?S u) + length (waiters (?S u)) \<le> card (looping P u)" if "waiters (?S u) \<noteq> []" for u
    using that d(5) [of u] by (cases "u = Lock_sema l") auto
  show "balance ?S P ?H m = 1" for m using d(3) [of m] b by (auto simp: balance_def)
  show "finite {t. P t \<noteq> []}" using a by (simp add: accounts_def)
qed

lemma accounts_init:
  assumes a: "accounts S P H"
    and S: "\<And>u. S' u = S u \<or> waiters (S' u) = [] \<and> (\<forall>l. u \<noteq> Lock_sema l)"
  shows "accounts S' P H"
proof (rule accountsI)
  note d = accountsD [OF a]
  show "sema_value (S' u) + length (waiters (S' u)) \<le> card (looping P u)" if "waiters (S' u) \<noteq> []" for u
    using that d(5) [of u] S [of u] by auto
  show "balance S' P H m = 1" for m using d(3) [of m] S [of "Lock_sema m"] by (auto simp: balance_def)
  show "finite {t. P t \<noteq> []}" using a by (simp add: accounts_def)
qed

section \<open>The routines keep the accounts\<close>

definition holders :: "kernel \<Rightarrow> nat \<Rightarrow> ptr option" where
  "holders k l = holder (locks k l)"

definition acc :: "kernel \<Rightarrow> bool" where
  "acc k \<longleftrightarrow> accounts (semas k) (pending k) (holders k)"

lemma holders_simps [simp]:
  "holders (push_cont f k) = holders k" "holders (upd t g k) = holders k" "holders (set_sema s v k) = holders k"
  "holders (sema_init s n k) = holders k" "holders (popped k) = holders k" "holders (k\<lparr>conds := c\<rparr>) = holders k"
  "holders (k\<lparr>waiter_priority := w\<rparr>) = holders k" "holders (k\<lparr>next_tid := i\<rparr>) = holders k"
  "holders (k\<lparr>sleep_list := l\<rparr>) = holders k" "holders (k\<lparr>idle_thread := j\<rparr>) = holders k"
  "holders (set_retval x k) = holders k"
  by (simp_all add: holders_def fun_eq_iff sema_init_def set_retval_def)

lemma holders_set_lock: "holders (set_lock l f k) = (holders k)(l := holder (f (locks k l)))"
  by (simp add: holders_def fun_eq_iff)

lemma acc_views:
  "semas k' = semas k \<Longrightarrow> pending k' = pending k \<Longrightarrow> holders k' = holders k \<Longrightarrow> acc k' \<longleftrightarrow> acc k"
  by (simp add: acc_def)

lemma acc_plain:
  assumes "acc k" and "semas k' = semas k" and "holders k' = holders k"
    and "pending k' = (pending k)(c := fs)" and "\<not> special (pending k c)" and "\<not> special fs"
  shows "acc k'"
  using accounts_local [of "semas k" "pending k" "holders k" c fs] assms by (simp add: acc_def)

lemma acc_sema_up:
  assumes "acc k" and "sema_up s k = Some k'" and "\<And>l. s \<noteq> Lock_sema l"
  shows "acc k'"
  using accounts_up [of "semas k" "pending k" "holders k" s "tl (sort_seq (compare_priorities k) (waiters (semas k s)))"]
    sema_up_views [OF assms(2)] assms
  by (simp add: acc_def raised_def holders_def [abs_def])

lemma waiters_looping:
  assumes "placed k" and "acc k"
  shows "length (waiters (semas k s)) \<le> card (looping (pending k) s)"
    and "cur k \<in> looping (pending k) s \<Longrightarrow> length (waiters (semas k s)) + 1 \<le> card (looping (pending k) s)"
proof -
  have q: "queued k" and run: "st k (cur k) = Some THREAD_RUNNING" using assms(1) placed_cur by (auto simp: placed_def)
  have sub: "set (waiters (semas k s)) \<subseteq> looping (pending k) s"
    using queuedD(4) [OF q, of _ s] by (auto simp: looping_def in_loop_def)
  have fin: "finite (looping (pending k) s)" using accountsD(1) assms(2) by (auto simp: acc_def)
  have card: "card (set (waiters (semas k s))) = length (waiters (semas k s))"
    using queuedD(2) [OF q] by (simp add: distinct_card)
  show "length (waiters (semas k s)) \<le> card (looping (pending k) s)"
    using card_mono [OF fin sub] card by simp
  assume c: "cur k \<in> looping (pending k) s"
  have "cur k \<notin> set (waiters (semas k s))" using queuedD(4) [OF q, of "cur k" s] run by simp
  then show "length (waiters (semas k s)) + 1 \<le> card (looping (pending k) s)"
    using card_mono [OF fin, of "insert (cur k) (set (waiters (semas k s)))"] sub c card by simp
qed

lemma acc_sema_down:
  assumes a: "acc k" and d: "sema_down s k = Some k'" and p: "placed k" and n: "\<not> special (pending k (cur k))"
    and s: "\<And>l. s \<noteq> Lock_sema l"
  shows "acc k'"
  using d placed_cur [OF p]
proof (cases rule: sema_down_pending)
  case pass
  then show ?thesis
    using accounts_pass [of "semas k" "pending k" "holders k" s] a s sema_down_views(5) [OF d]
    by (simp add: acc_def holders_def [abs_def])
next
  case sleep
  then show ?thesis
    using accounts_sleep [of "semas k" "pending k" "holders k" s "cur k"
        "insert_seq (compare_priorities k) (cur k) (waiters (semas k s))" "pending k (cur k)"]
      a n sema_down_views(5) [OF d] waiters_looping(1) [OF p a]
    by (simp add: acc_def holders_def [abs_def])
qed

lemma acc_acquire_down:
  assumes a: "acc k" and d: "sema_down (Lock_sema l) k1 = Some k'" and p: "placed k" "st k1 (cur k1) = Some THREAD_RUNNING"
    and n: "\<not> special (pending k (cur k))"
    and k1: "semas k1 = semas k" "holders k1 = holders k" "cur k1 = cur k"
      "pending k1 = (pending k)(cur k := Acquire_tail_f l # fs)"
  shows "acc k'"
  using d p(2)
proof (cases rule: sema_down_pending)
  case pass
  then show ?thesis
    using accounts_take [of "semas k" "pending k" "holders k" l "cur k" "Acquire_tail_f l # fs" fs] a n k1
      sema_down_views(5) [OF d]
    by (simp add: acc_def holders_def [abs_def])
next
  case sleep
  then show ?thesis
    using accounts_sleep [of "semas k" "pending k" "holders k" "Lock_sema l" "cur k"
        "insert_seq (compare_priorities k1) (cur k) (waiters (semas k (Lock_sema l)))" "Acquire_tail_f l # fs"]
      a n k1 sema_down_views(5) [OF d] waiters_looping(1) [OF p(1) a]
    by (simp add: acc_def holders_def [abs_def])
qed

lemma acc_retry:
  assumes a: "acc k" and i: "kinv k" and c: "pending k (cur k) = Sema_retry_f s # fs"
    and d: "sema_down s (popped k) = Some k'"
  shows "acc k'"
proof -
  have ad: "after_down (cur k) s fs" using kinvD(8) [OF i, of "cur k"] c by simp
  have h: "holders k' = holders k" using sema_down_views(5) [OF d] by (simp add: holders_def [abs_def])
  have run: "st (popped k) (cur (popped k)) = Some THREAD_RUNNING" using kinvD(7) [OF i] by simp
  from d run show ?thesis
  proof (cases rule: sema_down_pending)
    case pass
    show ?thesis
    proof (cases "\<exists>l. s = Lock_sema l")
      case True
      then obtain l r where "s = Lock_sema l" "fs = Acquire_tail_f l # r" using ad by auto
      then show ?thesis
        using accounts_take [of "semas k" "pending k" "holders k" l "cur k" fs r] a c pass h by (simp add: acc_def)
    next
      case False
      then have "\<not> special fs" using ad by (cases s) auto
      then show ?thesis
        using accounts_leave [of "semas k" "pending k" "holders k" s "cur k" fs] a c pass h False by (simp add: acc_def)
    qed
  next
    case sleep
    have p: "pending k' = pending k" using sleep(2) c by (auto simp: fun_eq_iff)
    have "cur k \<in> looping (pending k) s" using c by (simp add: looping_def)
    from waiters_looping(2) [OF kinvD(1) [OF i] a this] show ?thesis
      using accounts_sleep_again [of "semas k" "pending k" "holders k" s
          "insert_seq (compare_priorities (popped k)) (cur k) (waiters (semas k s))"] a sleep h p
      by (simp add: acc_def)
  qed
qed

lemma acc_lock_acquire:
  assumes a: "acc k" and p: "placed k" and l: "local k k1" and d: "lock_acquire l k1 = Some k'"
    and n: "\<not> special (pending k (cur k))" and k1: "semas k1 = semas k" "holders k1 = holders k"
      "pending k1 = (pending k)(cur k := fs)"
  shows "acc k'"
proof -
  let ?w = "upd (cur k1) (\<lambda>th. th\<lparr>lock_waiting := lock_waiting th @ [l]\<rparr>) k1"
  obtain k2 where k2: "k2 = k1 \<or> donate l (holder (locks k1 l)) ?w = Some k2"
    and s: "sema_down (Lock_sema l) (push_cont (Acquire_tail_f l) k2) = Some k'"
    using d by (auto simp: lock_acquire_def lock_held_by_current_thread_def ASSERT_def
        split: if_splits Option.bind_splits)
  have v: "local k k2 \<and> pending k2 = pending k1 \<and> semas k2 = semas k1 \<and> holders k2 = holders k1"
    using k2
  proof
    assume dn: "donate l (holder (locks k1 l)) ?w = Some k2"
    have "local k ?w" using l by simp
    then show ?thesis
      using local_donate [OF dn] donated_views [OF donate_donated [OF dn]]
      by (auto simp: fun_eq_iff holders_def)
  qed (use l in simp)
  have run: "st k2 (cur k2) = Some THREAD_RUNNING" using local_running [OF p] v by blast
  have "pending (push_cont (Acquire_tail_f l) k2) = (pending k)(cur k := Acquire_tail_f l # fs)"
    using v k1(3) run localD(1) [of k k2] by (auto simp: fun_eq_iff is_thread_st)
  then show ?thesis
    using v k1 run localD(1) [of k k2] by (intro acc_acquire_down [OF a s p _ n]) (auto simp: holders_def)
qed

lemma acc_lock_release:
  assumes a: "acc k" and d: "lock_release l k = Some k'"
  shows "acc k'"
proof -
  obtain p n q and th :: thread where h: "holder (locks k l) = Some (cur k)"
    and u: "sema_up (Lock_sema l) (set_lock l (\<lambda>lk. lk\<lparr>holder := None\<rparr>)
      (upd (cur k) (\<lambda>th'. th'\<lparr>lock_holding := remove1 l (lock_holding th), priority := q\<rparr>)
        (set_lock l (\<lambda>lk. lk\<lparr>hold_next := n\<rparr>) (set_lock l (\<lambda>lk. lk\<lparr>max_priority := p\<rparr>) k)))) = Some k'"
      (is "sema_up _ ?k = _")
    using lock_release_cases [OF d] by metis
  have "holders k' = (holders k)(l := None)"
    using sema_up_views(7) [OF u] by (auto simp: holders_def fun_eq_iff)
  moreover have "pending k' = pending k" using sema_up_views(1) [OF u] by simp
  moreover have "semas k' = (semas k)(Lock_sema l := \<lparr>sema_value = size_wrap (sema_value (semas k (Lock_sema l)) + 1),
      waiters = tl (sort_seq (compare_priorities ?k) (waiters (semas k (Lock_sema l))))\<rparr>)"
    using sema_up_views(6) [OF u] by (simp add: raised_def)
  ultimately show ?thesis
    using accounts_release [of "semas k" "pending k" "holders k" l
        "tl (sort_seq (compare_priorities ?k) (waiters (semas k (Lock_sema l))))"] a h
    by (simp add: acc_def holders_def)
qed

section \<open>Every step keeps the accounts\<close>

definition at_rest :: "kernel \<Rightarrow> bool" where
  "at_rest k \<longleftrightarrow> acc k \<and> placed k \<and> \<not> special (pending k (cur k))"

lemma at_restD:
  assumes "at_rest k"
  shows "acc k" and "placed k" and "\<not> special (pending k (cur k))" and "st k (cur k) = Some THREAD_RUNNING"
  using assms placed_cur by (auto simp: at_rest_def)

lemma at_rest_local:
  assumes "at_rest k" and "local k k'" and "semas k' = semas k" and "holders k' = holders k"
    and "\<not> special (pending k' (cur k))"
  shows "at_rest k'"
proof -
  have "pending k' = (pending k)(cur k := pending k' (cur k))"
    using assms(2) by (auto simp: local_def fun_eq_iff)
  then have "acc k'" using acc_plain [OF at_restD(1) [OF assms(1)] assms(3,4)] assms(5) at_restD(3) [OF assms(1)] by blast
  moreover have "placed k'"
    by (rule local_placed [OF at_restD(2) [OF assms(1)] assms(2)]) (use assms(5) in \<open>auto simp: in_loop_def\<close>)
  ultimately show ?thesis using assms(2,5) by (simp add: at_rest_def local_def)
qed

lemma at_rest_push:
  "at_rest k \<Longrightarrow> \<not> special [f] \<Longrightarrow> at_rest (push_cont f k)"
  by (rule at_rest_local) (use at_restD(4) in \<open>auto simp: is_thread_st elim: special.elims\<close>)

lemma at_rest_upd:
  "at_rest k \<Longrightarrow> (\<And>th. status (g th) = status th) \<Longrightarrow> (\<And>th. cont (g th) = cont th) \<Longrightarrow> t = cur k \<Longrightarrow> at_rest (upd t g k)"
  by (rule at_rest_local) (use at_restD(3) in auto)

lemma at_rest_upd_other:
  "at_rest k \<Longrightarrow> (\<And>th. status (g th) = status th) \<Longrightarrow> (\<And>th. cont (g th) = cont th) \<Longrightarrow>
   (\<And>th. child_list (g th) = child_list th) \<Longrightarrow> at_rest (upd t g k)"
  by (rule at_rest_local) (use at_restD(3) in auto)

lemma at_rest_fields:
  "at_rest k \<Longrightarrow> at_rest (k\<lparr>conds := c\<rparr>)" "at_rest k \<Longrightarrow> at_rest (k\<lparr>next_tid := i\<rparr>)"
  "at_rest k \<Longrightarrow> at_rest (k\<lparr>sleep_list := l\<rparr>)" "at_rest k \<Longrightarrow> at_rest (k\<lparr>waiter_priority := w\<rparr>)"
  by (rule at_rest_local, assumption, simp_all add: at_restD)+

lemma wf_cont_tail: "wf_cont self (f # fs) \<Longrightarrow> \<not> special [f] \<Longrightarrow> \<not> special fs"
  by (cases f) (auto simp: base_def after_lock_def)

lemma at_rest_popped:
  assumes i: "kinv k" and a: "acc k" and p: "pending k (cur k) = f # fs" and f: "\<not> special [f]"
  shows "at_rest (popped k)"
proof -
  have "\<not> special (f # fs)" using f by (cases f) auto
  then have "at_rest k" using a kinvD(1) [OF i] p by (simp add: at_rest_def)
  then show ?thesis
    by (rule at_rest_local) (use kinvD(8) [OF i, of "cur k"] p wf_cont_tail [of "cur k" f fs] f in simp_all)
qed

lemma acc_up: "sema_up s k = Some k' \<Longrightarrow> at_rest k \<Longrightarrow> (\<And>l. s \<noteq> Lock_sema l) \<Longrightarrow> acc k'"
  by (rule acc_sema_up) (auto dest: at_restD)

lemma acc_down: "sema_down s k = Some k' \<Longrightarrow> at_rest k \<Longrightarrow> (\<And>l. s \<noteq> Lock_sema l) \<Longrightarrow> acc k'"
  by (rule acc_sema_down) (auto dest: at_restD)

lemma acc_acquire: "lock_acquire l k = Some k' \<Longrightarrow> at_rest k \<Longrightarrow> acc k'"
  by (rule acc_lock_acquire [OF _ _ local_refl, where fs = "pending k (cur k)"]) (auto dest: at_restD)

lemma acc_release: "lock_release l k = Some k' \<Longrightarrow> at_rest k \<Longrightarrow> acc k'"
  by (rule acc_lock_release) (auto dest: at_restD)

lemma acc_rest_eq:
  assumes "rest k' = rest k"
  shows "acc k' = acc k"
  by (rule acc_views) (auto simp: rest_eqD(1,2) [OF assms] rest_eq_views(1) [OF assms] holders_def)

lemma acc_check: "check_preemption k = Some k' \<Longrightarrow> at_rest k \<Longrightarrow> acc k'"
  using acc_rest_eq [OF check_preemption_rest] at_restD(1) by blast

lemma acc_signal:
  assumes "at_rest k" and "cond_signal v l k = Some k'"
  shows "acc k'"
  using assms(2)
proof (cases rule: cond_signal_cases)
  case 1
  then show ?thesis using assms(1) by (simp add: at_restD)
next
  case (2 t ts)
  show ?thesis by (rule acc_up [OF 2(2)]) (use assms(1) in \<open>auto intro: at_rest_fields\<close>)
qed

lemma acc_broadcast:
  assumes "at_rest k" and "cond_broadcast v l k = Some k'"
  shows "acc k'"
  using assms acc_signal [OF at_rest_push [OF assms(1), of "Broadcast_f v l"], of v l k'] at_restD(1) [OF assms(1)]
  by (auto simp: cond_broadcast_def split: if_splits)

lemma acc_acquire_tail:
  assumes i: "kinv k" and a: "acc k" and p: "pending k (cur k) = Acquire_tail_f l # fs"
    and d: "acquire_tail l (popped k) = Some k'"
  shows "acc k'"
proof -
  have "\<not> special fs" using kinvD(8) [OF i, of "cur k"] p by (auto simp: after_lock_def)
  moreover have "semas k' = semas k" "pending k' = (pending k)(cur k := fs)" "holders k' = (holders k)(l := Some (cur k))"
    using d p kinvD(7) [OF i] by (auto simp: acquire_tail_def Let_def holders_set_lock)
  ultimately show ?thesis
    using accounts_hold [of "semas k" "pending k" "holders k" "cur k" l fs] a p by (simp add: acc_def)
qed

text \<open>The routines that a frame stands for, on a state where the running thread holds no half-done lock operation.\<close>

lemma acc_create_tail:
  assumes i: "kinv k" and a: "acc k" and p: "pending k (cur k) = Create_tail_f t tid # fs"
    and d: "create_tail t tid (popped k) = Some k'"
  shows "acc k'"
proof -
  obtain k2 th where u: "thread_unblock t (upd t (\<lambda>th. th\<lparr>t_tid := tid\<rparr>) (popped k)) = Some k2"
    and th: "thr k2 (cur k2) = Some th"
    and r: "(if calling_exec th then sema_down (Load_mutex t) (push_cont (Create_loaded_f t)
        (upd (cur k2) (\<lambda>th. th\<lparr>child_list := child_list th @ [t]\<rparr>) k2))
      else check_preemption (push_cont (Create_ret_f t) k2)) = Some k'"
    using d by (auto simp: create_tail_def ASSERT_def split: if_splits Option.bind_splits)
  note v = create_tail_unblocked [OF i p u]
  have b: "\<not> special fs" using kinvD(8) [OF i, of "cur k"] p by (auto simp: base_def)
  have "acc (upd t (\<lambda>th. th\<lparr>t_tid := tid\<rparr>) (popped k))"
    using at_restD(1) [OF at_rest_popped [OF i a p]] by (auto simp: acc_def)
  then have "acc k2" using acc_rest_eq [OF thread_unblock_rest [OF u]] by simp
  then have ar: "at_rest k2" using v b by (simp add: at_rest_def)
  show ?thesis
  proof (cases "calling_exec th")
    case True
    then show ?thesis using r ar by (auto dest!: acc_down intro!: at_rest_push at_rest_upd)
  next
    case False
    then show ?thesis using r ar by (auto dest!: acc_check intro!: at_rest_push)
  qed
qed

lemma acc_exit_tail:
  assumes i: "kinv k" and a: "acc k" and p: "pending k (cur k) = Exit_tail_f # fs" and d: "exit_tail (popped k) = Some k'"
  shows "acc k'"
proof -
  have fs: "fs = []" using kinvD(8) [OF i, of "cur k"] p by simp
  have ni: "idle_thread k \<noteq> Some (cur k)" using not_idle [OF i] p by auto
  have ar: "at_rest (popped k)" by (rule at_rest_popped [OF i a p]) simp
  have e: "pending (popped k) (cur (popped k)) = []" "idle_thread (popped k) \<noteq> Some (cur (popped k))"
    using p fs ni by simp_all
  note v = exit_tail_views [OF at_restD(2) [OF ar] e d]
  show ?thesis using acc_views [OF v(4,2)] v(10) at_restD(1) [OF ar] by (simp add: holders_def [abs_def])
qed

lemma acc_resume:
  assumes i: "kinv k" and a: "acc k" and d: "resume k = Some k'" and e: "pending k (cur k) \<noteq> []"
  shows "acc k'"
proof -
  obtain f fs where p: "pending k (cur k) = f # fs" using e by (cases "pending k (cur k)") auto
  note r = resume_run [OF d p]
  have ar: "at_rest (popped k)" if "\<not> special [f]" by (rule at_rest_popped [OF i a p that])
  have run: "st k (cur k) = Some THREAD_RUNNING" by (rule kinvD(7) [OF i])
  show ?thesis
  proof (cases f)
    case (Sema_retry_f s)
    then show ?thesis using acc_retry [OF a i] p r by simp
  next
    case (Acquire_tail_f l)
    then show ?thesis using acc_acquire_tail [OF i a] p r by simp
  next
    case (Sema_down_f s)
    then have "s \<noteq> Lock_sema l" for l using kinvD(8) [OF i, of "cur k"] p by auto
    then show ?thesis using Sema_down_f r ar acc_down by auto
  next
    case (Lock_acquire_f l)
    then show ?thesis using r ar acc_acquire by auto
  next
    case (Broadcast_f v l)
    then show ?thesis using r ar acc_broadcast by auto
  next
    case (Tid_locked_f t)
    then show ?thesis
      using r ar
      by (auto simp: allocate_tid_def Let_def dest!: acc_release intro!: at_rest_push at_rest_fields)
  next
    case (Create_tail_f t tid)
    then show ?thesis using acc_create_tail [OF i a] p r by simp
  next
    case (Create_loaded_f t)
    then show ?thesis
      using r ar run by (auto simp: create_loaded_def Let_def split: if_splits Option.bind_splits
        dest!: acc_check intro!: at_rest_push at_rest_upd)
  next
    case (Create_ret_f t)
    then show ?thesis
      using r ar run by (auto simp: create_ret_def set_retval_def split: Option.bind_splits
        intro!: at_restD(1) at_rest_upd)
  next
    case Exec_ret_f
    then show ?thesis using r ar run by (auto simp: exec_ret_def intro!: at_restD(1) at_rest_upd)
  next
    case Exit_children_f
    then show ?thesis
      using r ar run by (auto simp: exit_children_def split: list.splits Option.bind_splits
        dest!: acc_up intro!: at_rest_push at_rest_upd at_restD(1) [OF at_rest_push])
  next
    case (Exit_locks_f x)
    then show ?thesis
      using r ar run by (auto simp: exit_locks_def ASSERT_def split: hnode.splits if_splits
        dest!: acc_up acc_release intro!: at_rest_push)
  next
    case (Exit_next_f l)
    then show ?thesis using r ar by (auto simp: exit_next_def intro: at_restD(1) [OF at_rest_push])
  next
    case Exit_tail_f
    then show ?thesis using acc_exit_tail [OF i a] p r by simp
  next
    case (Wait_tail_f t)
    then show ?thesis
      using r ar run by (auto simp: wait_tail_def Let_def set_retval_def split: Option.bind_splits
        dest!: acc_up intro!: at_rest_upd)
  next
    case Idle_loop_f
    then show ?thesis
      using r at_restD(1) [OF at_rest_push [OF ar, of Idle_loop_f]] acc_rest_eq [OF thread_block_rest]
      by (auto simp: idle_loop_def)
  qed
qed

lemma acc_wake_sleepers: "wake_sleepers ts k = Some k' \<Longrightarrow> acc k \<Longrightarrow> acc k'"
proof (induction ts arbitrary: k)
  case (Cons t ts)
  show ?case
  proof (cases "timer_ticks k < wake_time k t")
    case True
    then show ?thesis
      using Cons.prems acc_views [of k' k] by (auto simp: ASSERT_def split: if_splits)
  next
    case False
    then obtain k1 where u: "sema_up (Sleep_mutex t) (k\<lparr>sleep_list := ts\<rparr>) = Some k1"
      and w: "wake_sleepers ts k1 = Some k'"
      using Cons.prems(1) by (auto simp: ASSERT_def split: if_splits Option.bind_splits)
    have "acc (k\<lparr>sleep_list := ts\<rparr>)" using Cons.prems(2) acc_views [of "k\<lparr>sleep_list := ts\<rparr>" k] by simp
    then have "acc k1" by (rule acc_sema_up [OF _ u]) simp
    then show ?thesis by (rule Cons.IH [OF w])
  qed
next
  case Nil
  then show ?case using acc_views [of "k\<lparr>sleep_list := []\<rparr>" k] by auto
qed

lemma acc_fields:
  assumes "thr k' = thr k" and "semas k' = semas k" and "locks k' = locks k"
  shows "acc k' = acc k"
  by (rule acc_views) (use assms in \<open>auto simp: pending_def holders_def fun_eq_iff\<close>)

lemma acc_timer:
  assumes "intr_handler timer_interrupt k = Some k'" and "acc k"
  shows "acc k'"
proof -
  let ?k = "k\<lparr>in_external_intr := True, yield_on_return := False\<rparr>"
  let ?j = "?k\<lparr>ticks := int64_wrap (ticks ?k + 1)\<rparr>"
  obtain k1 k2 where t: "thread_tick ?j = Some k1" and w: "wake_sleepers (sleep_list k1) k1 = Some k2"
    and y: "k' = k2\<lparr>in_external_intr := False\<rparr> \<or> thread_yield (k2\<lparr>in_external_intr := False\<rparr>) = Some k'"
    using assms(1)
    by (auto simp: intr_handler_def timer_interrupt_def Let_def ASSERT_def split: if_splits Option.bind_splits)
  have "acc ?j" using assms(2) acc_fields [of ?j k] by simp
  then have "acc k1" using acc_fields [of k1 ?j] thread_tick_fields(1,2,6) [OF t] by simp
  then have "acc k2" by (rule acc_wake_sleepers [OF w])
  then have "acc (k2\<lparr>in_external_intr := False\<rparr>)" using acc_fields [of "k2\<lparr>in_external_intr := False\<rparr>" k2] by simp
  then show ?thesis using y acc_rest_eq [OF thread_yield_rest] by auto
qed

lemma at_rest_create:
  assumes "kinv k" and "at_rest k" and "thr k t = None" and "init_thread t p k = Some k1"
  shows "at_rest k1"
proof -
  note v = init_thread_eq [OF assms(4)] and w = kinv_init_thread [OF assms(1,3,4)]
  have "accounts (semas k1) (pending k) (holders k)"
    by (rule accounts_init [of "semas k"]) (use at_restD(1) [OF assms(2)] v(6) in \<open>auto simp: acc_def own_semas_def\<close>)
  moreover have "holders k1 = holders k" by (simp add: holders_def fun_eq_iff v)
  ultimately show ?thesis
    using at_restD(3) [OF assms(2)] w(2) v(2) kinvD(1) [OF w(1)] by (simp add: at_rest_def acc_def)
qed

lemma acc_create:
  assumes "kinv k" and "at_rest k" and "\<And>t. page = Some t \<Longrightarrow> thr k t = None" and "thread_create page p k = Some k'"
  shows "acc k'"
proof (cases page)
  case None
  then show ?thesis using assms(2,4) by (auto simp: thread_create_def set_retval_def intro!: at_restD(1) at_rest_upd)
next
  case (Some t)
  then obtain k1 where k1: "init_thread t p k = Some k1"
    and a: "lock_acquire tid_lock (push_cont (Tid_locked_f t) k1) = Some k'"
    using assms(4) by (auto simp: thread_create_def split: Option.bind_splits)
  have "at_rest k1" by (rule at_rest_create [OF assms(1,2) assms(3) [OF Some] k1])
  then show ?thesis by (intro acc_acquire [OF a] at_rest_push) simp_all
qed

lemma acc_sema_init:
  assumes "acc k" and "\<And>l. s \<noteq> Lock_sema l"
  shows "acc (sema_init s v k)"
proof -
  have "accounts (semas (sema_init s v k)) (pending k) (holders k)"
    by (rule accounts_init [of "semas k"]) (use assms in \<open>auto simp: acc_def sema_init_def\<close>)
  then show ?thesis by (simp add: acc_def)
qed

lemma acc_event:
  assumes i: "kinv k" and a: "acc k" and en: "enabled e k" and d: "run_event e k = Some k'"
  shows "acc k'"
proof (cases "e = Tick \<or> e = Resume")
  case True
  then show ?thesis using d en acc_resume [OF i a] acc_timer [OF _ a] by (auto simp: enabled_def)
next
  case False
  then have p: "pending k (cur k) = []" and c: "call_ok e k" using en by (auto simp: enabled_def split: event.splits)
  have ar: "at_rest k" using a p kinvD(1) [OF i] by (simp add: at_rest_def)
  note run = kinvD(7) [OF i]
  show ?thesis
  proof (cases e)
    case (Call_sema_init s v)
    then show ?thesis using d a acc_sema_init by auto
  next
    case (Call_sema_try_down s)
    then have "k' = k \<or> k' = set_sema (User_sema s) ((semas k (User_sema s))\<lparr>sema_value := sema_value (semas k (User_sema s)) - 1\<rparr>) k"
      using d by (auto simp: sema_try_down_def ASSERT_def Let_def split: if_splits Option.bind_splits)
    then show ?thesis
      using a accounts_pass [of "semas k" "pending k" "holders k" "User_sema s"] by (auto simp: acc_def)
  next
    case (Call_lock_try_acquire l)
    let ?t = "set_sema (Lock_sema l) ((semas k (Lock_sema l))\<lparr>sema_value := sema_value (semas k (Lock_sema l)) - 1\<rparr>) k"
    have "k' = k \<or> sema_value (semas k (Lock_sema l)) > 0 \<and> k' = set_lock l (\<lambda>lk. lk\<lparr>holder := Some (cur k)\<rparr>) ?t"
      using d Call_lock_try_acquire run by (auto simp: lock_try_acquire_def lock_held_by_current_thread_def
        sema_try_down_def ASSERT_def Let_def split: if_splits Option.bind_splits)
    then show ?thesis
      using a accounts_try [of "semas k" "pending k" "holders k" l "cur k"]
      by (auto simp: acc_def holders_set_lock)
  next
    case (Call_cond_wait v l)
    let ?i = "sema_init (Waiter_sema (cur k)) 0 k"
    obtain f g where r: "lock_release l (push_cont (Sema_down_f (Waiter_sema (cur k)))
        (push_cont (Lock_acquire_f l) (?i\<lparr>waiter_priority := f, conds := g\<rparr>))) = Some k'"
      using d Call_cond_wait run by (auto simp: cond_wait_def lock_held_by_current_thread_def ASSERT_def Let_def
          split: if_splits Option.bind_splits)
    have "\<not> in_loop k u (Waiter_sema (cur k))" for u
      using kinvD(8) [OF i, of u] p by (auto simp: in_loop_def)
    then have "waiters (semas k (Waiter_sema (cur k))) = []" by (rule no_waiters [OF kinvD(9) [OF i]])
    then have "placed ?i" by (intro placed_keep [OF kinvD(1) [OF i]]) (auto simp: sema_init_def)
    then have "at_rest ?i" using acc_sema_init [OF a, of "Waiter_sema (cur k)"] p by (simp add: at_rest_def)
    then show ?thesis by (intro acc_release [OF r] at_rest_push at_rest_fields) simp_all
  next
    case (Call_set_priority x)
    then obtain f where f: "check_preemption (upd (cur k) f k) = Some k'"
      "\<And>th. status (f th) = status th" "\<And>th. cont (f th) = cont th"
      using d run by (auto simp: thread_set_priority_def Let_def)
    show ?thesis by (rule acc_check [OF f(1) at_rest_upd [OF ar f(2,3)]]) simp_all
  next
    case (Call_sleep n)
    then show ?thesis
      using d run ar a by (auto simp: timer_sleep_def Let_def split: if_splits dest!: acc_down intro!: at_rest_fields at_rest_upd)
  next
    case (Call_create page x)
    show ?thesis by (rule acc_create [OF i ar, of page x]) (use d c Call_create in auto)
  next
    case (Call_exec page)
    let ?u = "push_cont Exec_ret_f (upd (cur k) (\<lambda>th. th\<lparr>calling_exec := True\<rparr>) k)"
    have t: "thread_create page PRI_DEFAULT ?u = Some k'" using d Call_exec run by (simp add: process_execute_def)
    have pend: "pending ?u (cur k) = [Exec_ret_f]"
      using pending_push_local [OF kinvD(1) [OF i], of "upd (cur k) (\<lambda>th. th\<lparr>calling_exec := True\<rparr>) k"] p
      by (simp del: pending_push)
    have "kinv ?u" by (rule kinv_local [OF i]) (use pend not_idle [OF i] p in \<open>simp_all del: pending_push\<close>)
    moreover have "at_rest ?u" using ar by (intro at_rest_push at_rest_upd) auto
    ultimately show ?thesis
      by (rule acc_create [OF _ _ _ t]) (use c Call_exec in \<open>auto simp: push_cont_def\<close>)
  next
    case (Call_loaded b)
    then show ?thesis
      using d run ar by (auto simp: start_process_def split: if_splits dest!: acc_up intro!: at_rest_push at_rest_upd)
  next
    case (Call_wait tid)
    have "acc (upd (cur k) (\<lambda>th. th\<lparr>retval := v\<rparr>) k)" for v
      by (rule at_restD(1) [OF at_rest_upd [OF ar]]) simp_all
    then show ?thesis
      using d run ar Call_wait
      by (auto simp: process_wait_def set_retval_def split: option.splits Option.bind_splits if_splits
          dest!: acc_down intro!: at_rest_push at_rest_upd_other)
  next
    case (Call_exit n)
    then show ?thesis
      using d run ar by (auto simp: thread_exit_def ASSERT_def split: if_splits intro!: at_restD(1) at_rest_push at_rest_upd)
  next
    case (Call_idle s)
    have "acc (push_cont Idle_loop_f (k\<lparr>idle_thread := Some (cur k)\<rparr>))"
      using acc_plain [OF a, of "push_cont Idle_loop_f (k\<lparr>idle_thread := Some (cur k)\<rparr>)" "cur k" "[Idle_loop_f]"] p run
      by (auto simp: fun_eq_iff is_thread_def st_def)
    then show ?thesis
      using d Call_idle run acc_sema_up [of "push_cont Idle_loop_f (k\<lparr>idle_thread := Some (cur k)\<rparr>)" "User_sema s" k']
      by (auto simp: idle_def)
  next
    case Call_yield
    then show ?thesis using d a acc_rest_eq [OF thread_yield_rest] by auto
  qed (use False d ar acc_up acc_down acc_acquire acc_release acc_signal acc_broadcast in auto)
qed

lemma acc_boot: "acc (boot main)"
proof -
  have p: "pending (boot main) t = []" for t by (simp add: boot_def pending_def new_thread_def)
  have w: "waiters (semas (boot main) s) = []" for s by (simp add: boot_def split: sid.split)
  have h: "sema_value (semas (boot main) (Lock_sema l)) = 1" "holders (boot main) l = None" for l
    by (simp_all add: boot_def holders_def)
  show ?thesis unfolding acc_def by (rule accountsI) (simp_all add: p w h balance_def taking_def)
qed

lemma reachable_acc: "reachable main k \<Longrightarrow> acc k"
  by (induction rule: reachable.induct) (auto intro: acc_boot acc_event reachable_kinv)

end
