(* ===== verification/Ksleep_Inv.thy ===== *)
theory Ksleep_Inv
  imports Ksync_Inv
begin

text \<open>
  The sleepers. The sleep list holds exactly the threads whose call of \<^verbatim>\<open>timer_sleep\<close> has not
  been ended by the timer, in the order of their wake-up times, and no other part of the kernel
  touches it. What a step of the kernel cannot change in other threads is \<open>tame\<close>.
\<close>

section \<open>What a step leaves alone\<close>

definition slv :: "kernel \<Rightarrow> ptr \<Rightarrow> nat" where
  "slv k t = sema_value (semas k (Sleep_mutex t))"

definition tame :: "kernel \<Rightarrow> kernel \<Rightarrow> bool" where
  "tame k k' \<longleftrightarrow> sleep_list k' = sleep_list k \<and> ticks k' = ticks k \<and> slv k' = slv k \<and>
     pending k' (cur k) \<noteq> [Sema_retry_f (Sleep_mutex (cur k))] \<and>
     (\<forall>t. t \<noteq> cur k \<longrightarrow> pending k' t = pending k t \<and> wake_time k' t = wake_time k t) \<and>
     (\<forall>t. st k' t = Some THREAD_DYING \<longrightarrow> st k t = Some THREAD_DYING \<or> pending k' t = [])"

text \<open>A state in the middle of a routine, before the threads were switched.\<close>

definition so_far :: "kernel \<Rightarrow> kernel \<Rightarrow> bool" where
  "so_far k k1 \<longleftrightarrow> tame k k1 \<and> cur k1 = cur k"

lemma so_farI:
  assumes "cur k1 = cur k" and "sleep_list k1 = sleep_list k" and "ticks k1 = ticks k" and "slv k1 = slv k"
    and "st k1 = st k" and "\<And>t. t \<noteq> cur k \<Longrightarrow> pending k1 t = pending k t"
    and "\<And>t. t \<noteq> cur k \<Longrightarrow> wake_time k1 t = wake_time k t"
    and "pending k1 (cur k) \<noteq> [Sema_retry_f (Sleep_mutex (cur k))]"
  shows "so_far k k1"
  using assms by (simp add: so_far_def tame_def)

lemma wake_upd_same [simp]:
  "(\<And>th. tick_to_wake (f th) = tick_to_wake th) \<Longrightarrow> wake_time (upd t f k) = wake_time k"
  by (auto simp: fun_eq_iff wake_time_def split: option.split)

lemma wake_push [simp]: "wake_time (push_cont f k) = wake_time k"
  by (simp add: push_cont_def)

lemma slv_simps [simp]:
  "slv (upd t f k) = slv k" "slv (push_cont g k) = slv k" "slv (set_lock l h k) = slv k"
  "slv (k\<lparr>conds := c\<rparr>) = slv k" "slv (k\<lparr>waiter_priority := w\<rparr>) = slv k" "slv (k\<lparr>next_tid := n\<rparr>) = slv k"
  "slv (k\<lparr>idle_thread := j\<rparr>) = slv k" "slv (k\<lparr>all_list := ts\<rparr>) = slv k" "slv (k\<lparr>sleep_list := ts\<rparr>) = slv k"
  "slv (k\<lparr>ticks := x\<rparr>) = slv k"
  by (simp_all add: slv_def fun_eq_iff)

lemma slv_set_sema: "(\<And>t. s \<noteq> Sleep_mutex t) \<Longrightarrow> slv (set_sema s v k) = slv k"
  by (auto simp: slv_def fun_eq_iff)

lemma slv_init: "(\<And>t. s \<noteq> Sleep_mutex t) \<Longrightarrow> slv (sema_init s v k) = slv k"
  by (auto simp: slv_def fun_eq_iff sema_init_def)

lemma wake_fields [simp]:
  "wake_time (k\<lparr>conds := c\<rparr>) = wake_time k" "wake_time (k\<lparr>waiter_priority := w\<rparr>) = wake_time k"
  "wake_time (k\<lparr>next_tid := n\<rparr>) = wake_time k" "wake_time (k\<lparr>idle_thread := j\<rparr>) = wake_time k"
  "wake_time (k\<lparr>all_list := ts\<rparr>) = wake_time k" "wake_time (k\<lparr>sleep_list := ts\<rparr>) = wake_time k"
  "wake_time (k\<lparr>ticks := x\<rparr>) = wake_time k"
  "wake_time (set_lock l h k) = wake_time k" "wake_time (set_sema s v k) = wake_time k" "wake_time (sema_init s i k) = wake_time k"
  by (simp_all add: wake_time_def fun_eq_iff sema_init_def)

lemma sema_init_fields [simp]:
  "sleep_list (sema_init s v k) = sleep_list k" "ticks (sema_init s v k) = ticks k" "locks (sema_init s v k) = locks k"
  by (simp_all add: sema_init_def)

subsection \<open>Assignments\<close>

lemma so_far_upd:
  assumes "so_far k k1" and "\<And>th. status (f th) = status th" and "\<And>th. tick_to_wake (f th) = tick_to_wake th"
    and "\<And>th. cont (f th) = cont th"
  shows "so_far k (upd t f k1)"
  using assms by (simp add: so_far_def tame_def)

lemma so_far_push:
  assumes "so_far k k1" and "\<And>s. f \<noteq> Sema_retry_f s" and "st k1 (cur k1) = Some THREAD_RUNNING"
  shows "so_far k (push_cont f k1)"
  using assms by (auto simp: so_far_def tame_def is_thread_def st_def)

lemma so_far_fields:
  assumes "so_far k k1"
  shows "so_far k (k1\<lparr>conds := c\<rparr>)" and "so_far k (k1\<lparr>waiter_priority := w\<rparr>)" and "so_far k (k1\<lparr>next_tid := n\<rparr>)"
    and "so_far k (k1\<lparr>idle_thread := j\<rparr>)" and "so_far k (set_lock l h k1)" and "so_far k (k1\<lparr>all_list := ts\<rparr>)"
    and "(\<And>t. s \<noteq> Sleep_mutex t) \<Longrightarrow> so_far k (set_sema s v k1)"
    and "(\<And>t. s \<noteq> Sleep_mutex t) \<Longrightarrow> so_far k (sema_init s i k1)"
  using assms by (auto simp: so_far_def tame_def slv_set_sema slv_init)

subsection \<open>Switches\<close>

lemma schedule_gone:
  assumes "schedule k = Some k'"
  shows "st k' t = Some THREAD_DYING \<Longrightarrow> st k t = Some THREAD_DYING"
    and "t \<noteq> cur k \<Longrightarrow> wake_time k' t = wake_time k t" and "t \<noteq> cur k \<Longrightarrow> pending k' t = pending k t"
  using assms
  by (auto simp: schedule_def thread_schedule_tail_def running_thread_def st_def is_thread_def wake_time_def pending_def
        next_thread_to_run_def upd_def ASSERT_def Let_def split: Option.bind_splits if_splits option.splits list.splits)

lemma gone_routines:
  "thread_block k = Some k' \<Longrightarrow> st k' t = Some THREAD_DYING \<Longrightarrow> st k t = Some THREAD_DYING"
  "thread_yield k = Some k' \<Longrightarrow> st k' t = Some THREAD_DYING \<Longrightarrow> st k t = Some THREAD_DYING"
  "thread_unblock u k = Some k' \<Longrightarrow> st k' t = Some THREAD_DYING \<Longrightarrow> st k t = Some THREAD_DYING"
  by (auto simp: thread_block_schedule thread_yield_schedule thread_unblock_eq split: if_splits dest!: schedule_gone(1))

lemma gone_check: "check_preemption k = Some k' \<Longrightarrow> st k' t = Some THREAD_DYING \<Longrightarrow> st k t = Some THREAD_DYING"
  by (erule check_preemption_cases) (auto dest: gone_routines)

lemma gone_up: "sema_up s k = Some k' \<Longrightarrow> st k' t = Some THREAD_DYING \<Longrightarrow> st k t = Some THREAD_DYING"
  by (auto simp: sema_up_def sema_wake_def Let_def ASSERT_def split: if_splits Option.bind_splits list.splits
      dest!: gone_check gone_routines)

lemma gone_down: "sema_down s k = Some k' \<Longrightarrow> st k' t = Some THREAD_DYING \<Longrightarrow> st k t = Some THREAD_DYING"
  by (erule sema_down_cases) (auto dest!: gone_routines)

lemma tame_rest:
  assumes "so_far k k1" and "rest k' = rest k1" and "\<And>t. st k' t = Some THREAD_DYING \<Longrightarrow> st k1 t = Some THREAD_DYING"
  shows "tame k k'"
  using assms rest_eqD [OF assms(2)] rest_eq_views [OF assms(2)]
  by (auto simp: so_far_def tame_def slv_def fun_eq_iff)

lemma tame_check: "check_preemption k1 = Some k' \<Longrightarrow> so_far k k1 \<Longrightarrow> tame k k'"
  by (rule tame_rest [of k k1]) (auto dest: check_preemption_rest gone_check)

lemma tame_yield: "thread_yield k1 = Some k' \<Longrightarrow> so_far k k1 \<Longrightarrow> tame k k'"
  by (rule tame_rest [of k k1]) (auto dest: thread_yield_rest gone_routines)

lemma tame_block: "thread_block k1 = Some k' \<Longrightarrow> so_far k k1 \<Longrightarrow> tame k k'"
  by (rule tame_rest [of k k1]) (auto dest: thread_block_rest gone_routines)

lemma so_far_unblock: "thread_unblock t k1 = Some k2 \<Longrightarrow> so_far k k1 \<Longrightarrow> so_far k k2"
  using tame_rest [of k k1 k2] thread_unblock_rest [of t k1 k2] gone_routines(3) [of t k1 k2]
  by (auto simp: so_far_def thread_unblock_eq)

lemma tame_up: "sema_up s k1 = Some k' \<Longrightarrow> so_far k k1 \<Longrightarrow> (\<And>t. s \<noteq> Sleep_mutex t) \<Longrightarrow> tame k k'"
  using sema_up_views [of s k1 k'] gone_up [of s k1 k'] by (auto simp: so_far_def tame_def slv_def fun_eq_iff)

lemma tame_down:
  assumes d: "sema_down s k1 = Some k'" and f: "so_far k k1" and s: "\<And>t. s \<noteq> Sleep_mutex t"
  shows "tame k k'"
proof (cases "st k1 (cur k1) = Some THREAD_RUNNING")
  case run: True
  note v = sema_down_views [OF d]
  have c: "cur k1 = cur k" and p: "pending k' t = pending k1 t" if "t \<noteq> cur k" for t
    using d run f that by (cases rule: sema_down_pending; simp add: so_far_def)+
  have x: "pending k' (cur k) \<noteq> [Sema_retry_f (Sleep_mutex (cur k))]" and l: "slv k' = slv k"
    using d run f s by (cases rule: sema_down_pending; auto simp: so_far_def tame_def slv_def fun_eq_iff)+
  have "st k t = Some THREAD_DYING \<or> pending k' t = []" if "st k' t = Some THREAD_DYING" for t
  proof (cases "t = cur k")
    case True
    then show ?thesis using gone_down [OF d that] run f by (simp add: so_far_def)
  next
    case False
    then show ?thesis using gone_down [OF d that] p [OF False] f by (auto simp: so_far_def tame_def)
  qed
  then show ?thesis using f v(8,9,11) p x l by (simp add: so_far_def tame_def)
next
  case False
  with d have "k' = set_sema s ((semas k1 s)\<lparr>sema_value := sema_value (semas k1 s) - 1\<rparr>) k1"
    by (auto elim: sema_down_cases)
  then show ?thesis using so_far_fields(7) [OF f s] by (simp add: so_far_def)
qed

lemma tame_acquire:
  assumes d: "lock_acquire l k1 = Some k'" and f: "so_far k k1"
  shows "tame k k'"
proof -
  obtain k2 where k2: "k2 = k1 \<or> donate l (holder (locks k1 l))
      (upd (cur k1) (\<lambda>th. th\<lparr>lock_waiting := lock_waiting th @ [l]\<rparr>) k1) = Some k2"
    and run: "st k1 (cur k1) = Some THREAD_RUNNING"
    and s: "sema_down (Lock_sema l) (push_cont (Acquire_tail_f l) k2) = Some k'"
    using d by (auto simp: lock_acquire_def lock_held_by_current_thread_def ASSERT_def
        split: if_splits Option.bind_splits)
  let ?u = "upd (cur k1) (\<lambda>th. th\<lparr>lock_waiting := lock_waiting th @ [l]\<rparr>) k1"
  have "so_far k ?u" using f by (rule so_far_upd) simp_all
  then have "so_far k k2 \<and> st k2 (cur k2) = Some THREAD_RUNNING"
    using k2 f run donated_views [OF donate_donated, of l "holder (locks k1 l)" ?u k2]
    by (auto simp: so_far_def tame_def slv_def fun_eq_iff)
  then have "so_far k (push_cont (Acquire_tail_f l) k2)" by (intro so_far_push) auto
  then show ?thesis by (rule tame_down [OF s]) simp
qed

lemma tame_release:
  assumes "lock_release l k1 = Some k'" and f: "so_far k k1"
  shows "tame k k'"
proof -
  obtain p n q and th :: thread where u: "sema_up (Lock_sema l) (set_lock l (\<lambda>lk. lk\<lparr>holder := None\<rparr>)
      (upd (cur k1) (\<lambda>th'. th'\<lparr>lock_holding := remove1 l (lock_holding th), priority := q\<rparr>)
        (set_lock l (\<lambda>lk. lk\<lparr>hold_next := n\<rparr>) (set_lock l (\<lambda>lk. lk\<lparr>max_priority := p\<rparr>) k1)))) = Some k'"
    using lock_release_cases [OF assms(1)] by metis
  show ?thesis by (rule tame_up [OF u]) (use f in \<open>auto intro!: so_far_fields so_far_upd\<close>)
qed

lemma so_far_tame: "so_far k k1 \<Longrightarrow> tame k k1"
  by (simp add: so_far_def)

lemma tame_signal: "cond_signal v l k1 = Some k' \<Longrightarrow> so_far k k1 \<Longrightarrow> tame k k'"
  by (erule cond_signal_cases) (auto dest: so_far_tame intro: tame_up so_far_fields)

lemma tame_broadcast:
  "cond_broadcast v l k1 = Some k' \<Longrightarrow> so_far k k1 \<Longrightarrow> st k1 (cur k1) = Some THREAD_RUNNING \<Longrightarrow> tame k k'"
  by (auto simp: cond_broadcast_def dest: so_far_tame split: if_splits intro: tame_signal so_far_push)

section \<open>Which steps are tame\<close>

lemma so_far_refl: "pending k (cur k) \<noteq> [Sema_retry_f (Sleep_mutex (cur k))] \<Longrightarrow> so_far k k"
  by (rule so_farI) simp_all

lemma no_retry_below:
  assumes "wf_cont self (f # fs)"
  shows "fs \<noteq> Sema_retry_f s # r"
proof (cases f)
  case (Sema_retry_f x)
  then show ?thesis using assms by (cases x) auto
qed (use assms in \<open>auto simp: after_lock_def base_def\<close>)

lemma so_far_popped:
  assumes "kinv k" and "pending k (cur k) = f # fs"
  shows "so_far k (popped k)"
proof (rule so_farI)
  have "pending (popped k) (cur k) = fs" using assms(2) by simp
  then show "pending (popped k) (cur k) \<noteq> [Sema_retry_f (Sleep_mutex (cur k))]"
    using no_retry_below [of "cur k" f fs] kinvD(8) [OF assms(1), of "cur k"] assms(2) by simp
qed (simp_all add: popped_def pending_upd)

lemma tame_exit_tail:
  assumes "exit_tail k1 = Some k'" and f: "so_far k k1" and p: "pending k1 (cur k1) = []"
    and v: "pending k' = pending k1" "semas k' = semas k1" "sleep_list k' = sleep_list k1" "ticks k' = ticks k1"
  shows "tame k k'"
proof -
  let ?k = "upd (cur k1) (\<lambda>th. th\<lparr>status := THREAD_DYING\<rparr>) (k1\<lparr>all_list := remove1 (cur k1) (all_list k1)\<rparr>)"
  have s: "schedule ?k = Some k'" using assms(1) by (auto simp: exit_tail_def Let_def split: if_splits)
  have "wake_time k' t = wake_time k t" if "t \<noteq> cur k" for t
    using schedule_gone(2) [OF s, of t] that f by (simp add: so_far_def tame_def)
  moreover have "st k t = Some THREAD_DYING \<or> pending k' t = []" if "st k' t = Some THREAD_DYING" for t
    using schedule_gone(1) [OF s that] f p v(1) by (auto simp: so_far_def tame_def split: if_splits)
  ultimately show ?thesis using f v p by (simp add: so_far_def tame_def slv_def fun_eq_iff)
qed

lemma tame_resume:
  assumes i: "kinv k" and d: "resume k = Some k'" and p: "pending k (cur k) = f # fs"
    and f: "\<And>t. f \<noteq> Sema_retry_f (Sleep_mutex t)"
  shows "tame k k'"
proof -
  note r = resume_run [OF d p] and sf = so_far_popped [OF i p] and run = kinvD(7) [OF i]
  note rules = so_far_push so_far_upd so_far_fields so_far_tame [OF so_far_push] so_far_tame [OF so_far_upd]
    so_far_tame [OF so_far_fields(5)]
  show ?thesis
  proof (cases f)
    case (Sema_retry_f s)
    then show ?thesis using r sf f by (auto dest!: tame_down)
  next
    case (Acquire_tail_f l)
    then show ?thesis
      using r sf run by (auto simp: acquire_tail_def Let_def intro!: rules)
  next
    case (Sema_down_f s)
    then have "s \<noteq> Sleep_mutex t" for t using kinvD(8) [OF i, of "cur k"] p by auto
    then show ?thesis using r sf Sema_down_f by (auto dest!: tame_down)
  next
    case (Create_tail_f t tid)
    obtain k2 where u: "thread_unblock t (upd t (\<lambda>th. th\<lparr>t_tid := tid\<rparr>) (popped k)) = Some k2"
      and c: "st k2 (cur k2) = Some THREAD_RUNNING"
      and m: "sema_down (Load_mutex t) (push_cont (Create_loaded_f t)
          (upd (cur k2) (\<lambda>th. th\<lparr>child_list := child_list th @ [t]\<rparr>) k2)) = Some k' \<or>
        check_preemption (push_cont (Create_ret_f t) k2) = Some k'"
      using r Create_tail_f
      by (auto simp: create_tail_def ASSERT_def split: if_splits Option.bind_splits)
    have "so_far k k2" by (rule so_far_unblock [OF u so_far_upd [OF sf]]) simp_all
    then show ?thesis using m c by (auto dest!: tame_down tame_check intro!: rules)
  next
    case (Exit_locks_f x)
    then show ?thesis
      using r sf run by (auto simp: exit_locks_def ASSERT_def split: hnode.splits if_splits
          dest!: tame_up tame_release intro!: rules)
  next
    case Exit_tail_f
    have ni: "idle_thread k \<noteq> Some (cur k)" using not_idle [OF i] p Exit_tail_f by auto
    have fs: "fs = []" using kinvD(8) [OF i, of "cur k"] p Exit_tail_f by simp
    have pp: "placed (popped k)" by (rule local_placed [OF kinvD(1) [OF i] popped_local]) (use ni in simp)
    have e: "exit_tail (popped k) = Some k'" using r Exit_tail_f by simp
    show ?thesis
      by (rule tame_exit_tail [OF e sf]) (use exit_tail_views [OF pp _ _ e] p fs ni in simp_all)
  next
    case (Exit_children_f)
    then show ?thesis
      using r sf run by (auto simp: exit_children_def split: list.splits Option.bind_splits
          dest!: tame_up intro!: rules)
  next
    case (Wait_tail_f t)
    then show ?thesis
      using r sf run by (auto simp: wait_tail_def set_retval_def Let_def split: Option.bind_splits
          dest!: tame_up intro!: rules)
  qed (use r sf run in \<open>auto simp: allocate_tid_def create_loaded_def create_ret_def exec_ret_def
      exit_next_def idle_loop_def set_retval_def Let_def
      split: if_splits Option.bind_splits
      dest!: tame_acquire tame_release tame_broadcast tame_check tame_block intro!: rules\<close>)
qed

section \<open>The sleepers\<close>

definition sleepers :: "kernel \<Rightarrow> bool" where
  "sleepers k \<longleftrightarrow> distinct (sleep_list k) \<and>
     sorted_wrt (\<lambda>a b. wake_time k a \<le> wake_time k b) (sleep_list k) \<and>
     (\<forall>t. t \<in> set (sleep_list k) \<longleftrightarrow> pending k t = [Sema_retry_f (Sleep_mutex t)] \<and> slv k t = 0) \<and>
     (\<forall>t. pending k t = [Sema_retry_f (Sleep_mutex t)] \<and> slv k t \<le> 1 \<or> slv k t = 0) \<and>
     (\<forall>t. st k t = Some THREAD_DYING \<longrightarrow> pending k t = [])"

lemma sleepersD:
  assumes "sleepers k"
  shows "distinct (sleep_list k)" and "sorted_wrt (\<lambda>a b. wake_time k a \<le> wake_time k b) (sleep_list k)"
    and "t \<in> set (sleep_list k) \<longleftrightarrow> pending k t = [Sema_retry_f (Sleep_mutex t)] \<and> slv k t = 0"
    and "pending k t \<noteq> [Sema_retry_f (Sleep_mutex t)] \<Longrightarrow> slv k t = 0" and "slv k t \<le> 1"
    and "st k t = Some THREAD_DYING \<Longrightarrow> pending k t = []"
  using assms unfolding sleepers_def by (blast, blast, blast, blast, force, blast)

lemma sleepers_tame:
  assumes s: "sleepers k" and m: "tame k k'" and c: "pending k (cur k) \<noteq> [Sema_retry_f (Sleep_mutex (cur k))]"
    and run: "st k (cur k) = Some THREAD_RUNNING"
  shows "sleepers k'"
proof -
  note D = sleepersD [OF s]
  have e: "sleep_list k' = sleep_list k" "slv k' = slv k"
    and c': "pending k' (cur k) \<noteq> [Sema_retry_f (Sleep_mutex (cur k))]"
    and o: "\<And>t. t \<noteq> cur k \<Longrightarrow> pending k' t = pending k t" "\<And>t. t \<noteq> cur k \<Longrightarrow> wake_time k' t = wake_time k t"
    and g: "\<And>t. st k' t = Some THREAD_DYING \<Longrightarrow> st k t = Some THREAD_DYING \<or> pending k' t = []"
    using m by (auto simp: tame_def)
  have n: "t \<noteq> cur k" if "t \<in> set (sleep_list k)" for t using D(3) [of t] c that by auto
  have "sorted_wrt (\<lambda>a b. wake_time k' a \<le> wake_time k' b) (sleep_list k)"
    by (rule sorted_wrt_mono_rel [OF _ D(2)]) (simp add: o n)
  moreover have "t \<in> set (sleep_list k) \<longleftrightarrow> pending k' t = [Sema_retry_f (Sleep_mutex t)] \<and> slv k t = 0" for t
    by (cases "t = cur k") (use D(3) [of t] c c' o(1) in auto)
  moreover have "pending k' t = [Sema_retry_f (Sleep_mutex t)] \<and> slv k t \<le> 1 \<or> slv k t = 0" for t
    using D(4) [of t] D(5) [of t] c o(1) [of t] by metis
  moreover have "pending k' t = []" if "st k' t = Some THREAD_DYING" for t
  proof (cases "t = cur k")
    case True
    then show ?thesis using g [OF that] run by auto
  next
    case False
    then show ?thesis using g [OF that] D(6) o(1) by auto
  qed
  ultimately show ?thesis using D(1) e by (simp add: sleepers_def)
qed

lemma insert_sorted:
  fixes f :: "'a \<Rightarrow> int"
  shows "sorted_wrt (\<lambda>a b. f a \<le> f b) xs \<Longrightarrow> sorted_wrt (\<lambda>a b. f a \<le> f b) (insert_seq (\<lambda>a b. f a < f b) x xs)"
  by (induction xs) auto

lemma sleepers_call:
  assumes i: "kinv k" and s: "sleepers k" and p: "pending k (cur k) = []" and d: "timer_sleep n k = Some k'"
  shows "sleepers k'"
proof (cases "n \<le> 0")
  case True
  then show ?thesis using d s by (simp add: timer_sleep_def)
next
  case False
  let ?u = "upd (cur k) (\<lambda>th. th\<lparr>tick_to_wake := int64_wrap (timer_ticks k + n)\<rparr>) k"
  let ?l = "?u\<lparr>sleep_list := insert_seq (compare_ticks ?u) (cur k) (sleep_list k)\<rparr>"
  note D = sleepersD [OF s] and run = kinvD(7) [OF i]
  have dn: "sema_down (Sleep_mutex (cur k)) ?l = Some k'" using d False run by (simp add: timer_sleep_def Let_def)
  have z: "slv k (cur k) = 0" using D(4) [of "cur k"] p by simp
  have "pending k' = (pending k)(cur k := [Sema_retry_f (Sleep_mutex (cur k))]) \<and> slv k' = slv k"
    using dn by (cases rule: sema_down_pending) (use run z p in \<open>auto simp: slv_def fun_eq_iff\<close>)
  then have pend: "pending k' = (pending k)(cur k := [Sema_retry_f (Sleep_mutex (cur k))])" and l: "slv k' = slv k"
    by simp_all
  have w: "wake_time k' t = wake_time k t" if "t \<noteq> cur k" for t
    using sema_down_views(11) [OF dn] that by (simp add: wake_time_def)
  have sl: "sleep_list k' = insert_seq (\<lambda>a b. wake_time k' a < wake_time k' b) (cur k) (sleep_list k)"
    using sema_down_views(8,11) [OF dn] by (simp add: compare_ticks_def [abs_def])
  have n: "cur k \<notin> set (sleep_list k)" using D(3) [of "cur k"] p by simp
  then have "sorted_wrt (\<lambda>a b. wake_time k' a \<le> wake_time k' b) (sleep_list k')"
    unfolding sl by (intro insert_sorted sorted_wrt_mono_rel [OF _ D(2)]) (metis w)
  moreover have "distinct (sleep_list k')" using n D(1) by (simp add: sl)
  moreover have "t \<in> set (sleep_list k') \<longleftrightarrow> pending k' t = [Sema_retry_f (Sleep_mutex t)] \<and> slv k' t = 0" for t
    using D(3) [of t] z by (auto simp: sl pend l)
  moreover have "pending k' t = [Sema_retry_f (Sleep_mutex t)] \<and> slv k' t \<le> 1 \<or> slv k' t = 0" for t
    using D(4) [of t] D(5) [of t] z unfolding pend l by (metis fun_upd_apply)
  moreover have "pending k' t = []" if "st k' t = Some THREAD_DYING" for t
    using gone_down [OF dn that] D(6) [of t] run by (auto simp: pend)
  ultimately show ?thesis by (simp add: sleepers_def)
qed

lemma sleepers_retry:
  assumes i: "kinv k" and s: "sleepers k" and p: "pending k (cur k) = Sema_retry_f (Sleep_mutex t) # fs"
    and d: "sema_down (Sleep_mutex t) (popped k) = Some k'"
  shows "sleepers k'"
proof -
  note D = sleepersD [OF s] and run = kinvD(7) [OF i] and v = sema_down_views [OF d]
  have t: "t = cur k" and fs: "fs = []" using kinvD(8) [OF i, of "cur k"] p by auto
  have w: "wake_time k' = wake_time k" using v(11) by (simp add: popped_def)
  have pk: "pending k' u = pending k u" if "u \<noteq> cur k" for u
    using d by (cases rule: sema_down_pending) (use run that in auto)
  have c: "pending k' (cur k) = [] \<and> slv k (cur k) > 0 \<and> slv k' = (slv k)(cur k := slv k (cur k) - 1) \<or>
      pending k' (cur k) = pending k (cur k) \<and> slv k' = slv k"
    using d by (cases rule: sema_down_pending) (use run p fs t in \<open>auto simp: slv_def fun_eq_iff\<close>)
  have sl: "sleep_list k' = sleep_list k" using v(8) by (simp add: popped_def)
  have "u \<in> set (sleep_list k) \<longleftrightarrow> pending k' u = [Sema_retry_f (Sleep_mutex u)] \<and> slv k' u = 0" for u
    using D(3) [of u] pk [of u] c by (cases "u = cur k") auto
  moreover have "pending k' u = [Sema_retry_f (Sleep_mutex u)] \<and> slv k' u \<le> 1 \<or> slv k' u = 0" for u
    using D(4) [of u] D(5) [of u] pk [of u] c by (cases "u = cur k") (auto, metis+)
  moreover have "pending k' u = []" if "st k' u = Some THREAD_DYING" for u
    using gone_down [OF d that] D(6) [of u] pk [of u] run by (cases "u = cur k") auto
  ultimately show ?thesis using D(1,2) w sl by (simp add: sleepers_def)
qed

section \<open>The timer wakes the sleepers that are due\<close>

lemma wake_sleepers_effect:
  assumes "wake_sleepers ts k = Some k'" and "distinct ts"
  shows "sleep_list k' = dropWhile (\<lambda>t. wake_time k t \<le> ticks k) ts \<and>
    slv k' = (\<lambda>t. if t \<in> set (takeWhile (\<lambda>t. wake_time k t \<le> ticks k) ts) then size_wrap (slv k t + 1) else slv k t) \<and>
    pending k' = pending k \<and> wake_time k' = wake_time k \<and> ticks k' = ticks k \<and>
    (\<forall>t. st k' t = Some THREAD_DYING \<longrightarrow> st k t = Some THREAD_DYING)"
  using assms
proof (induction ts arbitrary: k)
  case Nil
  then show ?case by (auto simp: slv_def fun_eq_iff st_def pending_def wake_time_def)
next
  case (Cons t ts)
  show ?case
  proof (cases "ticks k < wake_time k t")
    case True
    then show ?thesis using Cons.prems
      by (auto simp: ASSERT_def timer_ticks_def slv_def fun_eq_iff st_def pending_def wake_time_def split: if_splits)
  next
    case False
    then obtain k1 where u: "sema_up (Sleep_mutex t) (k\<lparr>sleep_list := ts\<rparr>) = Some k1"
      and w: "wake_sleepers ts k1 = Some k'"
      using Cons.prems(1) by (auto simp: ASSERT_def timer_ticks_def split: if_splits Option.bind_splits)
    note v = sema_up_views [OF u] and g = gone_up [OF u]
    have "slv k1 = (slv k)(t := size_wrap (slv k t + 1))" using v(6) by (auto simp: slv_def fun_eq_iff raised_def)
    moreover have "set (takeWhile P ts) \<subseteq> set ts" for P by (auto dest: set_takeWhileD)
    moreover have "st k u = Some THREAD_DYING" if "st k1 u = Some THREAD_DYING" for u using g [OF that] by simp
    ultimately show ?thesis
      using Cons.IH [OF w] Cons.prems(2) v(1,11,13) False by (auto simp: fun_eq_iff dest: set_takeWhileD)
  qed
qed

lemma tame_create:
  assumes "thread_create page p k1 = Some k'" and f: "so_far k k1" and r: "st k1 (cur k1) = Some THREAD_RUNNING"
    and n: "\<And>t. page = Some t \<Longrightarrow> thr k1 t = None \<and> slv k1 t = 0"
  shows "tame k k'"
proof (cases page)
  case None
  then show ?thesis using assms(1) f by (auto simp: thread_create_def set_retval_def intro!: so_far_tame so_far_upd)
next
  case (Some t)
  then obtain k2 where i: "init_thread t p k1 = Some k2"
    and a: "lock_acquire tid_lock (push_cont (Tid_locked_f t) k2) = Some k'"
    using assms(1) by (auto simp: thread_create_def split: Option.bind_splits)
  note v = init_thread_eq [OF i] and nt = n [OF Some]
  have "slv k2 = slv k1" using v(6) nt by (auto simp: slv_def fun_eq_iff own_semas_def)
  moreover have "pending k2 = pending k1" "wake_time k2 = wake_time k1"
    using v(1) nt by (auto simp: pending_def wake_time_def new_thread_def fun_eq_iff)
  moreover have "st k2 u = (if u = t then Some THREAD_BLOCKED else st k1 u)" for u
    using v(1) by (auto simp: st_def new_thread_def)
  moreover have "t \<noteq> cur k1" using r nt by (auto simp: st_def)
  ultimately have "so_far k k2 \<and> st k2 (cur k2) = Some THREAD_RUNNING"
    using f r v by (auto simp: so_far_def tame_def)
  then have "so_far k (push_cont (Tid_locked_f t) k2)" by (intro so_far_push) auto
  then show ?thesis by (rule tame_acquire [OF a])
qed

lemma tame_call:
  assumes i: "kinv k" and s: "sleepers k" and en: "enabled e k" and d: "run_event e k = Some k'"
    and e: "e \<noteq> Tick" "e \<noteq> Resume" "\<And>n. e \<noteq> Call_sleep n"
  shows "tame k k'"
proof -
  have p: "pending k (cur k) = []" and c: "call_ok e k"
    using en e by (auto simp: enabled_def split: event.splits)
  have sf: "so_far k k" by (rule so_far_refl) (simp add: p)
  note run = kinvD(7) [OF i]
  note rules = so_far_push so_far_upd so_far_fields so_far_tame [OF so_far_push] so_far_tame [OF so_far_upd]
    so_far_tame [OF so_far_fields(5)]
  show ?thesis
  proof (cases e)
    case (Call_sema_init x v)
    then show ?thesis using d sf by (auto intro!: so_far_tame so_far_fields)
  next
    case (Call_sema_try_down x)
    then show ?thesis
      using d sf by (auto simp: sema_try_down_def ASSERT_def Let_def split: if_splits Option.bind_splits
          intro!: so_far_tame so_far_fields)
  next
    case (Call_lock_try_acquire l)
    then show ?thesis
      using d sf by (auto simp: lock_try_acquire_def lock_held_by_current_thread_def sema_try_down_def
          ASSERT_def Let_def split: if_splits Option.bind_splits intro!: so_far_tame so_far_fields)
  next
    case (Call_cond_wait v l)
    then show ?thesis
      using d sf run by (auto simp: cond_wait_def lock_held_by_current_thread_def ASSERT_def Let_def
          split: if_splits Option.bind_splits dest!: tame_release intro!: rules)
  next
    case (Call_create page q)
    show ?thesis
      by (rule tame_create [OF _ sf run, of page q])
        (use d c Call_create sleepersD(4) [OF s] in \<open>auto simp: pending_def\<close>)
  next
    case (Call_exec page)
    let ?u = "push_cont Exec_ret_f (upd (cur k) (\<lambda>th. th\<lparr>calling_exec := True\<rparr>) k)"
    have t: "thread_create page PRI_DEFAULT ?u = Some k'" using d Call_exec run by (simp add: process_execute_def)
    have "so_far k ?u" using sf run by (intro rules) simp_all
    then show ?thesis
      by (rule tame_create [OF t])
        (use run c Call_exec sleepersD(4) [OF s] in \<open>auto simp: pending_def push_cont_def\<close>)
  next
    case (Call_set_priority x)
    then show ?thesis
      using d sf run by (auto simp: thread_set_priority_def Let_def dest!: tame_check intro!: rules)
  next
    case (Call_loaded b)
    then show ?thesis
      using d sf run by (auto simp: start_process_def split: if_splits dest!: tame_up intro!: rules)
  next
    case (Call_wait tid)
    then show ?thesis
      using d sf run by (auto simp: process_wait_def set_retval_def split: option.splits Option.bind_splits if_splits
          dest!: tame_down intro!: rules)
  next
    case (Call_exit n)
    then show ?thesis
      using d sf run by (auto simp: thread_exit_def ASSERT_def split: if_splits intro!: rules)
  next
    case (Call_idle x)
    have "so_far k (push_cont Idle_loop_f (k\<lparr>idle_thread := Some (cur k)\<rparr>))" using sf run by (intro rules) auto
    then show ?thesis using d Call_idle run by (auto simp: idle_def dest!: tame_up)
  qed (use e d sf in \<open>auto dest!: tame_up tame_down tame_acquire tame_release tame_signal tame_yield
      tame_broadcast intro: run\<close>)
qed

lemma timer_cases:
  assumes "intr_handler timer_interrupt k = Some k'"
  obtains k1 k2 where "thread_tick (k\<lparr>in_external_intr := True, yield_on_return := False, ticks := int64_wrap (ticks k + 1)\<rparr>) = Some k1"
    and "wake_sleepers (sleep_list k) k1 = Some k2"
    and "k' = k2\<lparr>in_external_intr := False\<rparr> \<or> thread_yield (k2\<lparr>in_external_intr := False\<rparr>) = Some k'"
  using assms thread_tick_fields(8)
  by (force simp: intr_handler_def timer_interrupt_def Let_def ASSERT_def split: if_splits Option.bind_splits)

lemma timer_effect:
  assumes d: "intr_handler timer_interrupt k = Some k'" and "distinct (sleep_list k)"
  shows "ticks k' = int64_wrap (ticks k + 1)"
    and "sleep_list k' = dropWhile (\<lambda>t. wake_time k t \<le> ticks k') (sleep_list k)"
    and "slv k' t = (if t \<in> set (takeWhile (\<lambda>t. wake_time k t \<le> ticks k') (sleep_list k)) then size_wrap (slv k t + 1) else slv k t)"
    and "pending k' = pending k" and "wake_time k' = wake_time k"
    and "st k' t = Some THREAD_DYING \<Longrightarrow> st k t = Some THREAD_DYING"
proof -
  obtain k1 k2 where t: "thread_tick (k\<lparr>in_external_intr := True, yield_on_return := False, ticks := int64_wrap (ticks k + 1)\<rparr>) = Some k1"
    and w: "wake_sleepers (sleep_list k) k1 = Some k2"
    and y: "k' = k2\<lparr>in_external_intr := False\<rparr> \<or> thread_yield (k2\<lparr>in_external_intr := False\<rparr>) = Some k'"
    by (rule timer_cases [OF d])
  note e = wake_sleepers_effect [OF w assms(2)] and f = thread_tick_fields [OF t]
  have k1: "slv k1 = slv k" "pending k1 = pending k" "wake_time k1 = wake_time k" "st k1 = st k"
    using f by (auto simp: slv_def pending_def wake_time_def st_def fun_eq_iff)
  have k2: "slv (k2\<lparr>in_external_intr := False\<rparr>) = slv k2" "pending (k2\<lparr>in_external_intr := False\<rparr>) = pending k2"
    "wake_time (k2\<lparr>in_external_intr := False\<rparr>) = wake_time k2" "st (k2\<lparr>in_external_intr := False\<rparr>) = st k2"
    by (auto simp: slv_def pending_def wake_time_def st_def fun_eq_iff)
  have y2: "slv k' = slv k2 \<and> pending k' = pending k2 \<and> wake_time k' = wake_time k2 \<and> ticks k' = ticks k2 \<and>
      sleep_list k' = sleep_list k2 \<and> (\<forall>t. st k' t = Some THREAD_DYING \<longrightarrow> st k2 t = Some THREAD_DYING)"
    using y
  proof
    assume "thread_yield (k2\<lparr>in_external_intr := False\<rparr>) = Some k'"
    note r = thread_yield_rest [OF this] and g = gone_routines(2) [OF this]
    show ?thesis using rest_eqD [OF r] rest_eq_views [OF r] g k2 by (auto simp: slv_def fun_eq_iff)
  qed (use k2 in auto)
  show tk: "ticks k' = int64_wrap (ticks k + 1)" using y2 e f(9) by simp
  then have tk1: "ticks k1 = ticks k'" using f(9) by simp
  show "sleep_list k' = dropWhile (\<lambda>t. wake_time k t \<le> ticks k') (sleep_list k)"
    "slv k' t = (if t \<in> set (takeWhile (\<lambda>t. wake_time k t \<le> ticks k') (sleep_list k)) then size_wrap (slv k t + 1) else slv k t)"
    "pending k' = pending k" "wake_time k' = wake_time k"
    using y2 e k1 tk1 by simp_all
  show "st k' t = Some THREAD_DYING \<Longrightarrow> st k t = Some THREAD_DYING" using y2 e k1 by simp
qed

lemma due_split:
  fixes f :: "'a \<Rightarrow> int"
  assumes "sorted_wrt (\<lambda>a b. f a \<le> f b) xs"
  shows "dropWhile (\<lambda>t. f t \<le> n) xs = filter (\<lambda>t. n < f t) xs" and "takeWhile (\<lambda>t. f t \<le> n) xs = filter (\<lambda>t. f t \<le> n) xs"
proof -
  have "n < f y" if "x \<in> set ys" "y \<in> set ys" "n < f (hd ys)" "sorted_wrt (\<lambda>a b. f a \<le> f b) ys" for x y ys
    using that by (cases ys) auto
  then show "dropWhile (\<lambda>t. f t \<le> n) xs = filter (\<lambda>t. n < f t) xs" "takeWhile (\<lambda>t. f t \<le> n) xs = filter (\<lambda>t. f t \<le> n) xs"
    using assms by (induction xs) (fastforce intro: filter_True [symmetric] filter_False [symmetric])+
qed

lemma sleepers_timer:
  assumes s: "sleepers k" and d: "intr_handler timer_interrupt k = Some k'"
  shows "sleepers k'"
proof -
  note D = sleepersD [OF s] and e = timer_effect [OF d D(1)] and ds = due_split [OF D(2), of "ticks k'"]
  have z: "size_wrap (slv k t + 1) = 1" if "t \<in> set (sleep_list k)" for t
    using D(3) [of t] that by (simp add: size_wrap_def)
  have l: "slv k' t = (if t \<in> set (sleep_list k) \<and> wake_time k t \<le> ticks k' then 1 else slv k t)" for t
    using e(3) [of t] z [of t] by (simp add: ds)
  have "sorted_wrt (\<lambda>a b. wake_time k' a \<le> wake_time k' b) (sleep_list k')"
    using D(2) by (simp add: e ds sorted_wrt_filter)
  moreover have "t \<in> set (sleep_list k') \<longleftrightarrow> pending k' t = [Sema_retry_f (Sleep_mutex t)] \<and> slv k' t = 0" for t
    using D(3) [of t] l [of t] by (auto simp: e(2,4) ds)
  moreover have "pending k' t = [Sema_retry_f (Sleep_mutex t)] \<and> slv k' t \<le> 1 \<or> slv k' t = 0" for t
    using D(3) [of t] D(4) [of t] D(5) [of t] l [of t] e(4) by (auto split: if_splits)
  moreover have "pending k' t = []" if "st k' t = Some THREAD_DYING" for t
    using e(6) [OF that] D(6) e(4) by simp
  ultimately show ?thesis using D(1) by (simp add: sleepers_def e(2) ds)
qed

lemma sleepers_event:
  assumes i: "kinv k" and s: "sleepers k" and en: "enabled e k" and d: "run_event e k = Some k'"
  shows "sleepers k'"
proof (cases "e = Tick \<or> (\<exists>n. e = Call_sleep n)")
  case True
  then show ?thesis using sleepers_timer [OF s] sleepers_call [OF i s] d en by (auto simp: enabled_def)
next
  case nt: False
  note run = kinvD(7) [OF i]
  show ?thesis
  proof (cases "e = Resume")
    case False
    have "pending k (cur k) = []" using en nt False by (auto simp: enabled_def split: event.splits)
    then show ?thesis using sleepers_tame [OF s tame_call [OF i s en d]] nt False run by auto
  next
    case True
    then obtain f fs where p: "pending k (cur k) = f # fs" using en by (cases "pending k (cur k)") (auto simp: enabled_def)
    have d: "resume k = Some k'" using d True by simp
    show ?thesis
    proof (cases "\<exists>t. f = Sema_retry_f (Sleep_mutex t)")
      case True
      then show ?thesis using sleepers_retry [OF i s] p resume_run [OF d p] by auto
    next
      case False
      then show ?thesis using sleepers_tame [OF s tame_resume [OF i d p]] p run by auto
    qed
  qed
qed

lemma reachable_sleepers: "reachable main k \<Longrightarrow> sleepers k"
proof (induction rule: reachable.induct)
  case boot
  show ?case by (auto simp: sleepers_def boot_def slv_def pending_def st_def new_thread_def)
next
  case (step k e k')
  then show ?case using sleepers_event reachable_kinv by blast
qed

end
