(* ===== verification/Korder.thy ===== *)
theory Korder
  imports Klist_Sort Kmove
begin

text \<open>
  The order in which threads are served. The comparison callbacks of the kernel meet the contract
  \<open>strict_weak_order\<close>, so the facts about ordered insertion and sorting apply to its queues:
  a semaphore wakes the first of the waiters of the highest priority. Then priority donation: its loop
  ends, raises the holders on its way and nothing else, and releasing a lock takes the donation back.
\<close>

section \<open>The callbacks\<close>

interpretation prio_order: strict_weak_order "compare_priorities k" for k
  by unfold_locales (auto simp: compare_priorities_def)

interpretation ticks_order: strict_weak_order "compare_ticks k" for k
  by unfold_locales (auto simp: compare_ticks_def)

interpretation lock_order: strict_weak_order "compare_priorities_lock k" for k
  by unfold_locales (auto simp: compare_priorities_lock_def)

interpretation cond_order: strict_weak_order "compare_priorities_sema k" for k
  by unfold_locales (auto simp: compare_priorities_sema_def)

section \<open>Sorting by insertion is what the stable sort gives\<close>

context strict_weak_order
begin

lemma fold_insert_nondecreasing:
  "nondecreasing lessf ys \<Longrightarrow> nondecreasing lessf (fold (insert_seq lessf) xs ys)"
  by (induction xs arbitrary: ys) (simp_all add: insert_nondecreasing)

lemma fold_insert_stable:
  "nondecreasing lessf ys \<Longrightarrow>
   filter (equiv_under lessf k) (fold (insert_seq lessf) xs ys) = filter (equiv_under lessf k) (ys @ xs)"
proof (induction xs arbitrary: ys)
  case (Cons x xs)
  then show ?case
    using Cons.IH [OF insert_nondecreasing [OF Cons.prems]] insert_stable [OF Cons.prems, of k x] by simp
qed simp

lemma sort_seq_nondecreasing: "nondecreasing lessf (sort_seq lessf xs)"
  unfolding sort_seq_def by (rule fold_insert_nondecreasing) simp

lemma sort_seq_stable: "filter (equiv_under lessf k) (sort_seq lessf xs) = filter (equiv_under lessf k) xs"
  unfolding sort_seq_def using fold_insert_stable [of "[]"] by simp

lemma equiv_refl [simp]: "equiv_under lessf a a"
  by (simp add: equiv_under_def)

lemma head_equiv:
  assumes "nondecreasing lessf (y # ys)" and "nondecreasing lessf (z # zs)"
    and "y \<in> set (z # zs)" and "z \<in> set (y # ys)"
  shows "equiv_under lessf y z"
  using assms by (auto simp: equiv_under_def)

text \<open>A sequence in order is determined by its classes of equal elements.\<close>

lemma stable_unique:
  assumes "nondecreasing lessf ys" and "nondecreasing lessf zs"
    and "\<And>k. filter (equiv_under lessf k) ys = filter (equiv_under lessf k) zs"
  shows "ys = zs"
  using assms
proof (induction ys arbitrary: zs)
  case Nil
  then show ?case by (cases zs) (auto dest: meta_spec [of _ "hd zs"])
next
  case (Cons y ys)
  have mem: "x \<in> set (y # ys) \<longleftrightarrow> x \<in> set zs" for x
    using arg_cong [OF Cons.prems(3) [of x], of "\<lambda>l. x \<in> set l"] by (auto split: if_splits)
  then obtain z zs' where z: "zs = z # zs'" by (cases zs) auto
  have e: "equiv_under lessf y z"
    using Cons.prems(1,2) mem unfolding z by (intro head_equiv) auto
  then have yz: "y = z" using Cons.prems(3) [of y] unfolding z by simp
  have "filter (equiv_under lessf k) ys = filter (equiv_under lessf k) zs'" for k
    using Cons.prems(3) [of k] yz unfolding z by (simp split: if_splits)
  then have "ys = zs'" using Cons.IH [of zs'] Cons.prems(1,2) unfolding z by simp
  then show ?case using yz z by simp
qed

lemma sort_seq_unique:
  assumes "nondecreasing lessf ys" and "\<And>k. filter (equiv_under lessf k) ys = filter (equiv_under lessf k) xs"
  shows "ys = sort_seq lessf xs"
  by (rule stable_unique) (simp_all add: assms sort_seq_nondecreasing sort_seq_stable)

lemma sort_seq_hd:
  assumes "sort_seq lessf xs = t # ts"
  shows "t \<in> set xs" and "u \<in> set xs \<Longrightarrow> \<not> lessf u t" and "t = hd (filter (equiv_under lessf t) xs)"
proof -
  have n: "nondecreasing lessf (t # ts)" using sort_seq_nondecreasing [of xs] assms by simp
  have s: "set xs = insert t (set ts)" using mset_sort_seq [of lessf xs] assms by (metis list.simps(15) set_mset_mset)
  show "t \<in> set xs" using s by simp
  show "u \<in> set xs \<Longrightarrow> \<not> lessf u t" using n s by auto
  show "t = hd (filter (equiv_under lessf t) xs)" using sort_seq_stable [of t xs] assms by (metis equiv_refl filter.simps(2) list.sel(1))
qed

end

section \<open>Whom a semaphore wakes\<close>

text \<open>The waiter of the highest priority that has waited longest.\<close>

lemma sema_wake_first:
  assumes "sema_wake s k = Some k'" and "waiters (semas k s) \<noteq> []"
  obtains t ts where "sort_seq (compare_priorities k) (waiters (semas k s)) = t # ts"
    and "thread_unblock t (set_sema s ((semas k s)\<lparr>waiters := ts\<rparr>) k) = Some k'"
proof (cases "sort_seq (compare_priorities k) (waiters (semas k s))")
  case Nil
  then show thesis using assms(2) mset_sort_seq [of "compare_priorities k" "waiters (semas k s)"] by simp
qed (use assms that in \<open>auto simp: sema_wake_def\<close>)

section \<open>Priority donation\<close>

text \<open>Who holds a lock is a thread that has not ended.\<close>

definition holders_alive :: "kernel \<Rightarrow> bool" where
  "holders_alive k \<longleftrightarrow> (\<forall>l h. holder (locks k l) = Some h \<longrightarrow> thr k h \<noteq> None)"

definition below :: "int \<Rightarrow> kernel \<Rightarrow> ptr set" where
  "below p k = {t. thr k t \<noteq> None \<and> prio k t < p}"

text \<open>One round of the loop.\<close>

definition donation :: "nat \<Rightarrow> ptr \<Rightarrow> int \<Rightarrow> kernel \<Rightarrow> kernel" where
  "donation l h p k =
     (let k = upd h (\<lambda>th. th\<lparr>priority := p\<rparr>) k
      in if p > max_priority (locks k l) then set_lock l (\<lambda>lk. lk\<lparr>max_priority := p\<rparr>) k else k)"

lemma donation_views:
  shows "cur (donation l h p k) = cur k" and "st (donation l h p k) = st k"
    and "holder (locks (donation l h p k) m) = holder (locks k m)"
    and "thr (donation l h p k) t = None \<longleftrightarrow> thr k t = None" and "semas (donation l h p k) = semas k"
    and "thr k h \<noteq> None \<Longrightarrow> prio (donation l h p k) t = (if t = h then p else prio k t)"
  by (auto simp: donation_def Let_def prio_def split: option.splits)

lemma donate_round:
  assumes "st k (cur k) = Some THREAD_RUNNING" and "thr k h = Some th"
  shows "donate l (Some h) k =
    (if prio k (cur k) > priority th
     then (case lock_waiting th of
             [] \<Rightarrow> Some (donation l h (prio k (cur k)) k)
           | l' # _ \<Rightarrow> donate l' (holder (locks k l')) (donation l h (prio k (cur k)) k))
     else Some k)"
  using assms
  by (subst donate.simps) (simp add: donation_def Let_def donation_views split: list.split)

lemma donate_None: "donate l None k = Some k"
  by (subst donate.simps) simp

lemma below_donation:
  assumes "thr k h = Some th" and "priority th < p"
  shows "below p (donation l h p k) = below p k - {h}" and "h \<in> below p k"
  using assms donation_views(4) [of l h p k] donation_views(6) [of k h l p] by (auto simp: below_def prio_def split: if_splits)

lemma donate_total:
  assumes "finite (below (prio k (cur k)) k)" and "holders_alive k" and "st k (cur k) = Some THREAD_RUNNING"
    and "\<And>h. t = Some h \<Longrightarrow> thr k h \<noteq> None"
  shows "\<exists>k'. donate l t k = Some k' \<and> (\<forall>u. prio k u \<le> prio k' u) \<and>
    (\<forall>u. prio k' u = prio k u \<or> prio k' u = prio k (cur k)) \<and>
    (\<forall>h. t = Some h \<longrightarrow> prio k (cur k) \<le> prio k' h)"
  using assms
proof (induction "card (below (prio k (cur k)) k)" arbitrary: k l t rule: less_induct)
  case less
  show ?case
  proof (cases t)
    case None
    then show ?thesis by (simp add: donate_None)
  next
    case (Some h)
    then obtain th where h: "thr k h = Some th" using less.prems(4) by blast
    note round = donate_round [OF less.prems(3) h, of l]
    show ?thesis
    proof (cases "prio k (cur k) > priority th")
      case False
      then show ?thesis using round Some h by (auto simp: prio_def)
    next
      case True
      let ?p = "prio k (cur k)" and ?j = "donation l h (prio k (cur k)) k"
      note v = donation_views [where l = l and h = h and p = ?p and k = k]
      have ph: "prio k h = priority th" using h by (simp add: prio_def)
      then have ne: "h \<noteq> cur k" using True by auto
      have pj: "prio ?j u = (if u = h then ?p else prio k u)" for u using v(6) h by simp
      show ?thesis
      proof (cases "lock_waiting th")
        case Nil
        then show ?thesis using round True Some pj ph by auto
      next
        case (Cons l' ls)
        have c: "prio ?j (cur ?j) = ?p" using pj ne by (simp add: v)
        have "\<exists>k'. donate l' (holder (locks k l')) ?j = Some k' \<and> (\<forall>u. prio ?j u \<le> prio k' u) \<and>
            (\<forall>u. prio k' u = prio ?j u \<or> prio k' u = prio ?j (cur ?j)) \<and>
            (\<forall>h. holder (locks k l') = Some h \<longrightarrow> prio ?j (cur ?j) \<le> prio k' h)"
        proof (rule less.hyps)
          show "card (below (prio ?j (cur ?j)) ?j) < card (below ?p k)"
            using below_donation(1) [OF h True, of l] below_donation(2) [OF h True] less.prems(1) unfolding c by (metis card_Diff1_less)
          show "finite (below (prio ?j (cur ?j)) ?j)" using below_donation(1) [OF h True] less.prems(1) unfolding c by simp
        qed (use less.prems(2,3) v in \<open>auto simp: holders_alive_def\<close>)
        then obtain k' where k': "donate l' (holder (locks k l')) ?j = Some k'" "\<And>u. prio ?j u \<le> prio k' u"
          "\<And>u. prio k' u = prio ?j u \<or> prio k' u = ?p" unfolding c by blast
        have "donate l t k = Some k'" using round True Some Cons k'(1) by simp
        moreover have "prio k u \<le> prio k' u" for u using k'(2) [of u] pj [of u] True ph by (auto split: if_splits)
        moreover have "prio k' u = prio k u \<or> prio k' u = ?p" for u using k'(3) [of u] pj [of u] by (auto split: if_splits)
        moreover have "?p \<le> prio k' h" using k'(2) [of h] pj [of h] by simp
        ultimately show ?thesis using Some by auto
      qed
    qed
  qed
qed

section \<open>Releasing a lock\<close>

lemma Max_insert_image:
  assumes "finite A" and "x \<in> A" and "\<And>y. y \<in> A \<Longrightarrow> f y \<le> f x"
  shows "Max (insert (a :: int) (f ` A)) = max a (f x)"
proof (rule Max_eqI)
  show "y \<le> max a (f x)" if "y \<in> insert a (f ` A)" for y using that assms(3) by (fastforce simp: le_max_iff_disj)
qed (use assms in \<open>auto simp: max_def\<close>)

lemma release_priority:
  assumes d: "lock_release l k = Some k'" and th: "thr k (cur k) = Some th" and dist: "distinct (lock_holding th)"
  shows "prio k' (cur k) = Max (insert (old_priority th) ((\<lambda>m. max_priority (locks k m)) ` (set (lock_holding th) - {l})))"
proof -
  let ?rest = "remove1 l (lock_holding th)"
  let ?p = "case waiters (semas k (Lock_sema l)) of _ # second # _ \<Rightarrow> prio k second | _ \<Rightarrow> 0"
  let ?k = "set_lock l (\<lambda>lk. lk\<lparr>hold_next := next_held (cur k) (lock_holding th) l\<rparr>)
    (set_lock l (\<lambda>lk. lk\<lparr>max_priority := ?p\<rparr>) k)"
  let ?q = "case ?rest of [] \<Rightarrow> old_priority th
    | m # ms \<Rightarrow> (let mp = max_priority (locks ?k (max_seq (compare_priorities_lock ?k) m ms))
                 in if mp > old_priority th then mp else old_priority th)"
  have u: "sema_up (Lock_sema l) (set_lock l (\<lambda>lk. lk\<lparr>holder := None\<rparr>)
      (upd (cur k) (\<lambda>th. th\<lparr>lock_holding := ?rest, priority := ?q\<rparr>) ?k)) = Some k'"
    using d th unfolding lock_release_def lock_held_by_current_thread_def Let_def
    by (auto simp: ASSERT_def split: if_splits Option.bind_splits)
  have p: "prio k' (cur k) = ?q" using sema_up_views(14) [OF u] th by (simp add: prio_def)
  have mp: "max_priority (locks ?k m) = max_priority (locks k m)" if "m \<in> set ?rest" for m
    using that dist by auto
  have set: "set ?rest = set (lock_holding th) - {l}" using dist by (simp add: set_remove1_eq)
  show ?thesis
  proof (cases ?rest)
    case Nil
    then have e: "set (lock_holding th) - {l} = {}" using set by (metis set_empty)
    show ?thesis unfolding e using p Nil by simp
  next
    case (Cons m ms)
    let ?x = "max_seq (compare_priorities_lock ?k) m ms"
    have mem: "?x \<in> set ?rest" using max_seq_in [of "compare_priorities_lock ?k" m ms] Cons by simp
    have top: "max_priority (locks k y) \<le> max_priority (locks k ?x)" if "y \<in> set ?rest" for y
      using lock_order.max_seq_max [of y m ms ?k] that mp [OF mem] mp [OF that] Cons
      by (auto simp: compare_priorities_lock_def)
    have "Max (insert (old_priority th) ((\<lambda>m. max_priority (locks k m)) ` set ?rest)) =
        max (old_priority th) (max_priority (locks k ?x))"
      by (rule Max_insert_image [OF _ mem]) (use top in simp_all)
    moreover have "?q = max (old_priority th) (max_priority (locks k ?x))"
      unfolding Cons list.case Let_def mp [OF mem] by (simp only: max_def split: if_split) auto
    ultimately show ?thesis unfolding set [symmetric] p by simp
  qed
qed

end
