(* ===== verification/Kthread_Spec.thy ===== *)
theory Kthread_Spec
  imports Ksleep_Inv Korder
begin

text \<open>
  Consequences of the invariants that span the kernel: a lock changes hands only when its holder
  gives it up, and raising a semaphore, yielding and the timer interrupt cannot stop the kernel.
\<close>

section \<open>Who holds a lock\<close>

lemma holdersI: "locks k' = locks k \<Longrightarrow> holders k' = holders k"
  by (simp add: holders_def fun_eq_iff)

lemma holders_rest: "rest k' = rest k \<Longrightarrow> holders k' = holders k"
  by (rule holdersI [OF rest_eqD(2)])

lemmas holders_routines =
  holdersI [OF sema_up_views(7)] holdersI [OF sema_down_views(5)]
  holders_rest [OF check_preemption_rest] holders_rest [OF thread_yield_rest]
  holders_rest [OF thread_block_rest] holders_rest [OF thread_unblock_rest]
  holdersI [OF init_thread_eq(7)]

lemma holders_acquire:
  assumes "lock_acquire l k = Some k'"
  shows "holders k' = holders k"
proof -
  obtain k2 where k2: "k2 = k \<or> donate l (holder (locks k l))
      (upd (cur k) (\<lambda>th. th\<lparr>lock_waiting := lock_waiting th @ [l]\<rparr>) k) = Some k2"
    and s: "sema_down (Lock_sema l) (push_cont (Acquire_tail_f l) k2) = Some k'"
    using assms by (auto simp: lock_acquire_def lock_held_by_current_thread_def ASSERT_def
        split: if_splits Option.bind_splits)
  have "holders k2 = holders k"
    using k2 donated_views(10) [OF donate_donated] by (fastforce simp: holders_def fun_eq_iff)
  then show ?thesis using holders_routines(2) [OF s] by simp
qed

lemma holders_release:
  assumes "lock_release l k = Some k'"
  shows "holders k' = (holders k)(l := None)" and "holders k l = Some (cur k)"
proof -
  obtain p n q and th :: thread where h: "holder (locks k l) = Some (cur k)"
    and u: "sema_up (Lock_sema l) (set_lock l (\<lambda>lk. lk\<lparr>holder := None\<rparr>)
      (upd (cur k) (\<lambda>th'. th'\<lparr>lock_holding := remove1 l (lock_holding th), priority := q\<rparr>)
        (set_lock l (\<lambda>lk. lk\<lparr>hold_next := n\<rparr>) (set_lock l (\<lambda>lk. lk\<lparr>max_priority := p\<rparr>) k)))) = Some k'"
    using lock_release_cases [OF assms] by metis
  show "holders k' = (holders k)(l := None)"
    using holders_routines(1) [OF u] by (auto simp: fun_eq_iff holders_def)
  show "holders k l = Some (cur k)" using h by (simp add: holders_def)
qed

lemma holders_signal: "cond_signal v l k = Some k' \<Longrightarrow> holders k' = holders k"
  by (erule cond_signal_cases) (auto dest: holders_routines(1))

lemma holders_broadcast: "cond_broadcast v l k = Some k' \<Longrightarrow> holders k' = holders k"
  by (auto simp: cond_broadcast_def split: if_splits dest: holders_signal)

lemma holders_wake_sleepers: "wake_sleepers ts k = Some k' \<Longrightarrow> holders k' = holders k"
  by (induction ts arbitrary: k)
    (auto simp: ASSERT_def split: if_splits Option.bind_splits dest!: holders_routines(1))

lemma holders_timer: "intr_handler timer_interrupt k = Some k' \<Longrightarrow> holders k' = holders k"
  by (auto simp: intr_handler_def timer_interrupt_def Let_def ASSERT_def split: if_splits Option.bind_splits
      dest!: holders_routines(4) holders_wake_sleepers thread_tick_fields(6)) (simp_all add: holders_def [abs_def])

lemma holders_create: "thread_create page p k = Some k' \<Longrightarrow> holders k' = holders k"
  by (auto simp: thread_create_def split: option.splits Option.bind_splits dest!: holders_acquire holders_routines(7))

text \<open>A lock changes hands only when its holder gives it up, and then it is free.\<close>

definition handed :: "kernel \<Rightarrow> kernel \<Rightarrow> bool" where
  "handed k k' \<longleftrightarrow> (\<forall>l t. holders k l = Some t \<longrightarrow> holders k' l = Some t \<or> t = cur k \<and> holders k' l = None)"

lemma handed_same: "holders k' = holders k \<Longrightarrow> handed k k'"
  by (simp add: handed_def)

lemma handed_release:
  "lock_release l k1 = Some k' \<Longrightarrow> holders k1 = holders k \<Longrightarrow> cur k1 = cur k \<Longrightarrow> handed k k'"
  using holders_release [of l k1 k'] by (auto simp: handed_def)

lemma handed_take:
  "holders k' = (holders k)(l := x) \<Longrightarrow> holders k l = None \<Longrightarrow> handed k k'"
  by (auto simp: handed_def)

lemma handed_resume:
  assumes i: "kinv k" and a: "acc k" and d: "resume k = Some k'" and e: "pending k (cur k) \<noteq> []"
  shows "handed k k'"
proof -
  obtain f fs where p: "pending k (cur k) = f # fs" using e by (cases "pending k (cur k)") auto
  note r = resume_run [OF d p] and run = kinvD(7) [OF i]
  show ?thesis
  proof (cases f)
    case (Acquire_tail_f l)
    then have "cur k \<in> taking (pending k) l" using p by (simp add: taking_def)
    then have "card (taking (pending k) l) > 0"
      using accountsD(2) [of "semas k" "pending k" "holders k"] a card_gt_0_iff by (auto simp: acc_def)
    then have "holders k l = None"
      using accountsD(3) [of "semas k" "pending k" "holders k" l] a by (auto simp: acc_def balance_def split: if_splits)
    then show ?thesis
      using r Acquire_tail_f run by (intro handed_take) (auto simp: acquire_tail_def Let_def holders_set_lock)
  next
    case (Tid_locked_f t)
    then show ?thesis using r by (auto simp: allocate_tid_def Let_def dest!: handed_release [of _ _ _ k])
  next
    case (Exit_locks_f x)
    then show ?thesis
      using r run by (auto simp: exit_locks_def ASSERT_def split: hnode.splits if_splits
          dest!: handed_release [of _ _ _ k] holders_routines(1) intro: handed_same)
  next
    case Exit_tail_f
    have ni: "idle_thread k \<noteq> Some (cur k)" using not_idle [OF i] p Exit_tail_f by auto
    have fs: "fs = []" using kinvD(8) [OF i, of "cur k"] p Exit_tail_f by simp
    have "at_rest (popped k)" by (rule at_rest_popped [OF i a p]) (simp add: Exit_tail_f)
    then show ?thesis
      using exit_tail_views(10) [of "popped k" k'] r p ni fs Exit_tail_f at_restD(2)
      by (intro handed_same) (simp add: holders_def [abs_def])
  qed (use r run in \<open>auto simp: create_tail_def create_loaded_def create_ret_def exec_ret_def exit_children_def
      exit_next_def wait_tail_def idle_loop_def Let_def ASSERT_def
      split: if_splits Option.bind_splits list.splits
      dest!: holders_routines holders_acquire holders_broadcast intro!: handed_same\<close>)
qed

lemma handed_event:
  assumes i: "kinv k" and a: "acc k" and en: "enabled e k" and d: "run_event e k = Some k'"
  shows "handed k k'"
proof (cases e)
  case (Call_lock_try_acquire l)
  let ?t = "set_sema (Lock_sema l) ((semas k (Lock_sema l))\<lparr>sema_value := sema_value (semas k (Lock_sema l)) - 1\<rparr>) k"
  have "k' = k \<or> sema_value (semas k (Lock_sema l)) > 0 \<and> k' = set_lock l (\<lambda>lk. lk\<lparr>holder := Some (cur k)\<rparr>) ?t"
    using d Call_lock_try_acquire by (auto simp: lock_try_acquire_def lock_held_by_current_thread_def
      sema_try_down_def ASSERT_def Let_def split: if_splits Option.bind_splits)
  moreover have "sema_value (semas k (Lock_sema l)) > 0 \<Longrightarrow> holders k l = None"
    using accountsD(3) [of "semas k" "pending k" "holders k" l] a by (auto simp: acc_def balance_def split: if_splits)
  ultimately show ?thesis by (auto intro: handed_same handed_take simp: holders_set_lock)
next
  case (Call_cond_wait v l)
  then show ?thesis
    using d by (auto simp: cond_wait_def lock_held_by_current_thread_def ASSERT_def Let_def
        split: if_splits Option.bind_splits dest!: handed_release [of _ _ _ k])
next
  case (Call_lock_release l)
  then show ?thesis using d handed_release by auto
next
  case Resume
  then show ?thesis using d en handed_resume [OF i a] by (simp add: enabled_def)
qed (use d in \<open>auto simp: sema_try_down_def timer_sleep_def process_execute_def process_wait_def thread_exit_def start_process_def
    thread_set_priority_def idle_def ASSERT_def Let_def
    split: if_splits Option.bind_splits option.splits
    dest!: holders_routines holders_timer holders_acquire holders_signal holders_broadcast holders_create
    intro!: handed_same\<close>)

section \<open>Routines that cannot stop the kernel\<close>

lemma schedule_total:
  assumes "fst (next_thread_to_run k) = Some n" and "is_thread n k" and "st k (cur k) = Some s"
    and "s \<noteq> THREAD_RUNNING" and "s \<noteq> THREAD_DYING"
  shows "\<exists>k'. schedule k = Some k'"
proof -
  obtain k1 where nx: "next_thread_to_run k = (Some n, k1)" using assms(1) by (metis prod.collapse)
  then have k1: "thr k1 = thr k" by (auto simp: next_thread_to_run_def split: list.splits)
  obtain th where th: "thr k (cur k) = Some th" "status th = s" using assms(3) by (auto simp: st_def)
  show ?thesis
    using nx k1 th assms(2,4,5)
    by (auto simp: schedule_def thread_schedule_tail_def running_thread_def is_thread_def Let_def)
qed

lemma thread_yield_total:
  assumes "placed k" and "\<not> in_external_intr k"
  shows "\<exists>k'. thread_yield k = Some k'"
proof -
  note run = placed_cur [OF assms(1)]
  have q: "queued k" using assms(1) by (simp add: placed_def)
  let ?r = "if Some (cur k) \<noteq> idle_thread k
    then k\<lparr>ready_list := insert_seq (compare_priorities k) (cur k) (ready_list k)\<rparr> else k"
  let ?k = "upd (cur k) (\<lambda>th. th\<lparr>status := THREAD_READY\<rparr>) ?r"
  have rd: "set (ready_list ?k) \<subseteq> insert (cur k) (set (ready_list k))" by auto
  obtain n where n: "fst (next_thread_to_run ?k) = Some n" "n = cur k \<or> n \<in> set (ready_list k)"
  proof (cases "ready_list ?k")
    case Nil
    then have "idle_thread k = Some (cur k)" by (auto split: if_splits)
    then show thesis using that [of "cur k"] Nil by (simp add: next_thread_to_run_def)
  next
    case (Cons n ns)
    then show thesis using that [of n] rd by (auto simp: next_thread_to_run_def)
  qed
  have "is_thread n ?k"
    using n(2) run queuedD(3) [OF q, of n] by (auto simp: is_thread_def st_def)
  moreover have "st ?k (cur ?k) = Some THREAD_READY" using run by (auto simp: st_def)
  ultimately have "\<exists>k'. schedule ?k = Some k'" using schedule_total [OF n(1)] by blast
  then show ?thesis using run assms(2) by (simp add: thread_yield_schedule)
qed

lemma check_preemption_total:
  assumes "placed k"
  shows "\<exists>k'. check_preemption k = Some k'"
proof (cases "ready_list k")
  case (Cons t ts)
  have q: "queued k" using assms by (simp add: placed_def)
  have "is_thread t k" using queuedD(3) [OF q, of t] Cons by (auto simp: is_thread_def st_def)
  then show ?thesis using Cons placed_cur [OF assms] thread_yield_total [OF assms] by (auto simp: check_preemption_eq)
qed (simp add: check_preemption_eq)

lemma sema_up_total:
  assumes p: "placed k" and "sema_in_memory s k"
  shows "\<exists>k'. sema_up s k = Some k'"
proof -
  have q: "queued k" using p by (simp add: placed_def)
  have "\<exists>k1. sema_wake s k = Some k1"
  proof (cases "sort_seq (compare_priorities k) (waiters (semas k s))")
    case (Cons t ts)
    then have "t \<in> set (waiters (semas k s))" by (rule prio_order.sort_seq_hd)
    then have "st k t = Some THREAD_BLOCKED" using queuedD(4) [OF q, of t s] by simp
    then show ?thesis using Cons by (simp add: sema_wake_def thread_unblock_eq)
  qed (simp add: sema_wake_def)
  then obtain k1 where w: "sema_wake s k = Some k1" by blast
  let ?k = "set_sema s ((semas k1 s)\<lparr>sema_value := size_wrap (sema_value (semas k1 s) + 1)\<rparr>) k1"
  have "placed k1" by (rule sema_wake_placed [OF w p])
  then have "placed ?k" by (rule placed_keep) auto
  then show ?thesis using check_preemption_total [of ?k] w assms(2) by (auto simp: sema_up_def Let_def)
qed

lemma wake_sleepers_total:
  assumes "placed k" and "\<And>t. t \<in> set ts \<Longrightarrow> thr k t \<noteq> None"
  shows "\<exists>k'. wake_sleepers ts k = Some k'"
  using assms
proof (induction ts arbitrary: k)
  case (Cons t ts)
  have t: "is_thread t k" using Cons.prems(2) by (simp add: is_thread_def)
  show ?case
  proof (cases "timer_ticks k < wake_time k t")
    case False
    let ?k = "k\<lparr>sleep_list := ts\<rparr>"
    have p: "placed ?k" using quiet_fields [OF Cons.prems(1), of ?k] by (simp add: quiet_def)
    have "is_thread t ?k" using t by (simp add: is_thread_def)
    then obtain k1 where u: "sema_up (Sleep_mutex t) ?k = Some k1" using sema_up_total [OF p, of "Sleep_mutex t"] by auto
    have "\<exists>k'. wake_sleepers ts k1 = Some k'"
      by (rule Cons.IH) (use sema_up_placed [OF u p] sema_up_views(4) [OF u] Cons.prems(2) in auto)
    then show ?thesis using False t u by auto
  qed (use t in simp)
qed simp

lemma thread_tick_total:
  assumes "st k (cur k) = Some THREAD_RUNNING" and "in_external_intr k"
  shows "\<exists>k'. thread_tick k = Some k'"
proof -
  obtain th where "thr k (cur k) = Some th" using assms(1) by (auto simp: st_def)
  then show ?thesis using assms by (simp add: thread_tick_def intr_yield_on_return_def Let_def)
qed

lemma timer_total:
  assumes i: "kinv k" and s: "sleepers k"
  shows "\<exists>k'. intr_handler timer_interrupt k = Some k'"
proof -
  let ?k = "k\<lparr>in_external_intr := True, yield_on_return := False, ticks := int64_wrap (ticks k + 1)\<rparr>"
  have q: "quiet k ?k" using quiet_fields [OF kinvD(1) [OF i], of ?k] by simp
  then have p: "placed ?k" by (simp add: quiet_def)
  obtain k1 where t: "thread_tick ?k = Some k1"
    using thread_tick_total [of ?k] placed_cur [OF p] by auto
  note f = thread_tick_fields [OF t]
  have p1: "placed k1" using quiet_fields [OF p, of k1] f by (simp add: quiet_def)
  have "thr k1 u \<noteq> None" if "u \<in> set (sleep_list k)" for u
    using sleepersD(3) [OF s, of u] that f(1) by (auto simp: pending_def split: option.splits)
  then obtain k2 where w: "wake_sleepers (sleep_list k1) k1 = Some k2" using wake_sleepers_total [OF p1] f(8) by auto
  have e: "in_external_intr k2" using wake_sleepers_quiet [OF w p1] f(7) by simp
  let ?e = "k2\<lparr>in_external_intr := False\<rparr>"
  have "placed k2" using wake_sleepers_quiet [OF w p1] by (simp add: quiet_def)
  then have "placed ?e" using quiet_fields [of k2 ?e] by (simp add: quiet_def)
  then obtain k3 where "thread_yield ?e = Some k3" using thread_yield_total [of ?e] by auto
  then show ?thesis
    using t w e kinvD(6) [OF i] by (auto simp: intr_handler_def timer_interrupt_def Let_def)
qed

end
