(* ===== verification/Kthread_Props.thy ===== *)
theory Kthread_Props
  imports Kthread_Spec Klist_Props
begin

text \<open>
  The properties of threads, semaphores, locks and sleeping, over every sequence of events from
  the boot of the kernel, and two concrete runs on which they are applied.
\<close>

section \<open>Two concrete runs\<close>

fun run_events :: "event list \<Rightarrow> kernel \<Rightarrow> kernel option" where
  "run_events [] k = Some k"
| "run_events (e # es) k = (if enabled e k then run_event e k \<bind> run_events es else None)"

lemma run_events_reachable: "run_events es k = Some k' \<Longrightarrow> reachable main k \<Longrightarrow> reachable main k'"
  by (induction es arbitrary: k) (auto split: if_splits Option.bind_splits intro: reachable.step)

lemma donate_Some:
  "donate l (Some h) k =
     do {
       c \<leftarrow> thread_current k;
       th \<leftarrow> thr k h;
       if prio k c > priority th
       then do {
         let p = prio k c;
         let k = upd h (\<lambda>th. th\<lparr>priority := p\<rparr>) k;
         let k = (if p > max_priority (locks k l)
                  then set_lock l (\<lambda>lk. lk\<lparr>max_priority := p\<rparr>) k else k);
         case lock_waiting th of
           [] \<Rightarrow> Some k
         | l' # _ \<Rightarrow> donate l' (holder (locks k l')) k
       }
       else Some k
     }"
  by (subst donate.simps) simp

text \<open>The definitions a run is evaluated with.\<close>

lemmas evaluate = enabled_def pending_def thread_create_def init_thread_def new_thread_def
  lock_acquire_def lock_held_by_current_thread_def sema_down_def sema_up_def sema_wake_def sort_seq_def
  upd_def push_cont_def set_sema_def set_lock_def sema_init_def tid_lock_def PRI_MIN_def PRI_MAX_def PRI_DEFAULT_def
  resume_def acquire_tail_def allocate_tid_def lock_release_def compare_priorities_def compare_priorities_lock_def
  prio_def check_preemption_def thread_unblock_def is_thread_def thread_yield_def schedule_def next_thread_to_run_def
  thread_schedule_tail_def create_tail_def create_ret_def set_retval_def running_thread_def st_def size_wrap_def
  donate_Some thread_block_def timer_sleep_def compare_ticks_def wake_time_def int64_wrap_def timer_ticks_def
  idle_def idle_loop_def Let_def

lemmas not_evaluated = upd_kernel_fields set_sema_fields set_lock_fields

text \<open>
  The first thread takes lock 5 and creates a thread of priority 40, which preempts it and asks
  for the lock: it donates its priority and waits.
\<close>

definition contended :: kernel where
  "contended = (boot 1)\<lparr>
     thr := [2 \<mapsto> (new_thread 40)\<lparr>t_tid := 2, lock_waiting := [5],
               cont := [Sema_retry_f (Lock_sema 5), Acquire_tail_f 5]\<rparr>,
             1 \<mapsto> (new_thread 31)\<lparr>t_tid := 1, status := THREAD_RUNNING, priority := 40,
               lock_holding := [5], retval := 2\<rparr>],
     all_list := [1, 2],
     semas := (semas (boot 1))(Lock_sema 5 := \<lparr>sema_value = 0, waiters = [2]\<rparr>),
     locks := (locks (boot 1))(5 := \<lparr>holder = Some 1, max_priority = 40, hold_next = Htail 1\<rparr>),
     next_tid := 3\<rparr>"

lemma contended_run:
  "run_events [Call_lock_acquire 5, Resume, Call_create (Some 2) 40, Resume, Resume, Resume,
     Call_lock_acquire 5, Resume] (boot 1) = Some contended"
  by (simp add: evaluate boot_def contended_def fun_eq_iff split: sid.splits del: not_evaluated)

lemma contended_reachable: "reachable 1 contended"
  by (rule run_events_reachable [OF contended_run reachable.boot]) simp

text \<open>The first thread creates the idle thread and sleeps for one tick.\<close>

definition asleep :: kernel where
  "asleep = (boot 1)\<lparr>
     thr := [1 \<mapsto> (new_thread 31)\<lparr>t_tid := 1, tick_to_wake := 1, retval := 2,
               cont := [Sema_retry_f (Sleep_mutex 1)]\<rparr>,
             2 \<mapsto> (new_thread 0)\<lparr>t_tid := 2, status := THREAD_RUNNING, cont := [Idle_loop_f]\<rparr>],
     cur := 2, idle_thread := Some 2, all_list := [1, 2],
     semas := (semas (boot 1))(Sleep_mutex 1 := \<lparr>sema_value = 0, waiters = [1]\<rparr>,
       User_sema 8 := \<lparr>sema_value = 1, waiters = []\<rparr>),
     next_tid := 3, sleep_list := [1]\<rparr>"

lemma asleep_run:
  "run_events [Call_create (Some 2) 0, Resume, Resume, Resume, Resume, Call_sleep 1, Call_idle 8, Resume]
     (boot 1) = Some asleep"
  by (simp add: evaluate boot_def asleep_def fun_eq_iff split: sid.splits del: not_evaluated)

lemma asleep_reachable: "reachable 1 asleep"
  by (rule run_events_reachable [OF asleep_run reachable.boot]) simp

section \<open>Threads and memory\<close>

text \<open>
  C1: Whatever sequence of events the kernel goes through, every thread is in its place: the running
  thread is the only one that runs, the ready list holds exactly the ready threads, each once,
  and the waiters of a semaphore are exactly the blocked threads inside \<^verbatim>\<open>sema_down\<close> on
  that semaphore, each once.
\<close>

theorem thread_placement:
  assumes "reachable main k"
  shows "(\<forall>t. st k t = Some THREAD_RUNNING \<longleftrightarrow> t = cur k) \<and>
    distinct (ready_list k) \<and>
    (\<forall>t. t \<in> set (ready_list k) \<longleftrightarrow> st k t = Some THREAD_READY \<and> idle_thread k \<noteq> Some t) \<and>
    (\<forall>s. distinct (waiters (semas k s))) \<and>
    (\<forall>s t. t \<in> set (waiters (semas k s)) \<longleftrightarrow>
       st k t = Some THREAD_BLOCKED \<and> (\<exists>r. pending k t = Sema_retry_f s # r))"
  using kinvD(1) [OF reachable_kinv [OF assms]]
  by (simp add: placed_def queued_def one_runs_def in_loop_def)

theorem thread_placement_witness:
  "reachable 1 contended \<and> waiters (semas contended (Lock_sema 5)) = [2] \<and>
   st contended 2 = Some THREAD_BLOCKED \<and> st contended 1 = Some THREAD_RUNNING"
proof -
  note p = thread_placement [OF contended_reachable]
  have w: "waiters (semas contended (Lock_sema 5)) = [2]" by (simp add: contended_def)
  then have "st contended 2 = Some THREAD_BLOCKED" using p by (metis list.set_intros(1))
  moreover have "st contended 1 = Some THREAD_RUNNING" using p by (simp add: contended_def boot_def)
  ultimately show ?thesis using w contended_reachable by simp
qed

lemma waiter_memory:
  assumes i: "kinv k" and t: "t \<in> set (waiters (semas k s))"
  shows "thr k t \<noteq> None" and "sema_in_memory s k"
proof -
  have q: "queued k" using kinvD(1) [OF i] by (simp add: placed_def)
  have b: "st k t = Some THREAD_BLOCKED" and l: "in_loop k t s" using queuedD(4) [OF q, of t s] t by auto
  show th: "thr k t \<noteq> None" using b by (auto simp: st_def)
  obtain r where r: "pending k t = Sema_retry_f s # r" using l by (auto simp: in_loop_def)
  have a: "after_down t s r" using kinvD(8) [OF i, of t] r by simp
  have sub: "thr k u \<noteq> None" if "u \<in> subjects (pending k t)" for u
    using familyD(1) [OF kinvD(3) [OF i], of u t] that by (simp add: refs_def)
  show "sema_in_memory s k" using a th sub r by (cases s) (auto simp: is_thread_def)
qed

text \<open>
  C2: No thread structure is used after its page was freed. The children of a thread, the threads
  that a pending call of \<^verbatim>\<open>thread_create\<close>, \<^verbatim>\<open>process_execute\<close> or \<^verbatim>\<open>process_wait\<close> will still
  access, the threads in the ready list, among the sleepers and among the waiters of a semaphore
  all exist, and so does the structure that contains a semaphore with waiters.
\<close>

theorem no_use_after_free:
  assumes "reachable main k"
  shows "(\<forall>p t. t \<in> set (kids k p) \<longrightarrow> thr k t \<noteq> None) \<and>
    (\<forall>p f t. f \<in> set (pending k p) \<and> subject f = Some t \<longrightarrow> thr k t \<noteq> None) \<and>
    (\<forall>t. t \<in> set (ready_list k) \<or> t \<in> set (sleep_list k) \<longrightarrow> thr k t \<noteq> None) \<and>
    (\<forall>s t. t \<in> set (waiters (semas k s)) \<longrightarrow> thr k t \<noteq> None \<and> sema_in_memory s k)"
proof (intro conjI allI impI)
  note i = reachable_kinv [OF assms] and s = reachable_sleepers [OF assms]
  have q: "queued k" using kinvD(1) [OF i] by (simp add: placed_def)
  show "thr k t \<noteq> None" if "t \<in> set (kids k p)" for p t
    using familyD(1) [OF kinvD(3) [OF i], of t p] that by (simp add: refs_def)
  show "thr k t \<noteq> None" if "f \<in> set (pending k p) \<and> subject f = Some t" for p f t
    using familyD(1) [OF kinvD(3) [OF i], of t p] that by (auto simp: refs_def subjects_def)
  show "thr k t \<noteq> None" if "t \<in> set (ready_list k) \<or> t \<in> set (sleep_list k)" for t
    using that queuedD(3) [OF q, of t] sleepersD(3) [OF s, of t]
    by (auto simp: st_def pending_def split: option.splits)
qed (use waiter_memory [OF reachable_kinv [OF assms]] in blast)+

theorem no_use_after_free_witness:
  "reachable 1 asleep \<and> sleep_list asleep = [1] \<and> thr asleep 1 \<noteq> None \<and> sema_in_memory (Sleep_mutex 1) asleep"
proof -
  note n = no_use_after_free [OF asleep_reachable]
  have l: "sleep_list asleep = [1]" "waiters (semas asleep (Sleep_mutex 1)) = [1]" by (simp_all add: asleep_def)
  then have "thr asleep 1 \<noteq> None" using n by (metis list.set_intros(1))
  moreover have "sema_in_memory (Sleep_mutex 1) asleep" using n l by (metis list.set_intros(1))
  ultimately show ?thesis using l asleep_reachable by simp
qed

section \<open>Semaphores\<close>

lemma status_cases:
  "x = None \<or> x = Some THREAD_RUNNING \<or> x = Some THREAD_READY \<or> x = Some THREAD_BLOCKED \<or> x = Some THREAD_DYING"
proof (cases x)
  case (Some s)
  then show ?thesis by (cases s) simp_all
qed simp

text \<open>
  C4: No wake-up is lost. When the machine is idle, no thread waits for a semaphore that is up: as
  long as the idle thread runs with an empty ready list, every semaphore with waiters has value 0.
\<close>

theorem no_lost_wakeup:
  assumes "reachable main k" and "idle_thread k = Some (cur k)" and "ready_list k = []"
    and "waiters (semas k s) \<noteq> []"
  shows "sema_value (semas k s) = 0"
proof -
  note i = reachable_kinv [OF assms(1)] and z = reachable_sleepers [OF assms(1)]
  have q: "queued k" and one: "one_runs k" using kinvD(1) [OF i] by (auto simp: placed_def)
  have idle: "pending k (cur k) = [Idle_loop_f]" using kinvD(4) [OF i] assms(2) by (simp add: idle_ok_def)
  have "looping (pending k) s \<subseteq> set (waiters (semas k s))"
  proof
    fix t assume "t \<in> looping (pending k) s"
    then obtain r where r: "pending k t = Sema_retry_f s # r" by (auto simp: looping_def)
    then have "t \<noteq> cur k" using idle by auto
    then have "st k t \<noteq> Some THREAD_RUNNING" "st k t \<noteq> Some THREAD_READY"
      using one queuedD(3) [OF q, of t] assms(2,3) by (auto simp: one_runs_def)
    moreover have "st k t \<noteq> Some THREAD_DYING" using sleepersD(6) [OF z, of t] r by auto
    moreover have "st k t \<noteq> None" using r by (auto simp: st_def pending_def split: option.splits)
    ultimately have "st k t = Some THREAD_BLOCKED" using status_cases [of "st k t"] by auto
    then show "t \<in> set (waiters (semas k s))" using queuedD(4) [OF q, of t s] r by (simp add: in_loop_def)
  qed
  then have "card (looping (pending k) s) \<le> length (waiters (semas k s))"
    by (metis List.finite_set card_length card_mono order_trans)
  then show ?thesis
    using accountsD(5) [of "semas k" "pending k" "holders k" s] reachable_acc [OF assms(1)] assms(4) by (simp add: acc_def)
qed

theorem no_lost_wakeup_witness:
  "reachable 1 asleep \<and> idle_thread asleep = Some (cur asleep) \<and> ready_list asleep = [] \<and>
   waiters (semas asleep (Sleep_mutex 1)) = [1] \<and> sema_value (semas asleep (Sleep_mutex 1)) = 0"
  using no_lost_wakeup [OF asleep_reachable, of "Sleep_mutex 1"] asleep_reachable
  by (simp add: asleep_def boot_def)





section \<open>Locks\<close>

text \<open>
  C3: A lock has one holder at a time. While a thread holds a lock its semaphore is down; no event
  makes another thread the holder, and only the running thread itself can give it up, after which the
  lock is free.
\<close>

theorem lock_mutual_exclusion:
  assumes "reachable main k" and "enabled e k" and "run_event e k = Some k'" and "holder (locks k l) = Some t"
  shows "sema_value (semas k (Lock_sema l)) = 0 \<and>
    (holder (locks k' l) = Some t \<or> t = cur k \<and> holder (locks k' l) = None)"
proof -
  note i = reachable_kinv [OF assms(1)] and a = reachable_acc [OF assms(1)]
  have "sema_value (semas k (Lock_sema l)) = 0"
    using accountsD(3) [of "semas k" "pending k" "holders k" l] a assms(4)
    by (simp add: acc_def balance_def holders_def)
  then show ?thesis using handed_event [OF i a assms(2,3)] assms(4) by (simp add: handed_def holders_def)
qed

lemma contended_release:
  "\<exists>k'. run_event (Call_lock_release 5) contended = Some k' \<and> holder (locks k' 5) = None \<and> prio k' 1 = 31 \<and> cur k' = 2"
  by (simp add: evaluate boot_def contended_def del: not_evaluated)

theorem lock_mutual_exclusion_witness:
  "\<exists>k'. reachable 1 contended \<and> enabled (Call_lock_release 5) contended \<and>
     run_event (Call_lock_release 5) contended = Some k' \<and> holder (locks contended 5) = Some 1 \<and>
     sema_value (semas contended (Lock_sema 5)) = 0 \<and> holder (locks k' 5) = None"
proof -
  obtain k' where r: "run_event (Call_lock_release 5) contended = Some k'" "holder (locks k' 5) = None"
    using contended_release by blast
  have e: "enabled (Call_lock_release 5) contended" and h: "holder (locks contended 5) = Some 1"
    by (simp_all add: enabled_def contended_def pending_def boot_def new_thread_def)
  show ?thesis using lock_mutual_exclusion [OF contended_reachable e r(1) h] r e h contended_reachable by auto
qed



text \<open>
  C9: \<^verbatim>\<open>lock_release\<close> takes the donation back: the thread's priority becomes the largest of
  its own priority and the priorities recorded in the locks it still holds. With no other lock held
  this is its own priority.
\<close>

theorem lock_release_priority:
  assumes "lock_release l k = Some k'" and "thr k (cur k) = Some th" and "distinct (lock_holding th)"
  shows "prio k' (cur k) =
    Max (insert (old_priority th) ((\<lambda>m. max_priority (locks k m)) ` (set (lock_holding th) - {l})))"
  by (rule release_priority [OF assms])

theorem lock_release_priority_witness:
  "\<exists>k'. lock_release 5 contended = Some k' \<and> prio contended 1 = 40 \<and> prio k' 1 = 31"
proof -
  obtain k' where r: "lock_release 5 contended = Some k'" using contended_release by auto
  obtain th where th: "thr contended 1 = Some th" "lock_holding th = [5]" "old_priority th = 31" "priority th = 40"
    by (simp add: contended_def new_thread_def)
  have c: "cur contended = 1" by (simp add: contended_def boot_def)
  show ?thesis using lock_release_priority [OF r, unfolded c, OF th(1)] r th by (simp add: prio_def)
qed

section \<open>Sleeping\<close>





end
