(* ===== verification/Khash.thy ===== *)
theory Khash
  imports Kstring
begin

text \<open>
  Hash tables with chaining: \<^verbatim>\<open>lib/kernel/hash.c\<close>. The chains are lists of
  \<^verbatim>\<open>lib/kernel/list.c\<close>, here the sequences of their elements; an element is its address. The
  hash function and the comparison are members of the table, as in the code. Whether
  \<^verbatim>\<open>malloc\<close> finds memory for the buckets is an argument.
\<close>

unbundle bit_operations_syntax

section \<open>Tables\<close>

record hash =
  hash_elem_cnt :: u32
  bucket_cnt :: u32
  buckets :: "ptr list list"
  hash_func :: "ptr \<Rightarrow> u32"
  hash_less :: "ptr \<Rightarrow> ptr \<Rightarrow> bool"

text \<open>Removes all elements; the elements the destructor is called on, in this order.\<close>

definition hash_clear :: "hash \<Rightarrow> bool \<Rightarrow> ptr list \<times> hash" where
  "hash_clear h destructor =
     (if destructor then concat (buckets h) else [],
      h\<lparr>buckets := replicate (unat (bucket_cnt h)) [], hash_elem_cnt := 0\<rparr>)"

definition hash_init :: "bool \<Rightarrow> (ptr \<Rightarrow> u32) \<Rightarrow> (ptr \<Rightarrow> ptr \<Rightarrow> bool) \<Rightarrow> bool \<times> hash" where
  "hash_init alloc hf lf =
     (let h = \<lparr>hash_elem_cnt = 0, bucket_cnt = 4, buckets = [], hash_func = hf, hash_less = lf\<rparr>
      in if alloc then (True, snd (hash_clear h False)) else (False, h))"

definition hash_destroy :: "hash \<Rightarrow> bool \<Rightarrow> ptr list" where
  "hash_destroy h destructor = (if destructor then fst (hash_clear h True) else [])"

section \<open>Search\<close>

text \<open>The index of the bucket an element belongs in.\<close>

definition find_bucket :: "hash \<Rightarrow> ptr \<Rightarrow> nat" where
  "find_bucket h e = unat (hash_func h e AND (bucket_cnt h - 1))"

fun find_elem :: "hash \<Rightarrow> ptr list \<Rightarrow> ptr \<Rightarrow> ptr option" where
  "find_elem h [] e = None"
| "find_elem h (hi # bucket) e =
     (if \<not> hash_less h hi e \<and> \<not> hash_less h e hi then Some hi else find_elem h bucket e)"

definition hash_find :: "hash \<Rightarrow> ptr \<Rightarrow> ptr option option" where
  "hash_find h e =
     do {
       bucket \<leftarrow> aget (buckets h) (find_bucket h e);
       Some (find_elem h bucket e)
     }"

section \<open>Insertion and deletion\<close>

definition insert_elem :: "hash \<Rightarrow> nat \<Rightarrow> ptr \<Rightarrow> hash option" where
  "insert_elem h i e =
     do {
       bucket \<leftarrow> aget (buckets h) i;
       Some (h\<lparr>hash_elem_cnt := hash_elem_cnt h + 1, buckets := (buckets h)[i := e # bucket]\<rparr>)
     }"

text \<open>The element is unlinked from the chain it is in.\<close>

definition remove_elem :: "hash \<Rightarrow> ptr \<Rightarrow> hash" where
  "remove_elem h e =
     h\<lparr>hash_elem_cnt := hash_elem_cnt h - 1, buckets := map (remove1 e) (buckets h)\<rparr>"

definition turn_off_least_1bit :: "u32 \<Rightarrow> u32" where
  "turn_off_least_1bit x = (x AND (x - 1))"

definition is_power_of_2 :: "u32 \<Rightarrow> bool" where
  "is_power_of_2 x \<longleftrightarrow> x \<noteq> 0 \<and> turn_off_least_1bit x = 0"

definition BEST_ELEMS_PER_BUCKET :: u32 where
  "BEST_ELEMS_PER_BUCKET = 2"

partial_function (option) rehash_count_loop :: "u32 \<Rightarrow> u32 option" where
  "rehash_count_loop n =
     (if \<not> is_power_of_2 n then rehash_count_loop (turn_off_least_1bit n) else Some n)"

definition rehash_count :: "hash \<Rightarrow> u32 option" where
  "rehash_count h =
     (let n = hash_elem_cnt h div BEST_ELEMS_PER_BUCKET
      in rehash_count_loop (if n < 4 then 4 else n))"

text \<open>Moves the elements of a chain, from its front, to the front of their new chains.\<close>

fun rehash_move :: "hash \<Rightarrow> ptr list \<Rightarrow> hash option" where
  "rehash_move h [] = Some h"
| "rehash_move h (elem # old) =
     do {
       let i = find_bucket h elem;
       bucket \<leftarrow> aget (buckets h) i;
       rehash_move (h\<lparr>buckets := (buckets h)[i := elem # bucket]\<rparr>) old
     }"

fun rehash_loop :: "hash \<Rightarrow> ptr list list \<Rightarrow> hash option" where
  "rehash_loop h [] = Some h"
| "rehash_loop h (old_bucket # old) = do { h \<leftarrow> rehash_move h old_bucket; rehash_loop h old }"

definition rehash :: "bool \<Rightarrow> hash \<Rightarrow> hash option" where
  "rehash alloc h =
     do {
       let old_buckets = buckets h;
       new_bucket_cnt \<leftarrow> rehash_count h;
       if new_bucket_cnt = bucket_cnt h then Some h
       else if \<not> alloc then Some h
       else rehash_loop (h\<lparr>buckets := replicate (unat new_bucket_cnt) [], bucket_cnt := new_bucket_cnt\<rparr>) old_buckets
     }"

definition hash_insert :: "bool \<Rightarrow> hash \<Rightarrow> ptr \<Rightarrow> (ptr option \<times> hash) option" where
  "hash_insert alloc h new =
     do {
       let i = find_bucket h new;
       bucket \<leftarrow> aget (buckets h) i;
       let old = find_elem h bucket new;
       h \<leftarrow> (if old = None then insert_elem h i new else Some h);
       h \<leftarrow> rehash alloc h;
       Some (old, h)
     }"

definition hash_replace :: "bool \<Rightarrow> hash \<Rightarrow> ptr \<Rightarrow> (ptr option \<times> hash) option" where
  "hash_replace alloc h new =
     do {
       let i = find_bucket h new;
       bucket \<leftarrow> aget (buckets h) i;
       let old = find_elem h bucket new;
       let h = (case old of Some e \<Rightarrow> remove_elem h e | None \<Rightarrow> h);
       h \<leftarrow> insert_elem h i new;
       h \<leftarrow> rehash alloc h;
       Some (old, h)
     }"

definition hash_delete :: "bool \<Rightarrow> hash \<Rightarrow> ptr \<Rightarrow> (ptr option \<times> hash) option" where
  "hash_delete alloc h e =
     do {
       bucket \<leftarrow> aget (buckets h) (find_bucket h e);
       case find_elem h bucket e of
         None \<Rightarrow> Some (None, h)
       | Some found \<Rightarrow> do { h \<leftarrow> rehash alloc (remove_elem h found); Some (Some found, h) }
     }"

section \<open>Iteration\<close>

text \<open>The elements an action is called on, in this order.\<close>

definition hash_apply :: "hash \<Rightarrow> ptr list" where
  "hash_apply h = concat (buckets h)"

text \<open>A place in a chain: the head before its first element, an element, the tail after the last; or the null pointer.\<close>

datatype hpos = At_head | At ptr | At_tail | At_null

record hash_iterator =
  it_bucket :: nat
  it_elem :: hpos

fun chain_begin :: "ptr list \<Rightarrow> hpos" where
  "chain_begin [] = At_tail"
| "chain_begin (x # xs) = At x"

fun chain_next :: "ptr list \<Rightarrow> ptr \<Rightarrow> hpos option" where
  "chain_next [] e = None"
| "chain_next (x # xs) e = (if x = e then Some (chain_begin xs) else chain_next xs e)"

definition hash_first :: hash_iterator where
  "hash_first = \<lparr>it_bucket = 0, it_elem = At_head\<rparr>"

function hash_next_loop :: "hash \<Rightarrow> hash_iterator \<Rightarrow> hash_iterator option" where
  "hash_next_loop h i =
     (if it_elem i = At_tail
      then (let i = i\<lparr>it_bucket := it_bucket i + 1\<rparr>
            in if it_bucket i \<ge> unat (bucket_cnt h) then Some (i\<lparr>it_elem := At_null\<rparr>)
               else do {
                 bucket \<leftarrow> aget (buckets h) (it_bucket i);
                 hash_next_loop h (i\<lparr>it_elem := chain_begin bucket\<rparr>)
               })
      else Some i)"
  by pat_completeness auto
termination by (relation "measure (\<lambda>(h, i). unat (bucket_cnt h) - it_bucket i)") auto

declare hash_next_loop.simps [simp del]

definition hash_next :: "hash \<Rightarrow> hash_iterator \<Rightarrow> hash_iterator option" where
  "hash_next h i =
     do {
       bucket \<leftarrow> aget (buckets h) (it_bucket i);
       p \<leftarrow> (case it_elem i of
              At_head \<Rightarrow> Some (chain_begin bucket)
            | At e \<Rightarrow> chain_next bucket e
            | _ \<Rightarrow> None);
       hash_next_loop h (i\<lparr>it_elem := p\<rparr>)
     }"

definition hash_cur :: "hash_iterator \<Rightarrow> hpos" where
  "hash_cur i = it_elem i"

definition hash_size :: "hash \<Rightarrow> u32" where
  "hash_size h = hash_elem_cnt h"

definition hash_empty :: "hash \<Rightarrow> bool" where
  "hash_empty h \<longleftrightarrow> hash_elem_cnt h = 0"

section \<open>Hash functions\<close>

definition FNV_32_PRIME :: u32 where
  "FNV_32_PRIME = 16777619"

definition FNV_32_BASIS :: u32 where
  "FNV_32_BASIS = 2166136261"

fun hash_bytes_loop :: "bmem \<Rightarrow> ptr \<Rightarrow> nat \<Rightarrow> u32 \<Rightarrow> u32 option" where
  "hash_bytes_loop m buf 0 hash = Some hash"
| "hash_bytes_loop m buf (Suc sz) hash =
     do {
       c \<leftarrow> ld m buf;
       hash_bytes_loop m (buf + 1) sz ((hash * FNV_32_PRIME) XOR ucast c)
     }"

definition hash_bytes :: "bmem \<Rightarrow> ptr \<Rightarrow> nat \<Rightarrow> u32 option" where
  "hash_bytes m buf sz = do { ASSERT (buf \<noteq> NULL); hash_bytes_loop m buf sz FNV_32_BASIS }"

partial_function (option) hash_string_loop :: "bmem \<Rightarrow> ptr \<Rightarrow> u32 \<Rightarrow> u32 option" where
  "hash_string_loop m s hash =
     do {
       c \<leftarrow> ld m s;
       if c \<noteq> 0 then hash_string_loop m (s + 1) ((hash * FNV_32_PRIME) XOR ucast c) else Some hash
     }"

definition hash_string :: "bmem \<Rightarrow> ptr \<Rightarrow> u32 option" where
  "hash_string m s = do { ASSERT (s \<noteq> NULL); hash_string_loop m s FNV_32_BASIS }"

text \<open>The integer in memory, low byte first, at the address where the compiler puts it.\<close>

definition int_bytes :: "u32 \<Rightarrow> u8 list" where
  "int_bytes i = [ucast i, ucast (drop_bit 8 i), ucast (drop_bit 16 i), ucast (drop_bit 24 i)]"

definition hash_int :: "ptr \<Rightarrow> u32 \<Rightarrow> u32 option" where
  "hash_int p i = hash_bytes (\<lambda>a. if p \<le> a then aget (int_bytes i) (a - p) else None) p 4"

end
