(* ===== verification/Khash_Spec.thy ===== *)
theory Khash_Spec
  imports Khash Klist_Spec
begin

text \<open>
  What a hash table promises. The locale \<open>keyed_set\<close> is the contract of a table that keeps one
  element of each class of equal elements; its clients' facts about lookups after an operation are
  proved in it once. The tables of \<^verbatim>\<open>lib/kernel/hash.c\<close> are an interpretation, for any hash
  function and comparison that fit together, however often the buckets are reallocated and whether
  or not there is memory for it.
\<close>

section \<open>The contract of a table\<close>

locale keyed_set =
  fixes ok :: "'t \<Rightarrow> bool"
    and elems :: "'t \<Rightarrow> 'e set"
    and same :: "'t \<Rightarrow> 'e \<Rightarrow> 'e \<Rightarrow> bool"
    and room :: "'t \<Rightarrow> bool"
    and find :: "'t \<Rightarrow> 'e \<Rightarrow> 'e option option"
    and insrt :: "'t \<Rightarrow> 'e \<Rightarrow> ('e option \<times> 't) option"
    and delet :: "'t \<Rightarrow> 'e \<Rightarrow> ('e option \<times> 't) option"
  assumes same_refl: "ok t \<Longrightarrow> same t a a"
    and same_sym: "ok t \<Longrightarrow> same t a b \<Longrightarrow> same t b a"
    and same_trans: "ok t \<Longrightarrow> same t a b \<Longrightarrow> same t b c \<Longrightarrow> same t a c"
    and single: "ok t \<Longrightarrow> a \<in> elems t \<Longrightarrow> b \<in> elems t \<Longrightarrow> same t a b \<Longrightarrow> a = b"
    and find_ok: "ok t \<Longrightarrow> \<exists>r. find t e = Some r \<and> (\<forall>x. r = Some x \<longleftrightarrow> x \<in> elems t \<and> same t x e)"
    and insert_ok: "ok t \<Longrightarrow> room t \<Longrightarrow> e \<notin> elems t \<Longrightarrow> \<exists>r t'. insrt t e = Some (r, t') \<and> find t e = Some r \<and>
      ok t' \<and> same t' = same t \<and> elems t' = (if r = None then insert e (elems t) else elems t)"
    and delete_ok: "ok t \<Longrightarrow> \<exists>r t'. delet t e = Some (r, t') \<and> find t e = Some r \<and>
      ok t' \<and> same t' = same t \<and> elems t' = elems t - set_option r"
begin

lemma find_iff:
  assumes "ok t"
  shows "find t e = Some (Some x) \<longleftrightarrow> x \<in> elems t \<and> same t x e"
    and "find t e = Some None \<longleftrightarrow> (\<forall>x \<in> elems t. \<not> same t x e)"
proof -
  obtain r where r: "find t e = Some r" "\<And>x. r = Some x \<longleftrightarrow> x \<in> elems t \<and> same t x e"
    using find_ok [OF assms] by blast
  show "find t e = Some (Some x) \<longleftrightarrow> x \<in> elems t \<and> same t x e" using r by simp
  show "find t e = Some None \<longleftrightarrow> (\<forall>x \<in> elems t. \<not> same t x e)" using r by (cases r) auto
qed

text \<open>Two tables with the same elements answer the same for a key.\<close>

lemma find_cong:
  assumes "ok t" and "ok t'" and "same t' = same t"
    and "\<And>y. same t y x \<Longrightarrow> y \<in> elems t' \<longleftrightarrow> y \<in> elems t"
  shows "find t' x = find t x"
proof -
  obtain r where r: "find t x = Some r" "\<And>y. r = Some y \<longleftrightarrow> y \<in> elems t \<and> same t y x"
    using find_ok [OF assms(1)] by blast
  obtain r' where r': "find t' x = Some r'" "\<And>y. r' = Some y \<longleftrightarrow> y \<in> elems t' \<and> same t y x"
    using find_ok [OF assms(2), of x] assms(3) by auto
  have "r' = r" using r(2) r'(2) assms(4) by (metis not_Some_eq)
  then show ?thesis using r r' by simp
qed

lemma find_after_insert:
  assumes t: "ok t" "room t" "e \<notin> elems t"
  shows "\<exists>r t'. insrt t e = Some (r, t') \<and> ok t' \<and> find t e = Some r \<and>
    find t' e = Some (Some (case r of None \<Rightarrow> e | Some old \<Rightarrow> old)) \<and>
    (\<forall>x. \<not> same t e x \<longrightarrow> find t' x = find t x)"
proof -
  obtain r t' where i: "insrt t e = Some (r, t')" "find t e = Some r" "ok t'" "same t' = same t"
    "elems t' = (if r = None then insert e (elems t) else elems t)"
    using insert_ok [OF t] by blast
  have "find t' e = Some (Some (case r of None \<Rightarrow> e | Some old \<Rightarrow> old))"
    using find_iff(1) [OF i(3)] find_iff(1) [OF t(1)] i(2,4,5) same_refl [OF t(1)] by (cases r) auto
  moreover have "find t' x = find t x" if "\<not> same t e x" for x
    using that i(5) by (intro find_cong [OF t(1) i(3,4)]) (auto split: if_splits)
  ultimately show ?thesis using i by blast
qed

lemma find_after_delete:
  assumes t: "ok t"
  shows "\<exists>r t'. delet t e = Some (r, t') \<and> ok t' \<and> find t e = Some r \<and> find t' e = Some None \<and>
    (\<forall>x. \<not> same t e x \<longrightarrow> find t' x = find t x)"
proof -
  obtain r t' where i: "delet t e = Some (r, t')" "find t e = Some r" "ok t'" "same t' = same t"
    "elems t' = elems t - set_option r"
    using delete_ok [OF t] by blast
  have r: "r = Some y \<longleftrightarrow> y \<in> elems t \<and> same t y e" for y using find_iff(1) [OF t, of e y] i(2) by simp
  have "\<not> same t' y e" if "y \<in> elems t'" for y using that r [of y] i(4,5) by auto
  then have "find t' e = Some None" using find_iff(2) [OF i(3)] by blast
  moreover have "find t' x = find t x" if n: "\<not> same t e x" for x
  proof (rule find_cong [OF t i(3,4)])
    show "y \<in> elems t' \<longleftrightarrow> y \<in> elems t" if "same t y x" for y
    proof -
      have "\<not> same t y e" using same_trans [OF t same_sym [OF t] that] n by blast
      then have "r \<noteq> Some y" using r [of y] by blast
      then show ?thesis using i(5) by auto
    qed
  qed
  ultimately show ?thesis using i by blast
qed

end

section \<open>The number of buckets\<close>

lemma between_powers: "1 \<le> n \<Longrightarrow> \<exists>k. 2 ^ k \<le> n \<and> n < (2 :: nat) ^ (k + 1)"
proof (induction n rule: less_induct)
  case (less n)
  show ?case
  proof (cases "n = 1")
    case False
    then obtain k where "2 ^ k \<le> n div 2" "n div 2 < 2 ^ (k + 1)" using less.IH [of "n div 2"] less.prems by force
    then have "2 ^ (k + 1) \<le> n \<and> n < 2 ^ (k + 1 + 1)" by (simp add: less_mult_imp_div_less) linarith
    then show ?thesis by blast
  qed (auto intro!: exI [of _ 0])
qed

lemma bit_unat_iff: "bit (unat x) n \<longleftrightarrow> bit (x :: u32) n"
  by transfer (simp add: bit_simps)

lemma bit_of_top:
  fixes x :: u32
  assumes "2 ^ k \<le> unat x" and "unat x < 2 ^ (k + 1)"
  shows "bit x k"
proof -
  have "unat x div 2 ^ k = 1" using assms by (simp add: div_nat_eqI)
  then show ?thesis by (simp add: bit_unat_iff [symmetric] bit_iff_odd)
qed

lemma top_of_bit: "bit x k \<Longrightarrow> 2 ^ k \<le> unat (x :: u32)"
  using bit_unat_iff [of x k] by (auto simp: bit_iff_odd dest!: odd_pos simp: div_greater_zero_iff)

lemma turn_off_top:
  fixes x :: u32
  assumes "2 ^ k < unat x" and "unat x < 2 ^ (k + 1)"
  shows "2 ^ k \<le> unat (turn_off_least_1bit x)" and "unat (turn_off_least_1bit x) < unat x"
proof -
  have x: "x \<noteq> 0" using assms by auto
  have p: "unat (x - 1) = unat x - 1" using x by (simp add: unat_minus_one)
  have "bit x k" by (rule bit_of_top) (use assms in auto)
  moreover have "bit (x - 1) k" by (rule bit_of_top) (use assms p in auto)
  ultimately have "bit (turn_off_least_1bit x) k" by (simp add: turn_off_least_1bit_def bit_and_iff)
  then show "2 ^ k \<le> unat (turn_off_least_1bit x)" by (rule top_of_bit)
  have "unat (turn_off_least_1bit x) \<le> unat (x - 1)"
    unfolding turn_off_least_1bit_def by (metis word_and_le1 word_le_nat_alt)
  then show "unat (turn_off_least_1bit x) < unat x" using p assms by linarith
qed

lemma turn_off_power:
  fixes x :: u32
  assumes "unat x = 2 ^ k"
  shows "turn_off_least_1bit x = 0"
proof -
  have x: "x \<noteq> 0" using assms by auto
  have p: "unat (x - 1) = 2 ^ k - 1" using x assms by (simp add: unat_minus_one)
  have "\<not> bit (x AND (x - 1)) n" for n
  proof
    assume "bit (x AND (x - 1)) n"
    then have b: "bit x n" "bit (x - 1) n" by (simp_all add: bit_and_iff)
    have "n = k" using bit_unat_iff [of x n] b(1) assms by (simp add: bit_exp_iff)
    then have "(2 :: nat) ^ k \<le> 2 ^ k - 1" using top_of_bit [OF b(2)] p by (simp only:)
    moreover have "(2 :: nat) ^ k > 0" by simp
    ultimately show False by linarith
  qed
  then show ?thesis unfolding turn_off_least_1bit_def by (intro bit_eqI) simp
qed

lemma power_of_2_iff: "is_power_of_2 x \<longleftrightarrow> (\<exists>k. unat x = 2 ^ k)"
proof
  assume p: "is_power_of_2 x"
  then have "1 \<le> unat x" by (simp add: is_power_of_2_def unat_gt_0 Suc_le_eq)
  then obtain k where k: "2 ^ k \<le> unat x" "unat x < 2 ^ (k + 1)" using between_powers by blast
  show "\<exists>k. unat x = 2 ^ k"
  proof (rule ccontr)
    assume "\<not> ?thesis"
    with k have "2 ^ k < unat x" by (metis order_less_le)
    then show False using turn_off_top(1) [OF _ k(2)] p by (simp add: is_power_of_2_def)
  qed
next
  assume "\<exists>k. unat x = 2 ^ k"
  then show "is_power_of_2 x" using turn_off_power [of x] by (auto simp: is_power_of_2_def)
qed

text \<open>The loop ends with the largest power of two that is not above its argument.\<close>

lemma rehash_count_loop_total:
  assumes "2 ^ k \<le> unat x" and "unat x < 2 ^ (k + 1)"
  shows "\<exists>y. rehash_count_loop x = Some y \<and> unat y = 2 ^ k"
  using assms
proof (induction "unat x" arbitrary: x rule: less_induct)
  case less
  show ?case
  proof (cases "unat x = 2 ^ k")
    case True
    then show ?thesis using power_of_2_iff [of x] by (subst rehash_count_loop.simps) auto
  next
    case False
    then have g: "2 ^ k < unat x" using less.prems by simp
    note t = turn_off_top [OF g less.prems(2)]
    have "\<not> is_power_of_2 x" using t(1) by (auto simp: is_power_of_2_def)
    then show ?thesis
      using less.hyps [OF t(2) t(1)] t(2) less.prems(2) by (subst rehash_count_loop.simps) simp
  qed
qed

lemma rehash_count_total:
  obtains n where "rehash_count h = Some n" and "is_power_of_2 n" and "4 \<le> unat n"
    and "unat n \<le> max 4 (unat (hash_elem_cnt h) div 2)" and "unat (hash_elem_cnt h) div 2 < 2 * unat n"
proof -
  let ?m = "hash_elem_cnt h div BEST_ELEMS_PER_BUCKET"
  let ?x = "if ?m < 4 then 4 else ?m"
  have m: "unat ?m = unat (hash_elem_cnt h) div 2" by (simp add: BEST_ELEMS_PER_BUCKET_def unat_div)
  have x: "unat ?x = max 4 (unat (hash_elem_cnt h) div 2)"
    using m by (auto simp: word_less_nat_alt max_def)
  then obtain k where k: "2 ^ k \<le> unat ?x" "unat ?x < 2 ^ (k + 1)" using between_powers [of "unat ?x"] by fastforce
  obtain n where n: "rehash_count_loop ?x = Some n" "unat n = 2 ^ k" using rehash_count_loop_total [OF k] by blast
  have "2 \<le> k"
  proof (rule ccontr)
    assume "\<not> 2 \<le> k"
    then have "(2 :: nat) ^ (k + 1) \<le> 2 ^ 2" by (intro power_increasing) auto
    then show False using k(2) x by simp
  qed
  then have "(2 :: nat) ^ 2 \<le> 2 ^ k" by (intro power_increasing) auto
  then show thesis
    using that [of n] n k x power_of_2_iff [of n] by (auto simp: rehash_count_def Let_def)
qed

section \<open>Well-formed tables\<close>

definition hash_elems :: "hash \<Rightarrow> ptr list" where
  "hash_elems h = concat (buckets h)"

definition hash_fits :: "hash \<Rightarrow> bool" where
  "hash_fits h \<longleftrightarrow> length (buckets h) = unat (bucket_cnt h) \<and> is_power_of_2 (bucket_cnt h) \<and>
     (\<forall>i < length (buckets h). \<forall>e \<in> set (buckets h ! i). find_bucket h e = i)"

definition hash_ok :: "hash \<Rightarrow> bool" where
  "hash_ok h \<longleftrightarrow> strict_weak_order (hash_less h) \<and>
     (\<forall>a b. equiv_under (hash_less h) a b \<longrightarrow> hash_func h a = hash_func h b) \<and>
     hash_fits h \<and> distinct (hash_elems h) \<and>
     (\<forall>a \<in> set (hash_elems h). \<forall>b \<in> set (hash_elems h). equiv_under (hash_less h) a b \<longrightarrow> a = b) \<and>
     unat (hash_elem_cnt h) = length (hash_elems h)"

lemma hash_okD:
  assumes "hash_ok h"
  shows "strict_weak_order (hash_less h)" and "equiv_under (hash_less h) a b \<Longrightarrow> hash_func h a = hash_func h b"
    and "hash_fits h" and "distinct (hash_elems h)"
    and "a \<in> set (hash_elems h) \<Longrightarrow> b \<in> set (hash_elems h) \<Longrightarrow> equiv_under (hash_less h) a b \<Longrightarrow> a = b"
    and "unat (hash_elem_cnt h) = length (hash_elems h)"
  using assms by (auto simp: hash_ok_def)

lemma find_bucket_bound:
  assumes "hash_fits h"
  shows "find_bucket h e < length (buckets h)"
proof -
  have n: "bucket_cnt h \<noteq> 0" using assms by (auto simp: hash_fits_def is_power_of_2_def)
  have "find_bucket h e \<le> unat (bucket_cnt h - 1)"
    unfolding find_bucket_def by (metis word_and_le1 word_le_nat_alt)
  also have "\<dots> < unat (bucket_cnt h)" using n by (rule measure_unat)
  finally show ?thesis using assms by (simp add: hash_fits_def)
qed

lemma find_elem_Some: "find_elem h b e = Some x \<Longrightarrow> x \<in> set b \<and> equiv_under (hash_less h) x e"
  by (induction b) (auto simp: equiv_under_def split: if_splits)

lemma find_elem_None: "find_elem h b e = None \<Longrightarrow> x \<in> set b \<Longrightarrow> \<not> equiv_under (hash_less h) x e"
  by (induction b) (auto simp: equiv_under_def split: if_splits)

lemma mem_bucket:
  assumes "hash_fits h"
  shows "x \<in> set (hash_elems h) \<longleftrightarrow> x \<in> set (buckets h ! find_bucket h x)"
proof
  assume "x \<in> set (hash_elems h)"
  then obtain i where "i < length (buckets h)" "x \<in> set (buckets h ! i)" unfolding hash_elems_def set_concat by (metis UN_E in_set_conv_nth)
  then show "x \<in> set (buckets h ! find_bucket h x)" using assms by (auto simp: hash_fits_def)
qed (use find_bucket_bound [OF assms, of x] in \<open>auto simp: hash_elems_def\<close>)

lemma equiv_bucket:
  assumes "hash_ok h" and "equiv_under (hash_less h) x e"
  shows "find_bucket h x = find_bucket h e"
  using hash_okD(2) [OF assms] by (simp add: find_bucket_def)

text \<open>The bucket of a key holds every element equal to it.\<close>

lemma find_elem_bucket:
  assumes h: "hash_ok h"
  shows "find_elem h (buckets h ! find_bucket h e) e = Some x \<longleftrightarrow>
    x \<in> set (hash_elems h) \<and> equiv_under (hash_less h) x e"
proof
  note f = hash_okD(3) [OF h]
  assume "find_elem h (buckets h ! find_bucket h e) e = Some x"
  then show "x \<in> set (hash_elems h) \<and> equiv_under (hash_less h) x e"
    using find_elem_Some equiv_bucket [OF h] mem_bucket [OF f, of x] by metis
next
  note f = hash_okD(3) [OF h]
  assume x: "x \<in> set (hash_elems h) \<and> equiv_under (hash_less h) x e"
  then have m: "x \<in> set (buckets h ! find_bucket h e)"
    using equiv_bucket [OF h] mem_bucket [OF f, of x] by metis
  then obtain y where y: "find_elem h (buckets h ! find_bucket h e) e = Some y"
    using find_elem_None x by (metis not_Some_eq)
  have ye: "y \<in> set (hash_elems h)" "equiv_under (hash_less h) y e"
    using find_elem_Some [OF y] equiv_bucket [OF h] mem_bucket [OF f, of y] by auto
  have "equiv_under (hash_less h) y x"
    using strict_weak_order.equiv_trans [OF hash_okD(1) [OF h], of e y x] ye(2) x by (auto simp: equiv_under_def)
  then have "y = x" using hash_okD(5) [OF h ye(1)] x by blast
  then show "find_elem h (buckets h ! find_bucket h e) e = Some x" using y by simp
qed

lemma hash_find_ok:
  assumes "hash_ok h"
  shows "\<exists>r. hash_find h e = Some r \<and> r = find_elem h (buckets h ! find_bucket h e) e \<and>
    (\<forall>x. r = Some x \<longleftrightarrow> x \<in> set (hash_elems h) \<and> equiv_under (hash_less h) x e)"
  using find_elem_bucket [OF assms] find_bucket_bound [OF hash_okD(3) [OF assms]] by (simp add: hash_find_def)

section \<open>Rehashing\<close>

lemma mset_concat_update:
  "i < length bs \<Longrightarrow> mset (concat (bs[i := e # bs ! i])) = add_mset e (mset (concat bs))"
  by (induction bs arbitrary: i) (auto split: nat.split)

lemma find_bucket_buckets [simp]: "find_bucket (h\<lparr>buckets := b\<rparr>) = find_bucket h"
  by (simp add: find_bucket_def fun_eq_iff)

lemma find_bucket_count [simp]: "find_bucket (h\<lparr>hash_elem_cnt := n\<rparr>) = find_bucket h"
  by (simp add: find_bucket_def fun_eq_iff)

lemma fits_push:
  assumes "hash_fits h" and "i = find_bucket h e"
  shows "hash_fits (h\<lparr>buckets := (buckets h)[i := e # buckets h ! i]\<rparr>)"
  using find_bucket_bound [OF assms(1), of e] assms by (auto simp: hash_fits_def nth_list_update split: if_splits)

lemma rehash_move_ok:
  assumes "hash_fits h"
  shows "\<exists>bs. rehash_move h es = Some (h\<lparr>buckets := bs\<rparr>) \<and> hash_fits (h\<lparr>buckets := bs\<rparr>) \<and>
    mset (concat bs) = mset (hash_elems h) + mset es"
  using assms
proof (induction es arbitrary: h)
  case Nil
  then show ?case by (auto simp: hash_elems_def intro!: exI [of _ "buckets h"])
next
  case (Cons e es)
  let ?i = "find_bucket h e"
  have b: "?i < length (buckets h)" by (rule find_bucket_bound [OF Cons.prems])
  show ?case
    using Cons.IH [OF fits_push [OF Cons.prems refl, of e]] b mset_concat_update [OF b, of e]
    by (auto simp: hash_elems_def)
qed

lemma rehash_loop_ok:
  assumes "hash_fits h"
  shows "\<exists>bs. rehash_loop h olds = Some (h\<lparr>buckets := bs\<rparr>) \<and> hash_fits (h\<lparr>buckets := bs\<rparr>) \<and>
    mset (concat bs) = mset (hash_elems h) + mset (concat olds)"
  using assms
proof (induction olds arbitrary: h)
  case Nil
  then show ?case by (auto simp: hash_elems_def intro!: exI [of _ "buckets h"])
next
  case (Cons b olds)
  obtain bs where bs: "rehash_move h b = Some (h\<lparr>buckets := bs\<rparr>)" "hash_fits (h\<lparr>buckets := bs\<rparr>)"
    "mset (concat bs) = mset (hash_elems h) + mset b" using rehash_move_ok [OF Cons.prems] by blast
  show ?case using Cons.IH [OF bs(2)] bs(1,3) by (auto simp: hash_elems_def)
qed

text \<open>Rehashing changes how the elements are spread over buckets and nothing else.\<close>

lemma rehash_ok:
  assumes "hash_fits h"
  obtains n bs where "rehash a h = Some (h\<lparr>bucket_cnt := n, buckets := bs\<rparr>)"
    and "hash_fits (h\<lparr>bucket_cnt := n, buckets := bs\<rparr>)" and "mset (concat bs) = mset (hash_elems h)"
    and "a \<Longrightarrow> rehash_count h = Some n"
proof -
  obtain n where n: "rehash_count h = Some n" "is_power_of_2 n" by (rule rehash_count_total)
  show thesis
  proof (cases "n = bucket_cnt h \<or> \<not> a")
    case True
    then show thesis using that [of "buckets h" "bucket_cnt h"] n assms by (auto simp: rehash_def hash_elems_def Let_def)
  next
    case False
    let ?e = "h\<lparr>buckets := replicate (unat n) [], bucket_cnt := n\<rparr>"
    have "hash_fits ?e" using n by (simp add: hash_fits_def)
    then obtain bs where "rehash_loop ?e (buckets h) = Some (?e\<lparr>buckets := bs\<rparr>)" "hash_fits (?e\<lparr>buckets := bs\<rparr>)"
      "mset (concat bs) = mset (hash_elems ?e) + mset (concat (buckets h))" using rehash_loop_ok by blast
    then show thesis using that [of bs n] n False by (simp add: rehash_def Let_def hash_elems_def)
  qed
qed

section \<open>The operations keep the contract\<close>

text \<open>A table with the elements of another one, spread differently.\<close>

lemma hash_ok_spread:
  assumes "hash_ok h" and "hash_fits h'" and "hash_less h' = hash_less h" and "hash_func h' = hash_func h"
    and "hash_elem_cnt h' = c" and "unat c = size M" and "mset (hash_elems h') = M"
    and "\<And>a. count M a \<le> 1"
    and "\<And>a b. a \<in># M \<Longrightarrow> b \<in># M \<Longrightarrow> equiv_under (hash_less h) a b \<Longrightarrow> a = b"
  shows "hash_ok h'"
proof -
  have s: "set (hash_elems h') = set_mset M" using assms(7) by (metis set_mset_mset)
  have "distinct (hash_elems h')"
    using assms(7,8) by (metis distinct_count_atmost_1 in_multiset_in_set count_greater_eq_one_iff le_antisym count_eq_zero_iff)
  moreover have "length (hash_elems h') = size M" using assms(7) by (metis size_mset)
  ultimately show ?thesis
    using assms(1-6,9) s by (simp add: hash_ok_def)
qed

lemma unat_succ: "unat (x :: u32) + 1 < 2 ^ 32 \<Longrightarrow> unat (x + 1) = unat x + 1"
  by (simp add: unat_word_ariths)

lemma rehash_spread:
  assumes h: "hash_ok h" and k: "hash_fits k" "hash_less k = hash_less h" "hash_func k = hash_func h"
    and M: "unat (hash_elem_cnt k) = size M" "mset (hash_elems k) = M"
      "\<And>x. count M x \<le> 1" "\<And>x y. x \<in># M \<Longrightarrow> y \<in># M \<Longrightarrow> equiv_under (hash_less h) x y \<Longrightarrow> x = y"
  shows "\<exists>h'. rehash a k = Some h' \<and> hash_ok h' \<and> hash_less h' = hash_less h \<and> set (hash_elems h') = set_mset M"
proof -
  obtain n bs where re: "rehash a k = Some (k\<lparr>bucket_cnt := n, buckets := bs\<rparr>)"
    "hash_fits (k\<lparr>bucket_cnt := n, buckets := bs\<rparr>)" "mset (concat bs) = mset (hash_elems k)"
    by (rule rehash_ok [OF k(1)])
  let ?h = "k\<lparr>bucket_cnt := n, buckets := bs\<rparr>"
  have m: "mset (hash_elems ?h) = M" using re(3) M(2) by (simp add: hash_elems_def)
  have "hash_ok ?h" by (rule hash_ok_spread [OF h re(2) _ _ refl _ m M(3) M(4)]) (use k M(1) in simp_all)
  then show ?thesis using re(1) k(2) arg_cong [OF m, of set_mset] by auto
qed

lemma hash_find_lookup:
  assumes "hash_ok h"
  obtains r where "hash_find h e = Some r" and "find_elem h (buckets h ! find_bucket h e) e = r"
    and "\<And>x. r = Some x \<longleftrightarrow> x \<in> set (hash_elems h) \<and> equiv_under (hash_less h) x e"
    and "find_bucket h e < length (buckets h)"
  using hash_find_ok [OF assms, of e] find_bucket_bound [OF hash_okD(3) [OF assms], of e] by blast

text \<open>Pushing a new element to its bucket.\<close>

lemma insert_elem_ok:
  assumes "hash_fits h" and "i = find_bucket h e"
  obtains k where "insert_elem h i e = Some k" and "hash_fits k" and "hash_less k = hash_less h"
    and "hash_func k = hash_func h" and "hash_elem_cnt k = hash_elem_cnt h + 1"
    and "mset (hash_elems k) = add_mset e (mset (hash_elems h))"
proof -
  note b = find_bucket_bound [OF assms(1), of e]
  let ?k = "h\<lparr>hash_elem_cnt := hash_elem_cnt h + 1, buckets := (buckets h)[i := e # buckets h ! i]\<rparr>"
  have "hash_fits ?k" using fits_push [OF assms] by (simp add: hash_fits_def find_bucket_def)
  moreover have "mset (hash_elems ?k) = add_mset e (mset (hash_elems h))"
    using mset_concat_update [OF b, of e] assms(2) by (simp add: hash_elems_def)
  ultimately show thesis using that [of ?k] b assms(2) by (simp add: insert_elem_def)
qed

lemma add_new_single:
  assumes "\<And>x y. x \<in># M \<Longrightarrow> y \<in># M \<Longrightarrow> equiv_under f x y \<Longrightarrow> x = y" and "\<And>x. x \<in># M \<Longrightarrow> \<not> equiv_under f x e"
    and "x \<in># add_mset e M" and "y \<in># add_mset e M" and "equiv_under f x y"
  shows "x = y"
  using assms(1) [of x y] assms(2) [of x] assms(2) [of y] assms(3-5) by (auto simp: equiv_under_def)

lemma hash_insert_ok:
  assumes h: "hash_ok h" and room: "length (hash_elems h) + 1 < 2 ^ 32" and e: "e \<notin> set (hash_elems h)"
  shows "\<exists>r h'. hash_insert a h e = Some (r, h') \<and> hash_find h e = Some r \<and> hash_ok h' \<and>
    hash_less h' = hash_less h \<and>
    set (hash_elems h') = (if r = None then insert e (set (hash_elems h)) else set (hash_elems h))"
proof -
  note D = hash_okD [OF h]
  obtain r where r: "hash_find h e = Some r" "find_elem h (buckets h ! find_bucket h e) e = r"
    "\<And>x. r = Some x \<longleftrightarrow> x \<in> set (hash_elems h) \<and> equiv_under (hash_less h) x e"
    and b: "find_bucket h e < length (buckets h)"
    using hash_find_lookup [OF h, of e] by metis
  let ?M = "mset (hash_elems h)"
  show ?thesis
  proof (cases r)
    case (Some x)
    have "\<exists>h'. rehash a h = Some h' \<and> hash_ok h' \<and> hash_less h' = hash_less h \<and> set (hash_elems h') = set_mset ?M"
      by (rule rehash_spread [OF h D(3)]) (use D(4-6) in \<open>auto simp: distinct_count_atmost_1\<close>)
    then show ?thesis using r(1,2) Some b by (auto simp: hash_insert_def Let_def)
  next
    case None
    obtain k where k: "insert_elem h (find_bucket h e) e = Some k" "hash_fits k" "hash_less k = hash_less h"
      "hash_func k = hash_func h" "hash_elem_cnt k = hash_elem_cnt h + 1" "mset (hash_elems k) = add_mset e ?M"
      by (rule insert_elem_ok [OF D(3) refl, of e])
    have new: "\<not> equiv_under (hash_less h) x e" if "x \<in># ?M" for x using r(3) [of x] None that by simp
    have "\<exists>h'. rehash a k = Some h' \<and> hash_ok h' \<and> hash_less h' = hash_less h \<and> set (hash_elems h') = set_mset (add_mset e ?M)"
    proof (rule rehash_spread [OF h k(2-4) _ k(6)])
      show "unat (hash_elem_cnt k) = size (add_mset e ?M)" using room D(6) unat_succ [of "hash_elem_cnt h"] k(5) by simp
      show "count (add_mset e ?M) x \<le> 1" for x using e D(4) by (auto simp: distinct_count_atmost_1)
      show "x = y" if "x \<in># add_mset e ?M" "y \<in># add_mset e ?M" "equiv_under (hash_less h) x y" for x y
        by (rule add_new_single [OF _ new that]) (use D(5) in auto)
    qed
    then show ?thesis using r(1,2) None b k(1) by (auto simp: hash_insert_def Let_def)
  qed
qed

lemma mset_concat_remove:
  "distinct (concat bs) \<Longrightarrow> x \<in> set (concat bs) \<Longrightarrow> mset (concat (map (remove1 x) bs)) = mset (concat bs) - {#x#}"
proof (induction bs)
  case (Cons b bs)
  show ?case
  proof (cases "x \<in> set b")
    case True
    then have "x \<notin> set (concat bs)" using Cons.prems by auto
    then have "map (remove1 x) bs = bs" by (auto simp: map_idI remove1_idem)
    then show ?thesis using True by simp
  next
    case False
    then show ?thesis using Cons by (auto simp: remove1_idem)
  qed
qed simp

lemma remove_elem_ok:
  assumes h: "hash_ok h" and x: "x \<in> set (hash_elems h)"
  shows "hash_fits (remove_elem h x)" and "hash_less (remove_elem h x) = hash_less h"
    and "hash_func (remove_elem h x) = hash_func h" and "find_bucket (remove_elem h x) = find_bucket h"
    and "mset (hash_elems (remove_elem h x)) = mset (hash_elems h) - {#x#}"
    and "unat (hash_elem_cnt (remove_elem h x)) = length (hash_elems h) - 1"
proof -
  note D = hash_okD [OF h]
  show "hash_fits (remove_elem h x)"
    using D(3) by (auto simp: hash_fits_def remove_elem_def find_bucket_def dest!: subsetD [OF set_remove1_subset])
  show "mset (hash_elems (remove_elem h x)) = mset (hash_elems h) - {#x#}"
    using mset_concat_remove D(4) x by (simp add: remove_elem_def hash_elems_def)
  have "hash_elem_cnt h \<noteq> 0" using D(6) x by (auto simp: unat_eq_0 [symmetric])
  then show "unat (hash_elem_cnt (remove_elem h x)) = length (hash_elems h) - 1"
    using D(6) by (simp add: remove_elem_def unat_minus_one)
qed (simp_all add: remove_elem_def find_bucket_def fun_eq_iff)

lemma hash_delete_ok:
  assumes h: "hash_ok h"
  shows "\<exists>r h'. hash_delete a h e = Some (r, h') \<and> hash_find h e = Some r \<and> hash_ok h' \<and>
    hash_less h' = hash_less h \<and> set (hash_elems h') = set (hash_elems h) - set_option r"
proof -
  note D = hash_okD [OF h]
  obtain r where r: "hash_find h e = Some r" "find_elem h (buckets h ! find_bucket h e) e = r"
    "\<And>x. r = Some x \<longleftrightarrow> x \<in> set (hash_elems h) \<and> equiv_under (hash_less h) x e"
    and b: "find_bucket h e < length (buckets h)"
    using hash_find_lookup [OF h, of e] by metis
  show ?thesis
  proof (cases r)
    case None
    then show ?thesis using r(1,2) b h by (simp add: hash_delete_def)
  next
    case (Some x)
    then have x: "x \<in> set (hash_elems h)" using r(3) by blast
    note R = remove_elem_ok [OF h x]
    let ?M = "mset (hash_elems h) - {#x#}"
    have sub: "y \<in># ?M \<Longrightarrow> y \<in> set (hash_elems h)" for y by (metis in_diffD set_mset_mset)
    have "\<exists>h'. rehash a (remove_elem h x) = Some h' \<and> hash_ok h' \<and> hash_less h' = hash_less h \<and>
        set (hash_elems h') = set_mset ?M"
      by (rule rehash_spread [OF h R(1-3) _ R(5)])
        (use D(4,5) R(6) x sub in \<open>auto simp: size_Diff_singleton distinct_count_atmost_1\<close>)
    moreover have "set_mset ?M = set (hash_elems h) - {x}" using D(4) x by (simp flip: mset_remove1 add: set_remove1_eq)
    ultimately show ?thesis using r(1,2) Some b by (auto simp: hash_delete_def)
  qed
qed

lemma hash_replace_ok:
  assumes h: "hash_ok h" and room: "length (hash_elems h) + 1 < 2 ^ 32" and e: "e \<notin> set (hash_elems h)"
  shows "\<exists>r h'. hash_replace a h e = Some (r, h') \<and> hash_find h e = Some r \<and> hash_ok h' \<and>
    hash_less h' = hash_less h \<and> set (hash_elems h') = insert e (set (hash_elems h) - set_option r)"
proof -
  note D = hash_okD [OF h]
  obtain r where r: "hash_find h e = Some r" "find_elem h (buckets h ! find_bucket h e) e = r"
    "\<And>x. r = Some x \<longleftrightarrow> x \<in> set (hash_elems h) \<and> equiv_under (hash_less h) x e"
    and b: "find_bucket h e < length (buckets h)"
    using hash_find_lookup [OF h, of e] by metis
  let ?k = "case r of Some x \<Rightarrow> remove_elem h x | None \<Rightarrow> h" and ?M = "mset (hash_elems h) - mset_set (set_option r)"
  have mem: "x \<in> set (hash_elems h)" if "r = Some x" for x using r(3) that by blast
  have k: "hash_fits ?k" "hash_less ?k = hash_less h" "hash_func ?k = hash_func h" "find_bucket ?k e = find_bucket h e"
      "mset (hash_elems ?k) = ?M" "unat (hash_elem_cnt ?k) = size ?M"
    by (cases r; use remove_elem_ok [OF h mem] D(3,6) mem in \<open>auto simp: size_Diff_singleton\<close>)+
  obtain j where j: "insert_elem ?k (find_bucket h e) e = Some j" "hash_fits j" "hash_less j = hash_less ?k"
      "hash_func j = hash_func ?k" "hash_elem_cnt j = hash_elem_cnt ?k + 1" "mset (hash_elems j) = add_mset e ?M"
    using insert_elem_ok [OF k(1), of "find_bucket h e" e] k(4,5) by metis
  have sub: "x \<in># ?M \<Longrightarrow> x \<in> set (hash_elems h)" for x by (metis in_diffD set_mset_mset)
  have M: "set_mset ?M = set (hash_elems h) - set_option r"
    using D(4) by (cases r) (auto simp flip: mset_remove1 simp: set_remove1_eq)
  have "size ?M \<le> length (hash_elems h)" by (metis diff_subset_eq_self size_mset size_mset_mono)
  then have cnt: "unat (hash_elem_cnt j) = size (add_mset e ?M)"
    using unat_succ [of "hash_elem_cnt ?k"] room k(6) j(5) by simp
  have new: "\<not> equiv_under (hash_less h) x e" if "x \<in># ?M" for x using that r(3) [of x] sub [OF that] M by auto
  have "\<exists>h'. rehash a j = Some h' \<and> hash_ok h' \<and> hash_less h' = hash_less h \<and> set (hash_elems h') = set_mset (add_mset e ?M)"
  proof (rule rehash_spread [OF h j(2) _ _ cnt j(6)])
    have c: "count (mset (hash_elems h)) x \<le> 1" for x using D(4) by (simp add: distinct_count_atmost_1)
    have "count (mset (hash_elems h)) e = 0" using e by (simp add: count_eq_zero_iff)
    then have "count ?M e = 0" by (simp only: count_diff diff_0_eq_0)
    moreover have "count ?M x \<le> 1" for x using c [of x] by (simp only: count_diff)
    ultimately show "count (add_mset e ?M) x \<le> 1" for x by (simp only: count_add_mset split: if_split) auto
    show "x = y" if "x \<in># add_mset e ?M" "y \<in># add_mset e ?M" "equiv_under (hash_less h) x y" for x y
      by (rule add_new_single [OF _ new that]) (use D(5) sub in auto)
  qed (use j k in simp_all)
  then show ?thesis using r(1,2) b j(1) M by (auto simp: hash_replace_def Let_def)
qed

definition hash_room :: "hash \<Rightarrow> bool" where
  "hash_room h \<longleftrightarrow> length (hash_elems h) + 1 < 2 ^ 32"

definition hash_same :: "hash \<Rightarrow> ptr \<Rightarrow> ptr \<Rightarrow> bool" where
  "hash_same h = equiv_under (hash_less h)"

interpretation tab: keyed_set hash_ok "\<lambda>h. set (hash_elems h)" hash_same hash_room hash_find "hash_insert a" "hash_delete a" for a
proof unfold_locales
  fix t :: hash and x y z :: ptr
  assume t: "hash_ok t"
  note w = strict_weak_order.equiv_trans [OF hash_okD(1) [OF t]]
  show "hash_same t x x" using strict_weak_order.irrefl [OF hash_okD(1) [OF t]] by (simp add: hash_same_def equiv_under_def)
  show "hash_same t x y \<Longrightarrow> hash_same t y x" by (auto simp: hash_same_def equiv_under_def)
  show "hash_same t x y \<Longrightarrow> hash_same t y z \<Longrightarrow> hash_same t x z"
    using w [of y x z] by (auto simp: hash_same_def equiv_under_def)
  show "x \<in> set (hash_elems t) \<Longrightarrow> y \<in> set (hash_elems t) \<Longrightarrow> hash_same t x y \<Longrightarrow> x = y"
    using hash_okD(5) [OF t] by (simp add: hash_same_def)
  show "\<exists>r. hash_find t x = Some r \<and> (\<forall>y. r = Some y \<longleftrightarrow> y \<in> set (hash_elems t) \<and> hash_same t y x)"
    using hash_find_ok [OF t, of x] by (auto simp: hash_same_def)
  show "hash_room t \<Longrightarrow> x \<notin> set (hash_elems t) \<Longrightarrow> \<exists>r t'. hash_insert a t x = Some (r, t') \<and> hash_find t x = Some r \<and>
      hash_ok t' \<and> hash_same t' = hash_same t \<and>
      set (hash_elems t') = (if r = None then insert x (set (hash_elems t)) else set (hash_elems t))"
    using hash_insert_ok [OF t, of x a] by (fastforce simp: hash_room_def hash_same_def)
  show "\<exists>r t'. hash_delete a t x = Some (r, t') \<and> hash_find t x = Some r \<and>
      hash_ok t' \<and> hash_same t' = hash_same t \<and> set (hash_elems t') = set (hash_elems t) - set_option r"
    using hash_delete_ok [OF t, of a x] by (fastforce simp: hash_same_def)
qed

end
