(* ===== verification/Khash_Props.thy ===== *)
theory Khash_Props
  imports Khash_Spec
begin

text \<open>The properties of hash tables: lookups after insertions and deletions, and iteration.\<close>

section \<open>Iteration\<close>

lemma next_loop_tail:
  "hash_next_loop h \<lparr>it_bucket = n, it_elem = At_tail\<rparr> =
     (if n + 1 \<ge> unat (bucket_cnt h) then Some \<lparr>it_bucket = n + 1, it_elem = At_null\<rparr>
      else do { b \<leftarrow> aget (buckets h) (n + 1);
                hash_next_loop h \<lparr>it_bucket = n + 1, it_elem = chain_begin b\<rparr> })"
  by (subst hash_next_loop.simps) (simp add: Let_def)

lemma next_loop_at: "hash_next_loop h \<lparr>it_bucket = n, it_elem = At x\<rparr> = Some \<lparr>it_bucket = n, it_elem = At x\<rparr>"
  by (subst hash_next_loop.simps) simp

text \<open>The elements that come after the place an iterator has reached.\<close>

definition todo :: "hash \<Rightarrow> hash_iterator \<Rightarrow> ptr list \<Rightarrow> bool" where
  "todo h i xs \<longleftrightarrow>
     (\<exists>as bs. it_bucket i < length (buckets h) \<and> buckets h ! it_bucket i = as @ bs \<and>
        xs = bs @ concat (drop (Suc (it_bucket i)) (buckets h)) \<and>
        it_elem i = (if as = [] then At_head else At (last as)))"

lemma next_loop_todo:
  assumes "length (buckets h) = unat (bucket_cnt h)" and "n < length (buckets h)" and "buckets h ! n = as @ bs"
  shows "\<exists>i. hash_next_loop h \<lparr>it_bucket = n, it_elem = chain_begin bs\<rparr> = Some i \<and>
    (case bs @ concat (drop (Suc n) (buckets h)) of
       [] \<Rightarrow> it_elem i = At_null
     | x # ys \<Rightarrow> it_elem i = At x \<and> todo h i ys)"
  using assms(2,3)
proof (induction "length (buckets h) - n" arbitrary: n as bs)
  case (Suc d)
  show ?case
  proof (cases bs)
    case (Cons x ds)
    have "todo h \<lparr>it_bucket = n, it_elem = At x\<rparr> (ds @ concat (drop (Suc n) (buckets h)))"
      unfolding todo_def by (rule exI [of _ "as @ [x]"], rule exI [of _ ds]) (use Suc.prems Cons in auto)
    then show ?thesis using Cons by (simp add: next_loop_at)
  next
    case Nil
    show ?thesis
    proof (cases "Suc n < length (buckets h)")
      case True
      have dr: "drop (Suc n) (buckets h) = buckets h ! Suc n # drop (Suc (Suc n)) (buckets h)"
        using True by (rule Cons_nth_drop_Suc [symmetric])
      show ?thesis
        using Suc.hyps(1) [of "Suc n" "[]" "buckets h ! Suc n"] Suc.hyps(2) True Nil assms(1)
        by (simp add: next_loop_tail dr)
    qed (use Nil assms(1) in \<open>simp add: next_loop_tail\<close>)
  qed
qed simp

lemma chain_next_last: "distinct (as @ bs) \<Longrightarrow> as \<noteq> [] \<Longrightarrow> chain_next (as @ bs) (last as) = Some (chain_begin bs)"
proof (induction as)
  case (Cons a as)
  then show ?case by (cases as) auto
qed simp

lemma distinct_bucket: "distinct (concat bs) \<Longrightarrow> i < length bs \<Longrightarrow> distinct (bs ! i)"
  by (induction bs arbitrary: i) (auto simp: nth_Cons split: nat.split)

lemma hash_next_todo:
  assumes h: "length (buckets h) = unat (bucket_cnt h)" "distinct (hash_elems h)" and t: "todo h i xs"
  shows "\<exists>i'. hash_next h i = Some i' \<and>
    (case xs of [] \<Rightarrow> it_elem i' = At_null | x # ys \<Rightarrow> it_elem i' = At x \<and> todo h i' ys)"
proof -
  obtain as bs where i: "it_bucket i < length (buckets h)" "buckets h ! it_bucket i = as @ bs"
    "xs = bs @ concat (drop (Suc (it_bucket i)) (buckets h))" "it_elem i = (if as = [] then At_head else At (last as))"
    using t by (auto simp: todo_def)
  have d: "distinct (as @ bs)" using distinct_bucket [of "buckets h"] h(2) i(1,2) by (metis hash_elems_def)
  have "hash_next h i = hash_next_loop h (i\<lparr>it_elem := chain_begin bs\<rparr>)"
    using i chain_next_last [OF d] by (simp add: hash_next_def)
  moreover have "i\<lparr>it_elem := chain_begin bs\<rparr> = \<lparr>it_bucket = it_bucket i, it_elem = chain_begin bs\<rparr>" by simp
  ultimately show ?thesis using next_loop_todo [OF h(1) i(1,2)] i(3) by metis
qed

text \<open>The places that a number of calls of \<^verbatim>\<open>hash_next\<close> returns.\<close>

fun hash_nexts :: "hash \<Rightarrow> hash_iterator \<Rightarrow> nat \<Rightarrow> hpos list option" where
  "hash_nexts h i 0 = Some []"
| "hash_nexts h i (Suc n) =
     do { i \<leftarrow> hash_next h i; ps \<leftarrow> hash_nexts h i n; Some (hash_cur i # ps) }"

lemma hash_nexts_todo:
  assumes "length (buckets h) = unat (bucket_cnt h)" "distinct (hash_elems h)" and "todo h i xs"
  shows "hash_nexts h i (length xs + 1) = Some (map At xs @ [At_null])"
  using assms(3)
proof (induction xs arbitrary: i)
  case Nil
  then show ?case using hash_next_todo [OF assms(1,2) Nil] by (auto simp: hash_cur_def)
next
  case (Cons x xs)
  obtain i' where i': "hash_next h i = Some i'" "it_elem i' = At x" "todo h i' xs"
    using hash_next_todo [OF assms(1,2) Cons.prems] by auto
  have "hash_nexts h i (Suc (length xs + 1)) = Some (map At (x # xs) @ [At_null])"
    using Cons.IH [OF i'(3)] i'(1,2) by (subst hash_nexts.simps(2)) (simp del: hash_nexts.simps add: hash_cur_def)
  then show ?case by simp
qed

section \<open>Properties\<close>

text \<open>A table of three elements; an element's key is its address modulo 8, which is also its hash.\<close>

definition demo_hash :: hash where
  "demo_hash = \<lparr>hash_elem_cnt = 3, bucket_cnt = 4, buckets = [[16], [25, 21], [], []],
     hash_func = (\<lambda>e. of_nat (e mod 8)), hash_less = (\<lambda>a b. a mod 8 < b mod 8)\<rparr>"

lemma demo_hash_ok: "hash_ok demo_hash"
proof -
  have "strict_weak_order (hash_less demo_hash)" by unfold_locales (auto simp: demo_hash_def)
  moreover have "hash_fits demo_hash"
    by (simp add: hash_fits_def demo_hash_def is_power_of_2_def turn_off_least_1bit_def find_bucket_def All_less_Suc2)
  ultimately show ?thesis
    by (auto simp: hash_ok_def demo_hash_def hash_elems_def equiv_under_def)
qed

text \<open>
  C27: A hash table answers lookups correctly. On a well-formed table, \<^verbatim>\<open>hash_insert\<close> of an
  element that is not in it returns; it answers the equal element the table had, if any, and
  afterwards the key is found and every other key is found as before. \<^verbatim>\<open>hash_delete\<close> then
  removes the key and again leaves every other key alone. The table stays well-formed, and none of
  this depends on whether there is memory for a new set of buckets.
\<close>

theorem hash_insert_delete:
  assumes "hash_ok h" and "length (hash_elems h) + 1 < 2 ^ 32" and "e \<notin> set (hash_elems h)"
  shows "\<exists>r h' h''. hash_insert alloc h e = Some (r, h') \<and> hash_ok h' \<and> hash_find h e = Some r \<and>
    hash_find h' e = Some (Some (case r of None \<Rightarrow> e | Some old \<Rightarrow> old)) \<and>
    (\<forall>x. \<not> equiv_under (hash_less h) e x \<longrightarrow> hash_find h' x = hash_find h x) \<and>
    hash_delete alloc' h' e = Some (Some (case r of None \<Rightarrow> e | Some old \<Rightarrow> old), h'') \<and> hash_ok h'' \<and>
    hash_find h'' e = Some None \<and>
    (\<forall>x. \<not> equiv_under (hash_less h) e x \<longrightarrow> hash_find h'' x = hash_find h x)"
proof -
  have room: "hash_room h" using assms(2) by (simp add: hash_room_def)
  obtain r h' where i: "hash_insert alloc h e = Some (r, h')" "hash_ok h'" "hash_find h e = Some r"
    "hash_find h' e = Some (Some (case r of None \<Rightarrow> e | Some old \<Rightarrow> old))"
    "\<And>x. \<not> hash_same h e x \<Longrightarrow> hash_find h' x = hash_find h x"
    using tab.find_after_insert [OF assms(1) room assms(3)] by blast
  have same: "hash_same h' = hash_same h"
    using hash_insert_ok [OF assms, of alloc] i(1) by (auto simp: hash_same_def)
  obtain r' h'' where d: "hash_delete alloc' h' e = Some (r', h'')" "hash_ok h''" "hash_find h' e = Some r'"
    "hash_find h'' e = Some None" "\<And>x. \<not> hash_same h' e x \<Longrightarrow> hash_find h'' x = hash_find h' x"
    using tab.find_after_delete [OF i(2)] by blast
  show ?thesis using i d same by (auto simp: hash_same_def)
qed

theorem hash_insert_delete_witness:
  "\<exists>r h' h''. hash_insert True demo_hash 34 = Some (r, h') \<and> hash_find h' 34 = Some (Some 34) \<and>
     hash_find h' 21 = Some (Some 21) \<and> hash_delete False h' 34 = Some (Some 34, h'') \<and> hash_find h'' 34 = Some None"
proof -
  have e: "34 \<notin> set (hash_elems demo_hash)" "length (hash_elems demo_hash) + 1 < 2 ^ 32"
    by (simp_all add: demo_hash_def hash_elems_def)
  have f: "hash_find demo_hash 34 = Some None" "hash_find demo_hash 21 = Some (Some 21)"
    "\<not> equiv_under (hash_less demo_hash) 34 21"
    by (simp_all add: demo_hash_def hash_find_def find_bucket_def equiv_under_def)
  show ?thesis using hash_insert_delete [OF demo_hash_ok e(2,1), of True False] f by auto
qed

text \<open>
  C28: Iterating over a table with \<^verbatim>\<open>hash_first\<close> and \<^verbatim>\<open>hash_next\<close> visits every element once
  and then answers the null pointer, in the order in which \<^verbatim>\<open>hash_apply\<close> calls its action.
\<close>

theorem hash_iteration:
  assumes "hash_ok h"
  shows "hash_nexts h hash_first (length (hash_apply h) + 1) = Some (map At (hash_apply h) @ [At_null]) \<and>
    distinct (hash_apply h) \<and> unat (hash_size h) = length (hash_apply h)"
proof -
  note D = hash_okD [OF assms]
  have l: "length (buckets h) = unat (bucket_cnt h)" using D(3) by (simp add: hash_fits_def)
  have "0 < length (buckets h)" using find_bucket_bound [OF D(3), of 0] by linarith
  then have "todo h hash_first (hash_apply h)"
    unfolding todo_def hash_apply_def hash_first_def
    by (intro exI [of _ "[]"] exI [of _ "buckets h ! 0"]) (cases "buckets h", auto)
  then show ?thesis using hash_nexts_todo [OF l D(4)] D(4,6) by (simp add: hash_apply_def hash_elems_def hash_size_def)
qed

theorem hash_iteration_witness:
  "hash_nexts demo_hash hash_first 4 = Some [At 16, At 25, At 21, At_null]"
proof -
  have a: "hash_apply demo_hash = [16, 25, 21]" by (simp add: hash_apply_def demo_hash_def)
  have "length [16 :: ptr, 25, 21] + 1 = 4" by simp
  then show ?thesis using hash_iteration [OF demo_hash_ok] unfolding a by (simp only: list.map append.simps)
qed

section \<open>Strings\<close>

lemma hash_string_loop_bytes:
  assumes "\<And>i. i < n \<Longrightarrow> \<exists>c. m (p + i) = Some c \<and> c \<noteq> 0" and "m (p + n) = Some 0"
  shows "hash_string_loop m p v = hash_bytes_loop m p n v"
  using assms
proof (induction n arbitrary: p v)
  case 0
  then show ?case by (subst hash_string_loop.simps) (simp add: ld_def)
next
  case (Suc n)
  obtain c where c: "m p = Some c" "c \<noteq> 0" using Suc.prems(1) [of 0] by auto
  have "hash_string_loop m (p + 1) w = hash_bytes_loop m (p + 1) n w" for w
    by (rule Suc.IH) (use Suc.prems(1) [of "Suc _"] Suc.prems(2) in auto)
  then show ?case using c by (subst hash_string_loop.simps) (simp add: ld_def)
qed

end
