(* ===== verification/Kvaddr.thy ===== *)
theory Kvaddr
  imports Pintos_Prelude
begin

text \<open>
  Virtual addresses and the entries of page tables: \<^verbatim>\<open>threads/vaddr.h\<close> and
  \<^verbatim>\<open>threads/pte.h\<close>, on 32-bit words, and what the bit operations mean: page number and
  offset of an address, and that an entry gives back the page it was made for.
\<close>

unbundle bit_operations_syntax

section \<open>Addresses\<close>

definition BITMASK :: "nat \<Rightarrow> nat \<Rightarrow> u32" where
  "BITMASK shift cnt = push_bit shift (push_bit cnt 1 - 1)"

definition PGBITS :: nat where
  "PGBITS = 12"

definition PGSIZE :: u32 where
  "PGSIZE = push_bit PGBITS 1"

definition PGMASK :: u32 where
  "PGMASK = BITMASK 0 PGBITS"

definition pg_ofs :: "u32 \<Rightarrow> u32" where
  "pg_ofs va = (va AND PGMASK)"

definition pg_no :: "u32 \<Rightarrow> u32" where
  "pg_no va = drop_bit PGBITS va"

definition pg_round_up :: "u32 \<Rightarrow> u32" where
  "pg_round_up va = ((va + PGSIZE - 1) AND NOT PGMASK)"

definition pg_round_down :: "u32 \<Rightarrow> u32" where
  "pg_round_down va = (va AND NOT PGMASK)"

definition PHYS_BASE :: u32 where
  "PHYS_BASE = 0xc0000000"

definition is_user_vaddr :: "u32 \<Rightarrow> bool" where
  "is_user_vaddr vaddr \<longleftrightarrow> vaddr < PHYS_BASE"

definition is_kernel_vaddr :: "u32 \<Rightarrow> bool" where
  "is_kernel_vaddr vaddr \<longleftrightarrow> vaddr \<ge> PHYS_BASE"

definition ptov :: "u32 \<Rightarrow> u32 option" where
  "ptov paddr = do { ASSERT (paddr < PHYS_BASE); Some (paddr + PHYS_BASE) }"

definition vtop :: "u32 \<Rightarrow> u32 option" where
  "vtop vaddr = do { ASSERT (is_kernel_vaddr vaddr); Some (vaddr - PHYS_BASE) }"

section \<open>Entries of page directories and page tables\<close>

definition PTBITS :: nat where
  "PTBITS = 10"

definition PTSHIFT :: nat where
  "PTSHIFT = PGBITS"

definition PDSHIFT :: nat where
  "PDSHIFT = PTSHIFT + PTBITS"

definition PTMASK :: u32 where
  "PTMASK = BITMASK PTSHIFT PTBITS"

definition pt_no :: "u32 \<Rightarrow> u32" where
  "pt_no va = drop_bit PTSHIFT (va AND PTMASK)"

definition pd_no :: "u32 \<Rightarrow> u32" where
  "pd_no va = drop_bit PDSHIFT va"

definition PTE_ADDR :: u32 where
  "PTE_ADDR = 0xfffff000"

definition PTE_P :: u32 where
  "PTE_P = 0x1"

definition PTE_W :: u32 where
  "PTE_W = 0x2"

definition PTE_U :: u32 where
  "PTE_U = 0x4"

definition PTE_A :: u32 where
  "PTE_A = 0x20"

definition PTE_D :: u32 where
  "PTE_D = 0x40"

definition pde_create :: "u32 \<Rightarrow> u32 option" where
  "pde_create pt =
     do { ASSERT (pg_ofs pt = 0); p \<leftarrow> vtop pt; Some (p OR PTE_U OR PTE_P OR PTE_W) }"

definition pde_get_pt :: "u32 \<Rightarrow> u32 option" where
  "pde_get_pt pde = do { ASSERT (pde AND PTE_P \<noteq> 0); ptov (pde AND PTE_ADDR) }"

definition pte_create_kernel :: "u32 \<Rightarrow> bool \<Rightarrow> u32 option" where
  "pte_create_kernel page writable =
     do { ASSERT (pg_ofs page = 0); p \<leftarrow> vtop page; Some (p OR PTE_P OR (if writable then PTE_W else 0)) }"

definition pte_create_user :: "u32 \<Rightarrow> bool \<Rightarrow> u32 option" where
  "pte_create_user page writable = do { e \<leftarrow> pte_create_kernel page writable; Some (e OR PTE_U) }"

definition pte_get_page :: "u32 \<Rightarrow> u32 option" where
  "pte_get_page pte = ptov (pte AND PTE_ADDR)"

section \<open>Page numbers and offsets\<close>

lemma PGMASK_mask: "PGMASK = mask 12"
  by (simp add: PGMASK_def BITMASK_def PGBITS_def mask_eq_exp_minus_1)

lemma PGSIZE_eq [simp]: "PGSIZE = 4096"
  by (simp add: PGSIZE_def PGBITS_def)

lemma pg_ofs_mod: "pg_ofs va = va mod 4096"
  using take_bit_eq_mod [of 12 va] by (simp add: pg_ofs_def PGMASK_mask take_bit_eq_mask)

lemma pg_no_div: "pg_no va = va div 4096"
  by (simp add: pg_no_def PGBITS_def drop_bit_eq_div)

lemma unat_pg_ofs: "unat (pg_ofs va) = unat va mod 4096"
  by (simp add: pg_ofs_mod unat_mod)

lemma unat_pg_no: "unat (pg_no va) = unat va div 4096"
  by (simp add: pg_no_div unat_div)

lemma pg_ofs_0_iff: "pg_ofs va = 0 \<longleftrightarrow> 4096 dvd unat va"
  by (simp add: unat_pg_ofs dvd_eq_mod_eq_0 flip: unat_eq_0)

lemma and_not_PGMASK: "va AND NOT PGMASK = push_bit 12 (drop_bit 12 va)"
  by (rule bit_eqI) (auto simp: PGMASK_mask bit_simps)

lemma split_page: "pg_round_down va + pg_ofs va = va"
  unfolding pg_round_down_def and_not_PGMASK
  using bits_ident [of 12 va] by (simp add: pg_ofs_def PGMASK_mask take_bit_eq_mask)

lemma unat_pg_round_down: "unat (pg_round_down va) = unat va div 4096 * 4096"
proof -
  have "pg_round_down va = va - pg_ofs va" using split_page [of va] by (metis add_diff_cancel_right')
  moreover have "pg_ofs va \<le> va" by (simp add: word_le_nat_alt unat_pg_ofs)
  ultimately have "unat (pg_round_down va) = unat va - unat va mod 4096" by (simp add: unat_sub unat_pg_ofs)
  then show ?thesis by (simp add: minus_mod_eq_div_mult)
qed

lemma pg_round_down_ofs: "pg_ofs (pg_round_down va) = 0"
  by (simp add: pg_ofs_0_iff unat_pg_round_down)

lemma pg_round_down_aligned: "pg_ofs va = 0 \<Longrightarrow> pg_round_down va = va"
  using split_page [of va] by simp

section \<open>Physical and virtual addresses\<close>

lemma vtop_ptov:
  assumes "ptov p = Some v" and "p < 0x40000000"
  shows "vtop v = Some p \<and> is_kernel_vaddr v"
proof -
  have v: "v = p + PHYS_BASE" using assms(1) by (simp add: ptov_def ASSERT_def split: if_splits)
  have "unat v = unat p + 0xc0000000"
    using assms(2) unfolding v PHYS_BASE_def by (simp add: unat_word_ariths word_less_nat_alt)
  then have "is_kernel_vaddr v" by (simp add: is_kernel_vaddr_def PHYS_BASE_def word_le_nat_alt)
  then show ?thesis by (simp add: vtop_def v)
qed

lemma kernel_unat: "is_kernel_vaddr v \<Longrightarrow> unat (v - PHYS_BASE) = unat v - 0xc0000000"
  by (simp add: is_kernel_vaddr_def PHYS_BASE_def unat_sub)

lemma ptov_vtop:
  assumes "vtop v = Some p"
  shows "ptov p = Some v" and "p < 0x40000000" and "is_kernel_vaddr v"
proof -
  show k: "is_kernel_vaddr v" using assms by (auto simp: vtop_def ASSERT_def split: if_splits)
  have p: "p = v - PHYS_BASE" using assms by (auto simp: vtop_def ASSERT_def split: if_splits)
  have "unat p < 0x40000000" using kernel_unat [OF k] unsigned_less [where 'a = nat, of v] p by simp
  then show "p < 0x40000000" by (simp add: word_less_nat_alt)
  then have "p < PHYS_BASE" by (simp add: PHYS_BASE_def word_less_nat_alt)
  then show "ptov p = Some v" by (simp add: ptov_def p)
qed

section \<open>What an entry holds\<close>

lemma PTE_ADDR_not: "PTE_ADDR = NOT PGMASK"
  by (simp add: PTE_ADDR_def PGMASK_def BITMASK_def PGBITS_def)

lemma and_PTE_ADDR: "p AND PTE_ADDR = pg_round_down p"
  by (simp add: PTE_ADDR_not pg_round_down_def)

lemma kernel_page_aligned:
  assumes "pg_ofs v = 0" and "vtop v = Some p"
  shows "pg_ofs p = 0"
proof -
  have p: "p = v - PHYS_BASE" and k: "is_kernel_vaddr v"
    using assms(2) by (auto simp: vtop_def ASSERT_def split: if_splits)
  have "4096 dvd unat v - 0xc0000000" using assms(1) by (intro dvd_diff_nat) (simp_all add: pg_ofs_0_iff)
  then show ?thesis using kernel_unat [OF k] p by (simp add: pg_ofs_0_iff)
qed

text \<open>Flags below the address bits do not disturb the address of an aligned page.\<close>

lemma flags_address:
  assumes "pg_ofs p = 0" and "f AND NOT PGMASK = 0"
  shows "(p OR f) AND PTE_ADDR = p"
proof -
  have "(p OR f) AND PTE_ADDR = (p AND NOT PGMASK) OR (f AND NOT PGMASK)" by (simp add: PTE_ADDR_not bit.conj_disj_distrib2)
  then show ?thesis using assms pg_round_down_aligned [OF assms(1)] by (simp add: pg_round_down_def)
qed

lemma aligned_flag:
  assumes "pg_ofs p = 0" and "f AND PGMASK = f"
  shows "p AND f = 0"
proof -
  have "p AND f = (p AND PGMASK) AND f" using assms(2) by (metis and.assoc and.commute)
  then show ?thesis using assms(1) by (simp add: pg_ofs_def)
qed

lemma pde_roundtrip:
  assumes "pg_ofs pt = 0" and "is_kernel_vaddr pt"
  obtains e where "pde_create pt = Some e" and "pde_get_pt e = Some pt" and "e AND PTE_P \<noteq> 0" and "e \<noteq> 0"
proof -
  obtain p where p: "vtop pt = Some p" using assms(2) by (simp add: vtop_def)
  let ?e = "p OR (PTE_U OR PTE_P OR PTE_W)"
  note al = kernel_page_aligned [OF assms(1) p]
  have f: "(PTE_U OR PTE_P OR PTE_W) AND NOT PGMASK = 0"
    by (simp add: PTE_U_def PTE_P_def PTE_W_def PGMASK_def BITMASK_def PGBITS_def)
  have "?e AND PTE_P = PTE_P"
    using aligned_flag [OF al, of PTE_P]
    by (simp add: bit.conj_disj_distrib2 PTE_U_def PTE_P_def PTE_W_def PGMASK_def BITMASK_def PGBITS_def)
  then have pr: "?e AND PTE_P \<noteq> 0" by (simp add: PTE_P_def)
  have g: "pde_get_pt ?e = Some pt" using pr flags_address [OF al f] ptov_vtop(1) [OF p] by (simp add: pde_get_pt_def)
  show thesis
    by (rule that [of ?e]) (use assms(1) p pr g in \<open>auto simp: pde_create_def or.assoc\<close>)
qed

lemma pte_roundtrip:
  assumes "pg_ofs page = 0" and "is_kernel_vaddr page"
  obtains e where "pte_create_user page w = Some e" and "pte_get_page e = Some page" and "e AND PTE_P \<noteq> 0"
    and "(e AND PTE_W \<noteq> 0) = w" and "e AND PTE_U \<noteq> 0"
proof -
  obtain p where p: "vtop page = Some p" using assms(2) by (simp add: vtop_def)
  let ?f = "PTE_P OR (if w then PTE_W else 0) OR PTE_U"
  let ?e = "p OR ?f"
  note al = kernel_page_aligned [OF assms(1) p]
  note entry = PTE_U_def PTE_P_def PTE_W_def PGMASK_def BITMASK_def PGBITS_def
  have f: "?f AND NOT PGMASK = 0" by (simp add: entry)
  have z: "p AND PTE_P = 0" "p AND PTE_W = 0" "p AND PTE_U = 0"
    by (rule aligned_flag [OF al]; simp add: entry)+
  have b: "?e AND PTE_P \<noteq> 0" "(?e AND PTE_W \<noteq> 0) = w" "?e AND PTE_U \<noteq> 0"
    using z by (simp_all add: bit.conj_disj_distrib2 entry)
  have g: "pte_get_page ?e = Some page" using flags_address [OF al f] ptov_vtop(1) [OF p] by (simp add: pte_get_page_def)
  show thesis
    by (rule that [of ?e])
      (use assms(1) p b g in \<open>auto simp: pte_create_user_def pte_create_kernel_def or.assoc or.left_commute or.commute\<close>)
qed

text \<open>The two indices and the offset of an address determine it.\<close>

lemma unat_pd_no: "unat (pd_no va) = unat va div 2 ^ 22"
  by (simp add: pd_no_def PDSHIFT_def PTSHIFT_def PTBITS_def PGBITS_def drop_bit_eq_div unat_div)

lemma PTMASK_mask: "PTMASK = push_bit 12 (mask 10)"
  by (simp add: PTMASK_def BITMASK_def PTSHIFT_def PTBITS_def PGBITS_def mask_eq_exp_minus_1)

lemma unat_pt_no: "unat (pt_no va) = unat va div 2 ^ 12 mod 2 ^ 10"
proof -
  have "pt_no va = take_bit 10 (drop_bit 12 va)"
    by (rule bit_eqI) (auto simp: pt_no_def PTMASK_mask PTSHIFT_def PGBITS_def bit_simps)
  then show ?thesis by (simp add: take_bit_eq_mod drop_bit_eq_div unat_mod unat_div)
qed

lemma index_bounds: "unat (pd_no va) < 1024" "unat (pt_no va) < 1024"
proof -
  have "unat va < 2 ^ 32" using unsigned_less [where 'a = nat, of va] by simp
  then show "unat (pd_no va) < 1024" by (simp add: unat_pd_no)
qed (simp add: unat_pt_no)

lemma same_indices:
  assumes "pd_no a = pd_no b" and "pt_no a = pt_no b"
  shows "pg_no a = pg_no b"
proof -
  have split: "unat (pg_no x) = unat (pd_no x) * 1024 + unat (pt_no x)" for x
    using div_mult_mod_eq [of "unat x div 2 ^ 12" 1024] by (simp add: unat_pg_no unat_pd_no unat_pt_no div_mult2_eq [symmetric])
  show ?thesis using split [of a] split [of b] assms by (simp add: word_unat_eq_iff)
qed

lemma same_pages:
  assumes "pg_no a = pg_no b"
  shows "pd_no a = pd_no b" and "pt_no a = pt_no b"
proof -
  have e: "unat a div 4096 = unat b div 4096" using assms by (metis unat_pg_no)
  have "unat x div 2 ^ 22 = unat x div 4096 div 1024" for x :: u32 by (simp add: div_mult2_eq [symmetric])
  then show "pd_no a = pd_no b" using e by (simp add: word_unat_eq_iff unat_pd_no)
  show "pt_no a = pt_no b" using e by (simp add: word_unat_eq_iff unat_pt_no)
qed

end
