(* ===== verification/Kpalloc.thy ===== *)
theory Kpalloc
  imports Kvaddr Kbitmap "HOL-Library.Signed_Division"
begin

text \<open>
  The page allocator: \<^verbatim>\<open>threads/palloc.c\<close>. A pool is a bitmap and the address of its first
  page. Memory is seen as 32-bit words at their addresses, as the page tables use it;
  \<^verbatim>\<open>memset\<close> of whole pages fills the words. The lock of a pool makes the scan of its bitmap
  atomic and has no other effect here.
\<close>

unbundle bit_operations_syntax

section \<open>State\<close>

type_synonym wmem = "u32 \<rightharpoonup> u32"

record pool =
  used_map :: bitmap
  base :: u32

record palloc =
  kernel_pool :: pool
  user_pool :: pool
  pmem :: wmem

definition PAL_ASSERT :: u32 where
  "PAL_ASSERT = 1"

definition PAL_ZERO :: u32 where
  "PAL_ZERO = 2"

definition PAL_USER :: u32 where
  "PAL_USER = 4"

fun memset_words :: "wmem \<Rightarrow> u32 \<Rightarrow> u32 \<Rightarrow> nat \<Rightarrow> wmem option" where
  "memset_words m p v 0 = Some m"
| "memset_words m p v (Suc n) = (if m p = None then None else memset_words (m(p \<mapsto> v)) (p + 4) v n)"

text \<open>The number of words that \<open>PGSIZE * page_cnt\<close> bytes fill, a product of type \<^verbatim>\<open>size_t\<close>.\<close>

definition words_of_pages :: "nat \<Rightarrow> nat" where
  "words_of_pages page_cnt = size_wrap (unat PGSIZE * page_cnt) div 4"

section \<open>Operations\<close>



definition pool_of :: "u32 \<Rightarrow> palloc \<Rightarrow> pool" where
  "pool_of flags s = (if flags AND PAL_USER \<noteq> 0 then user_pool s else kernel_pool s)"

definition set_pool_of :: "u32 \<Rightarrow> bitmap \<Rightarrow> palloc \<Rightarrow> palloc" where
  "set_pool_of flags b s =
     (if flags AND PAL_USER \<noteq> 0 then s\<lparr>user_pool := (user_pool s)\<lparr>used_map := b\<rparr>\<rparr>
      else s\<lparr>kernel_pool := (kernel_pool s)\<lparr>used_map := b\<rparr>\<rparr>)"

definition palloc_get_multiple :: "u32 \<Rightarrow> nat \<Rightarrow> palloc \<Rightarrow> (u32 \<times> palloc) option" where
  "palloc_get_multiple flags page_cnt s =
     (if page_cnt = 0 then Some (0, s)
      else do {
        let pool = pool_of flags s;
        (page_idx, b) \<leftarrow> bitmap_scan_and_flip (used_map pool) 0 page_cnt False;
        let s = set_pool_of flags b s;
        let pages = (if page_idx \<noteq> BITMAP_ERROR then base pool + PGSIZE * of_nat page_idx else 0);
        if pages \<noteq> 0
        then (if flags AND PAL_ZERO \<noteq> 0
              then do {
                m \<leftarrow> memset_words (pmem s) pages 0 (words_of_pages page_cnt);
                Some (pages, s\<lparr>pmem := m\<rparr>)
              }
              else Some (pages, s))
        else (if flags AND PAL_ASSERT \<noteq> 0 then None else Some (pages, s))
      })"

definition palloc_get_page :: "u32 \<Rightarrow> palloc \<Rightarrow> (u32 \<times> palloc) option" where
  "palloc_get_page flags s = palloc_get_multiple flags 1 s"

definition page_from_pool :: "pool \<Rightarrow> u32 \<Rightarrow> bool" where
  "page_from_pool p page \<longleftrightarrow>
     (let page_no = pg_no page;
          start_page = pg_no (base p);
          end_page = start_page + of_nat (bitmap_size (used_map p))
      in page_no \<ge> start_page \<and> page_no < end_page)"

definition palloc_free_multiple :: "u32 \<Rightarrow> nat \<Rightarrow> palloc \<Rightarrow> palloc option" where
  "palloc_free_multiple pages page_cnt s =
     do {
       ASSERT (pg_ofs pages = 0);
       if pages = 0 \<or> page_cnt = 0 then Some s
       else do {
         flags \<leftarrow> (if page_from_pool (kernel_pool s) pages then Some 0
                   else if page_from_pool (user_pool s) pages then Some PAL_USER
                   else None);
         let pool = pool_of flags s;
         let page_idx = unat (pg_no pages - pg_no (base pool));
         m \<leftarrow> memset_words (pmem s) pages 0xcccccccc (words_of_pages page_cnt);
         used \<leftarrow> bitmap_all (used_map pool) page_idx page_cnt;
         ASSERT used;
         b \<leftarrow> bitmap_set_multiple (used_map pool) page_idx page_cnt False;
         Some (set_pool_of flags b (s\<lparr>pmem := m\<rparr>))
       }
     }"

definition palloc_free_page :: "u32 \<Rightarrow> palloc \<Rightarrow> palloc option" where
  "palloc_free_page page s = palloc_free_multiple page 1 s"

section \<open>Filling memory\<close>

definition words_in :: "u32 \<Rightarrow> nat \<Rightarrow> u32 set" where
  "words_in p n = {a. unat p \<le> unat a \<and> unat a < unat p + 4 * n \<and> 4 dvd unat a}"

lemma unat_plus_4: "unat p + 4 < 2 ^ 32 \<Longrightarrow> unat (p + 4 :: u32) = unat p + 4"
  by (simp add: unat_word_ariths)

lemma words_in_Suc:
  assumes "4 dvd unat p" and "unat p + 4 * Suc n \<le> 2 ^ 32"
  shows "words_in p (Suc n) = insert p (words_in (p + 4) n)" and "n > 0 \<Longrightarrow> 4 dvd unat (p + 4) \<and> unat (p + 4) + 4 * n \<le> 2 ^ 32"
proof -
  show "n > 0 \<Longrightarrow> 4 dvd unat (p + 4) \<and> unat (p + 4) + 4 * n \<le> 2 ^ 32"
    using unat_plus_4 [of p] assms by simp
  have "a \<in> words_in p (Suc n) \<longleftrightarrow> a = p \<or> a \<in> words_in (p + 4) n" for a
  proof (cases "n = 0")
    case True
    have "unat p \<le> unat a \<and> unat a < unat p + 4 \<and> 4 dvd unat a \<longleftrightarrow> unat a = unat p" using assms(1) by presburger
    then show ?thesis using True by (auto simp: words_in_def word_unat_eq_iff)
  next
    case False
    then have u: "unat (p + 4) = unat p + 4" using unat_plus_4 [of p] assms by simp
    have "unat p \<le> unat a \<and> unat a < unat p + 4 * Suc n \<and> 4 dvd unat a \<longleftrightarrow>
        unat a = unat p \<or> unat p + 4 \<le> unat a \<and> unat a < unat p + 4 + 4 * n \<and> 4 dvd unat a"
      using assms(1) False by presburger
    then show ?thesis by (simp add: words_in_def u word_unat_eq_iff)
  qed
  then show "words_in p (Suc n) = insert p (words_in (p + 4) n)" by auto
qed

lemma words_in_0 [simp]: "words_in p 0 = {}"
  by (auto simp: words_in_def)

lemma memset_words_ok:
  assumes "4 dvd unat p" and "unat p + 4 * n \<le> 2 ^ 32" and "words_in p n \<subseteq> dom m"
  shows "memset_words m p v n = Some (\<lambda>a. if a \<in> words_in p n then Some v else m a)"
  using assms
proof (induction n arbitrary: m p)
  case (Suc n)
  note w = words_in_Suc [OF Suc.prems(1,2)]
  have p: "m p \<noteq> None" using Suc.prems(3) w(1) by auto
  show ?case
  proof (cases "n = 0")
    case True
    then show ?thesis using p w(1) by (auto simp: fun_eq_iff)
  next
    case False
    have "words_in (p + 4) n \<subseteq> dom (m(p \<mapsto> v))" using Suc.prems(3) w(1) by auto
    then have "memset_words (m(p \<mapsto> v)) (p + 4) v n = Some (\<lambda>a. if a \<in> words_in (p + 4) n then Some v else (m(p \<mapsto> v)) a)"
      using Suc.IH [of "p + 4" "m(p \<mapsto> v)"] w(2) False by blast
    moreover have "(\<lambda>a. if a \<in> words_in (p + 4) n then Some v else (m(p \<mapsto> v)) a) =
        (\<lambda>a. if a \<in> words_in p (Suc n) then Some v else m a)" using w(1) by (auto simp: fun_eq_iff)
    ultimately show ?thesis using p by simp
  qed
qed auto

section \<open>Well-formed pools\<close>

definition pool_ok :: "wmem \<Rightarrow> pool \<Rightarrow> bool" where
  "pool_ok m p \<longleftrightarrow> bm_inv (used_map p) \<and> pg_ofs (base p) = 0 \<and> is_kernel_vaddr (base p) \<and>
     unat (base p) + 4096 * bit_cnt (used_map p) \<le> 2 ^ 32 \<and>
     words_in (base p) (1024 * bit_cnt (used_map p)) \<subseteq> dom m"

definition palloc_ok :: "palloc \<Rightarrow> bool" where
  "palloc_ok s \<longleftrightarrow> pool_ok (pmem s) (kernel_pool s) \<and> pool_ok (pmem s) (user_pool s) \<and>
     unat (base (kernel_pool s)) + 4096 * bit_cnt (used_map (kernel_pool s)) \<le> unat (base (user_pool s))"

text \<open>The address of a page of a pool, and the words of a group of its pages.\<close>

definition page_at :: "pool \<Rightarrow> nat \<Rightarrow> u32" where
  "page_at p i = base p + PGSIZE * of_nat i"

definition page_words :: "pool \<Rightarrow> nat \<Rightarrow> nat \<Rightarrow> u32 set" where
  "page_words p i n = words_in (page_at p i) (1024 * n)"

lemma pool_okD:
  assumes "pool_ok m p"
  shows "bm_inv (used_map p)" and "4096 dvd unat (base p)" and "0xc0000000 \<le> unat (base p)"
    and "unat (base p) + 4096 * bit_cnt (used_map p) \<le> 2 ^ 32"
    and "words_in (base p) (1024 * bit_cnt (used_map p)) \<subseteq> dom m"
  using assms by (auto simp: pool_ok_def pg_ofs_0_iff is_kernel_vaddr_def PHYS_BASE_def word_le_nat_alt)

lemma unat_page_at:
  assumes "pool_ok m p" and "i < bit_cnt (used_map p)"
  shows "unat (page_at p i) = unat (base p) + 4096 * i"
proof -
  have b: "unat (base p) + 4096 * i < 2 ^ 32" using pool_okD(4) [OF assms(1)] assms(2) by linarith
  have "page_at p i = of_nat (unat (base p) + 4096 * i)" by (simp add: page_at_def)
  then have "unat (page_at p i) = (unat (base p) + 4096 * i) mod 2 ^ 32" by (simp only: unat_of_nat) simp
  then show ?thesis using b by simp
qed

lemma page_at_props:
  assumes "pool_ok m p" and "i + n \<le> bit_cnt (used_map p)" and "0 < n"
  shows "unat (page_at p i) = unat (base p) + 4096 * i" and "pg_ofs (page_at p i) = 0" and "page_at p i \<noteq> 0"
    and "is_kernel_vaddr (page_at p i)" and "page_words p i n \<subseteq> dom m" and "4 dvd unat (page_at p i)"
    and "unat (page_at p i) + 4 * (1024 * n) \<le> 2 ^ 32"
    and "unat (pg_no (page_at p i)) = unat (pg_no (base p)) + i"
    and "words_of_pages n = 1024 * n"
proof -
  note D = pool_okD [OF assms(1)]
  have "i < bit_cnt (used_map p)" using assms(2,3) by simp
  from unat_page_at [OF assms(1) this] show u: "unat (page_at p i) = unat (base p) + 4096 * i" .
  have al: "4096 dvd unat (base p) + 4096 * i" using D(2) by simp
  show "pg_ofs (page_at p i) = 0" using al u by (simp add: pg_ofs_0_iff)
  show "page_at p i \<noteq> 0" using u D(3) by (auto simp: word_unat_eq_iff)
  show "is_kernel_vaddr (page_at p i)" using u D(3) by (simp add: is_kernel_vaddr_def PHYS_BASE_def word_le_nat_alt)
  show "page_words p i n \<subseteq> dom m"
  proof -
    have "4096 * i + 4096 * n \<le> 4096 * bit_cnt (used_map p)" using assms(2) by linarith
    then have "page_words p i n \<subseteq> words_in (base p) (1024 * bit_cnt (used_map p))"
      using u by (auto simp: page_words_def words_in_def)
    then show ?thesis using D(5) by blast
  qed
  show "4 dvd unat (page_at p i)" using dvd_trans [OF _ al, of 4] u by simp
  have "4096 * n < 2 ^ 32" using u D(3,4) assms(2) by linarith
  then show "words_of_pages n = 1024 * n" by (simp add: words_of_pages_def size_wrap_def PGSIZE_def PGBITS_def)
  show "unat (page_at p i) + 4 * (1024 * n) \<le> 2 ^ 32" using u D(4) assms(2) by linarith
  show "unat (pg_no (page_at p i)) = unat (pg_no (base p)) + i" using u by (simp add: unat_pg_no)
qed

lemma pool_ok_upd:
  assumes "pool_ok m p" and "bm_inv b" and "bit_cnt b = bit_cnt (used_map p)" and "dom m \<subseteq> dom m'"
  shows "pool_ok m' (p\<lparr>used_map := b\<rparr>)"
  using assms(1-3) subset_trans [OF _ assms(4)] by (simp add: pool_ok_def)

lemma pool_ok_mem: "pool_ok m p \<Longrightarrow> dom m \<subseteq> dom m' \<Longrightarrow> pool_ok m' p"
  using pool_ok_upd [of m p "used_map p" m'] pool_okD(1) [of m p] by simp

lemma palloc_ok_pool: "palloc_ok s \<Longrightarrow> pool_ok (pmem s) (pool_of f s)"
  by (simp add: palloc_ok_def pool_of_def)

lemma set_pool_simps [simp]:
  "pmem (set_pool_of f b s) = pmem s" "pool_of f (set_pool_of f b s) = (pool_of f s)\<lparr>used_map := b\<rparr>"
  "pool_of f (s\<lparr>pmem := m\<rparr>) = pool_of f s" "set_pool_of f b (set_pool_of f c s) = set_pool_of f b s"
  "set_pool_of f b (s\<lparr>pmem := m\<rparr>) = (set_pool_of f b s)\<lparr>pmem := m\<rparr>"
  by (simp_all add: set_pool_of_def pool_of_def)

lemma set_pool_same: "set_pool_of f (used_map (pool_of f s)) s = s"
  by (simp add: set_pool_of_def pool_of_def)

lemma palloc_ok_upd:
  assumes "palloc_ok s" and "bm_inv b" and "bit_cnt b = bit_cnt (used_map (pool_of f s))" and "dom (pmem s) \<subseteq> dom m"
  shows "palloc_ok ((set_pool_of f b s)\<lparr>pmem := m\<rparr>)"
  using assms pool_ok_upd [of "pmem s" _ b m] pool_ok_mem [of "pmem s" _ m]
  by (simp add: palloc_ok_def set_pool_of_def pool_of_def split: if_splits)

section \<open>Taking and giving back pages\<close>

text \<open>The two outcomes of a request.\<close>

lemma palloc_get_cases:
  assumes ok: "palloc_ok s" and n: "0 < n"
  obtains (got) i b m where "palloc_get_multiple f n s = Some (page_at (pool_of f s) i, (set_pool_of f b s)\<lparr>pmem := m\<rparr>)"
      and "i + n \<le> bit_cnt (used_map (pool_of f s))" and "{i..<i + n} \<inter> bm_used (used_map (pool_of f s)) = {}"
      and "bm_inv b" and "bit_cnt b = bit_cnt (used_map (pool_of f s))"
      and "bm_used b = bm_used (used_map (pool_of f s)) \<union> {i..<i + n}"
      and "m = (\<lambda>a. if f AND PAL_ZERO \<noteq> 0 \<and> a \<in> page_words (pool_of f s) i n then Some 0 else pmem s a)"
  | (none) "palloc_get_multiple f n s = (if f AND PAL_ASSERT \<noteq> 0 then None else Some (0, s))"
      and "\<And>i. i + n \<le> bit_cnt (used_map (pool_of f s)) \<Longrightarrow> {i..<i + n} \<inter> bm_used (used_map (pool_of f s)) \<noteq> {}"
proof -
  let ?p = "pool_of f s"
  have p: "pool_ok (pmem s) ?p" by (rule palloc_ok_pool [OF ok])
  note inv = pool_okD(1) [OF p]
  show thesis
  proof (cases "\<exists>j. group_at (used_map ?p) n False j")
    case True
    then obtain j where j: "group_at (used_map ?p) n False j" by blast
    obtain i b where sc: "bitmap_scan_and_flip (used_map ?p) 0 n False = Some (i, b)" "bm_inv b"
      "group_at (used_map ?p) n False i" "bm_bits b = fill_segment (bm_bits (used_map ?p)) i n True"
      using bitmap_scan_and_flip_found [OF inv _ _ j, of 0] by auto
    have i: "i + n \<le> bit_cnt (used_map ?p)" "{i..<i + n} \<inter> bm_used (used_map ?p) = {}" using sc(3) by (simp_all add: group_at_free)
    note u = bm_used_fill [OF sc(4) i(1)] and a = page_at_props [OF p i(1) n]
    have ne: "i \<noteq> BITMAP_ERROR" by (rule group_at_not_error [OF inv sc(3)])
    have ms: "memset_words (pmem s) (page_at ?p i) 0 (1024 * n) =
        Some (\<lambda>a. if a \<in> page_words ?p i n then Some 0 else pmem s a)"
      unfolding page_words_def by (rule memset_words_ok) (use a in \<open>simp_all add: page_words_def\<close>)
    let ?m = "\<lambda>a. if f AND PAL_ZERO \<noteq> 0 \<and> a \<in> page_words ?p i n then Some 0 else pmem s a"
    have "palloc_get_multiple f n s = Some (page_at ?p i, (set_pool_of f b s)\<lparr>pmem := ?m\<rparr>)"
      using n sc(1) ne ms a(3,9) by (simp add: palloc_get_multiple_def Let_def page_at_def)
    then show thesis using got [of i ?m b] i sc(2) u by simp
  next
    case False
    then have sc: "bitmap_scan_and_flip (used_map ?p) 0 n False = Some (BITMAP_ERROR, used_map ?p)"
      by (intro bitmap_scan_and_flip_none [OF inv]) auto
    have "palloc_get_multiple f n s = (if f AND PAL_ASSERT \<noteq> 0 then None else Some (0, s))"
      using n sc by (simp add: palloc_get_multiple_def Let_def set_pool_same)
    then show thesis using none False by (auto simp: group_at_free)
  qed
qed

lemma page_from_pool_iff:
  assumes "pool_ok m p"
  shows "page_from_pool p a \<longleftrightarrow>
    unat (base p) div 4096 \<le> unat a div 4096 \<and> unat a div 4096 < unat (base p) div 4096 + bit_cnt (used_map p)"
proof -
  note D = pool_okD [OF assms]
  let ?c = "bit_cnt (used_map p)"
  have "unat (base p) div 4096 + ?c = (unat (base p) + 4096 * ?c) div 4096" by simp
  also have "\<dots> \<le> 2 ^ 32 div 4096" by (rule div_le_mono [OF D(4)])
  finally have b: "unat (base p) div 4096 + ?c < 2 ^ 32" by simp
  then have "unat (of_nat ?c :: u32) = ?c" by (simp add: unat_of_nat)
  then have "unat (pg_no (base p) + of_nat ?c) = unat (base p) div 4096 + ?c"
    using b by (simp add: unat_word_ariths unat_pg_no)
  then show ?thesis
    by (simp add: page_from_pool_def Let_def bitmap_size_def word_le_nat_alt word_less_nat_alt unat_pg_no)
qed

lemma pool_of_page:
  assumes ok: "palloc_ok s" and f: "f = 0 \<or> f = PAL_USER" and i: "i < bit_cnt (used_map (pool_of f s))"
  shows "(if page_from_pool (kernel_pool s) (page_at (pool_of f s) i) then Some 0
      else if page_from_pool (user_pool s) (page_at (pool_of f s) i) then Some PAL_USER else None) = Some f"
    and "unat (pg_no (page_at (pool_of f s) i) - pg_no (base (pool_of f s))) = i"
proof -
  let ?p = "pool_of f s"
  have p: "pool_ok (pmem s) ?p" and k: "pool_ok (pmem s) (kernel_pool s)" and u: "pool_ok (pmem s) (user_pool s)"
    using ok palloc_ok_pool by (auto simp: palloc_ok_def)
  have n: "unat (page_at ?p i) div 4096 = unat (base ?p) div 4096 + i" using unat_page_at [OF p i] by simp
  have no: "unat (pg_no (page_at ?p i)) = unat (pg_no (base ?p)) + i" using n by (simp add: unat_pg_no)
  then show "unat (pg_no (page_at ?p i) - pg_no (base ?p)) = i"
    by (simp add: unat_sub word_le_nat_alt)
  have own: "page_from_pool ?p (page_at ?p i)" using page_from_pool_iff [OF p] n i by simp
  have "\<not> page_from_pool (kernel_pool s) (page_at (user_pool s) j)" if "j < bit_cnt (used_map (user_pool s))" for j
  proof -
    have "unat (base (kernel_pool s)) div 4096 + bit_cnt (used_map (kernel_pool s)) =
        (unat (base (kernel_pool s)) + 4096 * bit_cnt (used_map (kernel_pool s))) div 4096" by simp
    also have "\<dots> \<le> unat (base (user_pool s)) div 4096" using ok by (intro div_le_mono) (simp add: palloc_ok_def)
    finally show ?thesis using page_from_pool_iff [OF k] unat_page_at [OF u that] by simp
  qed
  then show "(if page_from_pool (kernel_pool s) (page_at ?p i) then Some 0
      else if page_from_pool (user_pool s) (page_at ?p i) then Some PAL_USER else None) = Some f"
    using f own i by (auto simp: pool_of_def PAL_USER_def)
qed

text \<open>Pages that are all in use are taken back; otherwise the kernel stops.\<close>

lemma palloc_free_cases:
  assumes ok: "palloc_ok s" and f: "f = 0 \<or> f = PAL_USER" and n: "0 < n"
    and i: "i + n \<le> bit_cnt (used_map (pool_of f s))"
  obtains (freed) b where "{i..<i + n} \<subseteq> bm_used (used_map (pool_of f s))"
      and "palloc_free_multiple (page_at (pool_of f s) i) n s = Some ((set_pool_of f b s)\<lparr>pmem :=
        (\<lambda>a. if a \<in> page_words (pool_of f s) i n then Some 0xcccccccc else pmem s a)\<rparr>)"
      and "bm_inv b" and "bit_cnt b = bit_cnt (used_map (pool_of f s))"
      and "bm_used b = bm_used (used_map (pool_of f s)) - {i..<i + n}"
  | (wild) "\<not> {i..<i + n} \<subseteq> bm_used (used_map (pool_of f s))"
      and "palloc_free_multiple (page_at (pool_of f s) i) n s = None"
proof -
  let ?p = "pool_of f s"
  have p: "pool_ok (pmem s) ?p" by (rule palloc_ok_pool [OF ok])
  note inv = pool_okD(1) [OF p] and a = page_at_props [OF p i n]
  have i': "i < bit_cnt (used_map ?p)" using i n by simp
  note po = pool_of_page [OF ok f i']
  have ms: "memset_words (pmem s) (page_at ?p i) 0xcccccccc (1024 * n) =
      Some (\<lambda>a. if a \<in> page_words ?p i n then Some 0xcccccccc else pmem s a)"
    unfolding page_words_def by (rule memset_words_ok) (use a in \<open>simp_all add: page_words_def\<close>)
  have all: "(\<forall>j\<in>{i..<i + n}. bm_bit (used_map ?p) j) \<longleftrightarrow> {i..<i + n} \<subseteq> bm_used (used_map ?p)"
    using i by (auto simp: bm_used_def)
  obtain b where b: "bitmap_set_multiple (used_map ?p) i n False = Some b" "bm_inv b"
    "bm_bits b = fill_segment (bm_bits (used_map ?p)) i n False" using bitmap_set_multiple_bits [OF inv i] by blast
  note u = bm_used_fill [OF b(3) i]
  let ?m = "\<lambda>a. if a \<in> page_words ?p i n then Some 0xcccccccc else pmem s a"
  have "palloc_free_multiple (page_at ?p i) n s =
      (if {i..<i + n} \<subseteq> bm_used (used_map ?p) then Some ((set_pool_of f b s)\<lparr>pmem := ?m\<rparr>) else None)"
    using a(2,3,9) n po ms bitmap_all_bits [OF inv i] all b(1)
    by (simp add: palloc_free_multiple_def Let_def del: if_split_asm cong: if_cong)
  then show thesis using freed [of b] wild b(2) u by (cases "{i..<i + n} \<subseteq> bm_used (used_map ?p)") simp_all
qed

text \<open>
  The two pools as allocators of numbered pages: the answer of a request is the number of its
  first page in the pool. A request for no pages gets the null pointer, and holds nothing.
\<close>

definition pages_take :: "u32 \<Rightarrow> nat \<Rightarrow> palloc \<Rightarrow> (nat option \<times> palloc) option" where
  "pages_take f n s =
     (if n = 0 then Some (Some 0, s)
      else do {
        (p, s') \<leftarrow> palloc_get_multiple f n s;
        Some (if p = 0 then None else Some (unat (pg_no p - pg_no (base (pool_of f s)))), s')
      })"

definition pages_give :: "u32 \<Rightarrow> nat \<Rightarrow> nat \<Rightarrow> palloc \<Rightarrow> palloc option" where
  "pages_give f i n s = palloc_free_multiple (if n = 0 then 0 else page_at (pool_of f s) i) n s"

abbreviation pool_used :: "u32 \<Rightarrow> palloc \<Rightarrow> nat set" where
  "pool_used f s \<equiv> bm_used (used_map (pool_of f s))"

abbreviation pool_size :: "u32 \<Rightarrow> palloc \<Rightarrow> nat" where
  "pool_size f s \<equiv> bit_cnt (used_map (pool_of f s))"

lemma dom_upd_subset: "dom m \<subseteq> dom (\<lambda>a. if P a then Some v else m a)"
  by (auto simp: dom_def)

lemma pages_take_cases:
  assumes ok: "palloc_ok s" and f: "f = 0 \<or> f = PAL_USER"
  obtains (got) i s' where "pages_take f n s = Some (Some i, s')" and "palloc_ok s'" and "pool_size f s' = pool_size f s"
      and "i + n \<le> pool_size f s" and "{i..<i + n} \<inter> pool_used f s = {}" and "pool_used f s' = pool_used f s \<union> {i..<i + n}"
  | (none) "pages_take f n s = Some (None, s)"
      and "\<And>i. i + n \<le> pool_size f s \<Longrightarrow> {i..<i + n} \<inter> pool_used f s \<noteq> {}"
proof (cases "n = 0")
  case True
  then show thesis using got [of 0 s] ok by (simp add: pages_take_def)
next
  case False
  then have n: "0 < n" by simp
  note p = palloc_ok_pool [OF ok, of f]
  show thesis
    using ok n
  proof (cases rule: palloc_get_cases [of s n f])
    case (got i b m)
    have i: "i < pool_size f s" using got(2) n by simp
    have "palloc_ok ((set_pool_of f b s)\<lparr>pmem := m\<rparr>)"
      by (rule palloc_ok_upd [OF ok got(4,5)]) (auto simp: got(7))
    then show thesis
      using that(1) [of i "(set_pool_of f b s)\<lparr>pmem := m\<rparr>"] got n page_at_props(3) [OF p got(2) n] pool_of_page(2) [OF ok f i]
      by (simp add: pages_take_def)
  next
    case none
    then show thesis using that(2) n f by (auto simp: pages_take_def PAL_ASSERT_def PAL_USER_def)
  qed
qed

lemma pages_region_alloc:
  assumes f: "f = 0 \<or> f = PAL_USER"
  shows "region_alloc palloc_ok (pool_used f) (pool_size f) (pages_take f) (pages_give f)"
proof
  fix s n
  assume ok: "palloc_ok s"
  from pages_take_cases [OF ok f, of n] show "pages_take f n s \<noteq> None" by cases auto
  fix s'
  show "s' = s \<and> \<not> (\<exists>i. i + n \<le> pool_size f s \<and> {i..<i + n} \<inter> pool_used f s = {})" if "pages_take f n s = Some (None, s')"
    using ok f by (cases rule: pages_take_cases [of s f n]) (use that in auto)
  fix i
  show "palloc_ok s' \<and> pool_size f s' = pool_size f s \<and> i + n \<le> pool_size f s \<and>
      {i..<i + n} \<inter> pool_used f s = {} \<and> pool_used f s' = pool_used f s \<union> {i..<i + n}"
    if "pages_take f n s = Some (Some i, s')"
    using ok f by (cases rule: pages_take_cases [of s f n]) (use that in auto)
next
  fix s i n
  assume ok: "palloc_ok s" and i: "i + n \<le> pool_size f s" and u: "{i..<i + n} \<subseteq> pool_used f s"
  show "\<exists>s'. pages_give f i n s = Some s' \<and> palloc_ok s' \<and> pool_size f s' = pool_size f s \<and> pool_used f s' = pool_used f s - {i..<i + n}"
  proof (cases "n = 0")
    case True
    then show ?thesis using ok by (simp add: pages_give_def palloc_free_multiple_def pg_ofs_def)
  next
    case False
    then have n: "0 < n" by simp
    show ?thesis
      using ok f n i
    proof (cases rule: palloc_free_cases [of s f n i])
      case (freed b)
      have "palloc_ok ((set_pool_of f b s)\<lparr>pmem := (\<lambda>a. if a \<in> page_words (pool_of f s) i n then Some 0xcccccccc else pmem s a)\<rparr>)"
        by (rule palloc_ok_upd [OF ok freed(3,4) dom_upd_subset])
      then show ?thesis using freed n by (simp add: pages_give_def)
    qed (use u in simp)
  qed
qed


interpretation upages: region_alloc palloc_ok "pool_used PAL_USER" "pool_size PAL_USER" "pages_take PAL_USER" "pages_give PAL_USER"
  by (rule pages_region_alloc) simp

section \<open>The pools after booting\<close>




section \<open>Properties\<close>

text \<open>A machine with three kernel pages, the first in use, and four user pages.\<close>

definition demo_pools :: palloc where
  "demo_pools = \<lparr>kernel_pool = \<lparr>used_map = \<lparr>bit_cnt = 3, bits = [1]\<rparr>, base = 0xc0100000\<rparr>,
     user_pool = \<lparr>used_map = \<lparr>bit_cnt = 4, bits = [0]\<rparr>, base = 0xc0103000\<rparr>,
     pmem = (\<lambda>a. if 0xc0100000 \<le> a then Some 7 else None)\<rparr>"

lemma demo_pools_ok: "palloc_ok demo_pools"
  by (auto simp: palloc_ok_def pool_ok_def demo_pools_def bm_inv_def elem_cnt_def ELEM_BITS_def pg_ofs_0_iff
      is_kernel_vaddr_def PHYS_BASE_def words_in_def word_le_nat_alt)

lemma pool_of_flags: "pool_of flags s = pool_of (if flags AND PAL_USER \<noteq> 0 then PAL_USER else 0) s"
  by (simp add: pool_of_def PAL_USER_def)

lemma set_pool_of_flags: "set_pool_of flags b s = set_pool_of (if flags AND PAL_USER \<noteq> 0 then PAL_USER else 0) b s"
  by (simp add: set_pool_of_def PAL_USER_def)

text \<open>
  C29: \<^verbatim>\<open>palloc_get_multiple\<close> with any flags either gives consecutive whole pages of the wanted
  pool none of which was in use, marks exactly these as used, fills them with zeros when asked to
  and touches no other memory; or no such group is free, and then it answers null and changes
  nothing, or stops the kernel when \<^verbatim>\<open>PAL_ASSERT\<close> is given. The pages it gives can be given
  back, which makes the same pages free again, and giving them back twice stops the kernel.
\<close>

theorem palloc_get_free:
  assumes "palloc_ok s" and "0 < n"
  shows "case palloc_get_multiple flags n s of
      None \<Rightarrow> flags AND PAL_ASSERT \<noteq> 0 \<and>
        \<not> (\<exists>i. i + n \<le> pool_size flags s \<and> {i..<i + n} \<inter> pool_used flags s = {})
    | Some (p, s1) \<Rightarrow>
        if p = 0 then s1 = s \<and> flags AND PAL_ASSERT = 0 \<and>
          \<not> (\<exists>i. i + n \<le> pool_size flags s \<and> {i..<i + n} \<inter> pool_used flags s = {})
        else \<exists>i. p = page_at (pool_of flags s) i \<and> pg_ofs p = 0 \<and> is_kernel_vaddr p \<and>
          i + n \<le> pool_size flags s \<and> {i..<i + n} \<inter> pool_used flags s = {} \<and>
          palloc_ok s1 \<and> pool_used flags s1 = pool_used flags s \<union> {i..<i + n} \<and>
          (\<forall>a. pmem s1 a = (if flags AND PAL_ZERO \<noteq> 0 \<and> a \<in> page_words (pool_of flags s) i n then Some 0 else pmem s a)) \<and>
          (\<exists>s2. palloc_free_multiple p n s1 = Some s2 \<and> palloc_ok s2 \<and> pool_used flags s2 = pool_used flags s \<and>
            palloc_free_multiple p n s2 = None)"
  using assms
proof (cases rule: palloc_get_cases [of s n flags])
  case none
  then show ?thesis by auto
next
  case (got i b m)
  define f where "f = (if flags AND PAL_USER \<noteq> 0 then PAL_USER else 0)"
  have f: "f = 0 \<or> f = PAL_USER" by (simp add: f_def)
  have norm: "pool_of flags t = pool_of f t" "set_pool_of flags c t = set_pool_of f c t" for t c
    using pool_of_flags set_pool_of_flags unfolding f_def by metis+
  define s1 where "s1 = (set_pool_of f b s)\<lparr>pmem := m\<rparr>"
  note p = page_at_props [OF palloc_ok_pool [OF assms(1)] got(2) assms(2)]
  have g: "palloc_get_multiple flags n s = Some (page_at (pool_of f s) i, s1)" using got(1) by (simp add: s1_def norm)
  have at: "page_at (pool_of f s1) j = page_at (pool_of f s) j" for j by (simp add: s1_def page_at_def)
  have ok1: "palloc_ok s1" unfolding s1_def
    by (rule palloc_ok_upd [OF assms(1) got(4)]) (use got(5) in \<open>auto simp: got(7) norm\<close>)
  have u1: "pool_used f s1 = pool_used f s \<union> {i..<i + n}" "pool_size f s1 = pool_size f s"
    using got(5,6) by (simp_all add: s1_def norm)
  have i1: "i + n \<le> pool_size f s1" using got(2) u1 by (simp add: norm)
  have "\<exists>s2. palloc_free_multiple (page_at (pool_of f s) i) n s1 = Some s2 \<and> palloc_ok s2 \<and>
      pool_used f s2 = pool_used f s \<and> palloc_free_multiple (page_at (pool_of f s) i) n s2 = None"
    using ok1 f assms(2) i1
  proof (cases rule: palloc_free_cases [of s1 f n i])
    case (freed b2)
    define s2 where "s2 = (set_pool_of f b2 s1)\<lparr>pmem := (\<lambda>a. if a \<in> page_words (pool_of f s1) i n then Some 0xcccccccc else pmem s1 a)\<rparr>"
    have ok2: "palloc_ok s2" unfolding s2_def by (rule palloc_ok_upd [OF ok1 freed(3,4) dom_upd_subset])
    have u2: "pool_used f s2 = pool_used f s" "pool_size f s2 = pool_size f s" "page_at (pool_of f s2) i = page_at (pool_of f s) i"
      using freed(4,5) u1 got(3) at by (auto simp: s2_def norm page_at_def)
    have i2: "i + n \<le> pool_size f s2" using got(2) u2 by (simp add: norm)
    have "palloc_free_multiple (page_at (pool_of f s) i) n s2 = None"
      using ok2 f assms(2) i2
    proof (cases rule: palloc_free_cases [of s2 f n i])
      case (freed b3)
      have "i \<in> {i..<i + n}" using assms(2) by simp
      then have False using freed(1) got(3) u2(1) unfolding norm by blast
      then show ?thesis ..
    qed (use u2 in simp)
    then show ?thesis using freed(2) ok2 u2 at by (auto simp: s2_def [symmetric])
  qed (use u1 in auto)
  then show ?thesis using g p got(2,3) ok1 u1 by (auto simp: norm s1_def got(7))
qed

theorem palloc_get_free_witness:
  "case palloc_get_multiple (PAL_USER OR PAL_ZERO) 2 demo_pools of
      None \<Rightarrow> (PAL_USER OR PAL_ZERO) AND PAL_ASSERT \<noteq> 0 \<and>
        \<not> (\<exists>i. i + 2 \<le> pool_size (PAL_USER OR PAL_ZERO) demo_pools \<and> {i..<i + 2} \<inter> pool_used (PAL_USER OR PAL_ZERO) demo_pools = {})
    | Some (p, s1) \<Rightarrow>
        if p = 0 then s1 = demo_pools \<and> (PAL_USER OR PAL_ZERO) AND PAL_ASSERT = 0 \<and>
          \<not> (\<exists>i. i + 2 \<le> pool_size (PAL_USER OR PAL_ZERO) demo_pools \<and> {i..<i + 2} \<inter> pool_used (PAL_USER OR PAL_ZERO) demo_pools = {})
        else \<exists>i. p = page_at (pool_of (PAL_USER OR PAL_ZERO) demo_pools) i \<and> pg_ofs p = 0 \<and> is_kernel_vaddr p \<and>
          i + 2 \<le> pool_size (PAL_USER OR PAL_ZERO) demo_pools \<and> {i..<i + 2} \<inter> pool_used (PAL_USER OR PAL_ZERO) demo_pools = {} \<and>
          palloc_ok s1 \<and> pool_used (PAL_USER OR PAL_ZERO) s1 = pool_used (PAL_USER OR PAL_ZERO) demo_pools \<union> {i..<i + 2} \<and>
          (\<forall>a. pmem s1 a = (if (PAL_USER OR PAL_ZERO) AND PAL_ZERO \<noteq> 0 \<and>
              a \<in> page_words (pool_of (PAL_USER OR PAL_ZERO) demo_pools) i 2 then Some 0 else pmem demo_pools a)) \<and>
          (\<exists>s2. palloc_free_multiple p 2 s1 = Some s2 \<and> palloc_ok s2 \<and>
            pool_used (PAL_USER OR PAL_ZERO) s2 = pool_used (PAL_USER OR PAL_ZERO) demo_pools \<and> palloc_free_multiple p 2 s2 = None)"
  by (rule palloc_get_free [OF demo_pools_ok]) simp



end
