(* ===== verification/Kpagedir.thy ===== *)
theory Kpagedir
  imports Kpalloc
begin

text \<open>
  Page directories: \<^verbatim>\<open>userprog/pagedir.c\<close>. The state has the page allocator with the memory,
  the boot page directory, the register CR3 and the translations that the processor has cached;
  writing CR3 forgets the cached translations.
\<close>

unbundle bit_operations_syntax

section \<open>State\<close>

record vm =
  vpages :: palloc
  init_page_dir :: u32
  init_ram_pages :: u32
  cr3 :: u32
  tlb :: wmem

definition load_word :: "vm \<Rightarrow> u32 \<Rightarrow> u32 option" where
  "load_word s a = pmem (vpages s) a"

definition store_word :: "u32 \<Rightarrow> u32 \<Rightarrow> vm \<Rightarrow> vm option" where
  "store_word a v s =
     (if pmem (vpages s) a = None then None
      else Some (s\<lparr>vpages := (vpages s)\<lparr>pmem := (pmem (vpages s))(a \<mapsto> v)\<rparr>\<rparr>))"

fun memcpy_words :: "u32 \<Rightarrow> u32 \<Rightarrow> nat \<Rightarrow> vm \<Rightarrow> vm option" where
  "memcpy_words dst src 0 s = Some s"
| "memcpy_words dst src (Suc n) s =
     do { v \<leftarrow> load_word s src; s \<leftarrow> store_word dst v s; memcpy_words (dst + 4) (src + 4) n s }"

definition get_page :: "u32 \<Rightarrow> vm \<Rightarrow> (u32 \<times> vm) option" where
  "get_page flags s = do { (p, a) \<leftarrow> palloc_get_page flags (vpages s); Some (p, s\<lparr>vpages := a\<rparr>) }"

definition free_page :: "u32 \<Rightarrow> vm \<Rightarrow> vm option" where
  "free_page p s = do { a \<leftarrow> palloc_free_page p (vpages s); Some (s\<lparr>vpages := a\<rparr>) }"

section \<open>Operations\<close>

definition pagedir_create :: "vm \<Rightarrow> (u32 \<times> vm) option" where
  "pagedir_create s =
     do {
       (pd, s) \<leftarrow> get_page 0 s;
       s \<leftarrow> (if pd \<noteq> 0 then memcpy_words pd (init_page_dir s) (unat PGSIZE div 4) s else Some s);
       Some (pd, s)
     }"

text \<open>The loops over the entries that are left, from the given one on.\<close>

fun destroy_ptes :: "u32 \<Rightarrow> nat \<Rightarrow> vm \<Rightarrow> vm option" where
  "destroy_ptes pte 0 s = Some s"
| "destroy_ptes pte (Suc n) s =
     do {
       e \<leftarrow> load_word s pte;
       s \<leftarrow> (if e AND PTE_P \<noteq> 0 then do { p \<leftarrow> pte_get_page e; free_page p s } else Some s);
       destroy_ptes (pte + 4) n s
     }"

fun destroy_pdes :: "u32 \<Rightarrow> nat \<Rightarrow> vm \<Rightarrow> vm option" where
  "destroy_pdes pde 0 s = Some s"
| "destroy_pdes pde (Suc n) s =
     do {
       e \<leftarrow> load_word s pde;
       s \<leftarrow> (if e AND PTE_P \<noteq> 0
            then do { pt \<leftarrow> pde_get_pt e; s \<leftarrow> destroy_ptes pt (unat PGSIZE div 4) s; free_page pt s }
            else Some s);
       destroy_pdes (pde + 4) n s
     }"

definition pagedir_destroy :: "u32 \<Rightarrow> vm \<Rightarrow> vm option" where
  "pagedir_destroy pd s =
     (if pd = 0 then Some s
      else do {
        ASSERT (pd \<noteq> init_page_dir s);
        s \<leftarrow> destroy_pdes pd (unat (pd_no PHYS_BASE)) s;
        free_page pd s
      })"

text \<open>\<^verbatim>\<open>lookup_page\<close> answers the address of the entry, or null.\<close>

definition lookup_page :: "u32 \<Rightarrow> u32 \<Rightarrow> bool \<Rightarrow> vm \<Rightarrow> (u32 \<times> vm) option" where
  "lookup_page pd vaddr create s =
     do {
       ASSERT (pd \<noteq> 0);
       ASSERT (\<not> create \<or> is_user_vaddr vaddr);
       let pde = pd + 4 * pd_no vaddr;
       e \<leftarrow> load_word s pde;
       (ok, s) \<leftarrow> (if e = 0
          then (if create
                then do {
                  (pt, s) \<leftarrow> get_page PAL_ZERO s;
                  if pt = 0 then Some (False, s)
                  else do { d \<leftarrow> pde_create pt; s \<leftarrow> store_word pde d s; Some (True, s) }
                }
                else Some (False, s))
          else Some (True, s));
       if \<not> ok then Some (0, s)
       else do {
         e \<leftarrow> load_word s pde;
         pt \<leftarrow> pde_get_pt e;
         Some (pt + 4 * pt_no vaddr, s)
       }
     }"

definition pagedir_set_page :: "u32 \<Rightarrow> u32 \<Rightarrow> u32 \<Rightarrow> bool \<Rightarrow> vm \<Rightarrow> (bool \<times> vm) option" where
  "pagedir_set_page pd upage kpage writable s =
     do {
       ASSERT (pg_ofs upage = 0);
       ASSERT (pg_ofs kpage = 0);
       ASSERT (is_user_vaddr upage);
       frame \<leftarrow> vtop kpage;
       ASSERT (drop_bit PTSHIFT frame < init_ram_pages s);
       ASSERT (pd \<noteq> init_page_dir s);
       (pte, s) \<leftarrow> lookup_page pd upage True s;
       if pte \<noteq> 0
       then do {
         e \<leftarrow> load_word s pte;
         ASSERT (e AND PTE_P = 0);
         e \<leftarrow> pte_create_user kpage writable;
         s \<leftarrow> store_word pte e s;
         Some (True, s)
       }
       else Some (False, s)
     }"

definition pagedir_get_page :: "u32 \<Rightarrow> u32 \<Rightarrow> vm \<Rightarrow> u32 option" where
  "pagedir_get_page pd uaddr s =
     do {
       ASSERT (is_user_vaddr uaddr);
       (pte, s) \<leftarrow> lookup_page pd uaddr False s;
       if pte = 0 then Some 0
       else do {
         e \<leftarrow> load_word s pte;
         if e AND PTE_P \<noteq> 0 then do { p \<leftarrow> pte_get_page e; Some (p + pg_ofs uaddr) } else Some 0
       }
     }"

definition pagedir_activate :: "u32 \<Rightarrow> vm \<Rightarrow> vm option" where
  "pagedir_activate pd s =
     do {
       let pd = (if pd = 0 then init_page_dir s else pd);
       p \<leftarrow> vtop pd;
       Some (s\<lparr>cr3 := p, tlb := Map.empty\<rparr>)
     }"

definition active_pd :: "vm \<Rightarrow> u32 option" where
  "active_pd s = ptov (cr3 s)"

definition invalidate_pagedir :: "u32 \<Rightarrow> vm \<Rightarrow> vm option" where
  "invalidate_pagedir pd s = do { a \<leftarrow> active_pd s; if a = pd then pagedir_activate pd s else Some s }"

definition pagedir_clear_page :: "u32 \<Rightarrow> u32 \<Rightarrow> vm \<Rightarrow> vm option" where
  "pagedir_clear_page pd upage s =
     do {
       ASSERT (pg_ofs upage = 0);
       ASSERT (is_user_vaddr upage);
       (pte, s) \<leftarrow> lookup_page pd upage False s;
       if pte = 0 then Some s
       else do {
         e \<leftarrow> load_word s pte;
         if e AND PTE_P \<noteq> 0 then do { s \<leftarrow> store_word pte (e AND NOT PTE_P) s; invalidate_pagedir pd s } else Some s
       }
     }"

text \<open>The dirty and the accessed bit are read and set alike.\<close>

definition pte_flag :: "u32 \<Rightarrow> u32 \<Rightarrow> u32 \<Rightarrow> vm \<Rightarrow> bool option" where
  "pte_flag f pd vpage s =
     do {
       (pte, s) \<leftarrow> lookup_page pd vpage False s;
       if pte = 0 then Some False else do { e \<leftarrow> load_word s pte; Some (e AND f \<noteq> 0) }
     }"

definition set_pte_flag :: "u32 \<Rightarrow> u32 \<Rightarrow> u32 \<Rightarrow> bool \<Rightarrow> vm \<Rightarrow> vm option" where
  "set_pte_flag f pd vpage v s =
     do {
       (pte, s) \<leftarrow> lookup_page pd vpage False s;
       if pte = 0 then Some s
       else do {
         e \<leftarrow> load_word s pte;
         if v then store_word pte (e OR f) s
         else do { s \<leftarrow> store_word pte (e AND NOT f) s; invalidate_pagedir pd s }
       }
     }"

definition pagedir_is_dirty :: "u32 \<Rightarrow> u32 \<Rightarrow> vm \<Rightarrow> bool option" where
  "pagedir_is_dirty = pte_flag PTE_D"

definition pagedir_set_dirty :: "u32 \<Rightarrow> u32 \<Rightarrow> bool \<Rightarrow> vm \<Rightarrow> vm option" where
  "pagedir_set_dirty = set_pte_flag PTE_D"

definition pagedir_is_accessed :: "u32 \<Rightarrow> u32 \<Rightarrow> vm \<Rightarrow> bool option" where
  "pagedir_is_accessed = pte_flag PTE_A"

definition pagedir_set_accessed :: "u32 \<Rightarrow> u32 \<Rightarrow> bool \<Rightarrow> vm \<Rightarrow> vm option" where
  "pagedir_set_accessed = set_pte_flag PTE_A"

end
