(* ===== verification/Kpagedir_Spec.thy ===== *)
theory Kpagedir_Spec
  imports Kpagedir
begin

text \<open>
  What a page directory means: for every user page the entry that the processor would use, zero
  where there is no page table. The operations of \<^verbatim>\<open>userprog/pagedir.c\<close> are updates of this
  function, and leave every other page directory alone.
\<close>

unbundle bit_operations_syntax

section \<open>Pages that hold tables\<close>

abbreviation mem :: "vm \<Rightarrow> wmem" where
  "mem s \<equiv> pmem (vpages s)"

definition held :: "vm \<Rightarrow> u32 \<Rightarrow> bool" where
  "held s p \<longleftrightarrow> (\<exists>i\<in>bm_used (used_map (kernel_pool (vpages s))). p = page_at (kernel_pool (vpages s)) i)"

text \<open>The page table in a slot of a directory.\<close>

definition tab :: "vm \<Rightarrow> u32 \<Rightarrow> u32 \<Rightarrow> u32 option" where
  "tab s pd i = (case mem s (pd + 4 * i) of None \<Rightarrow> None | Some e \<Rightarrow> if e = 0 then None else pde_get_pt e)"

definition pd_ok :: "vm \<Rightarrow> u32 \<Rightarrow> bool" where
  "pd_ok s pd \<longleftrightarrow> palloc_ok (vpages s) \<and> held s pd \<and>
     (\<forall>i. unat i < 768 \<longrightarrow> mem s (pd + 4 * i) = Some 0 \<or>
        (\<exists>e pt. mem s (pd + 4 * i) = Some e \<and> e \<noteq> 0 \<and> pde_get_pt e = Some pt \<and> held s pt \<and> pt \<noteq> pd)) \<and>
     (\<forall>i j pt. unat i < 768 \<longrightarrow> unat j < 768 \<longrightarrow> tab s pd i = Some pt \<longrightarrow> tab s pd j = Some pt \<longrightarrow> i = j)"

definition tables :: "vm \<Rightarrow> u32 \<Rightarrow> u32 set" where
  "tables s pd = insert pd {pt. \<exists>i. unat i < 768 \<and> tab s pd i = Some pt}"

text \<open>The entry for a user address.\<close>

definition entry :: "vm \<Rightarrow> u32 \<Rightarrow> u32 \<Rightarrow> u32" where
  "entry s pd v = (case tab s pd (pd_no v) of None \<Rightarrow> 0 | Some pt \<Rightarrow> the (mem s (pt + 4 * pt_no v)))"

lemma held_cases:
  assumes "held s p" and "palloc_ok (vpages s)"
  obtains i where "i < bit_cnt (used_map (kernel_pool (vpages s)))" and "i \<in> bm_used (used_map (kernel_pool (vpages s)))"
    and "p = page_at (kernel_pool (vpages s)) i"
  using assms by (auto simp: held_def bm_used_def)

lemma held_props:
  assumes h: "held s p" and ok: "palloc_ok (vpages s)"
  shows "pg_ofs p = 0" and "p \<noteq> 0" and "is_kernel_vaddr p"
    and "unat j < 1024 \<Longrightarrow> unat (p + 4 * j) = unat p + 4 * unat j"
    and "unat j < 1024 \<Longrightarrow> mem s (p + 4 * j) \<noteq> None"
    and "unat j < 1024 \<Longrightarrow> p + 4 * j \<noteq> 0"
    and "unat j < 1024 \<Longrightarrow> p + 4 * j \<in> words_in p 1024"
proof -
  obtain i where i: "i < bit_cnt (used_map (kernel_pool (vpages s)))" "p = page_at (kernel_pool (vpages s)) i"
    using held_cases [OF h ok] by blast
  have "pool_ok (mem s) (kernel_pool (vpages s))" using ok by (simp add: palloc_ok_def)
  note pr = page_at_props [OF this, of i 1]
  show a: "pg_ofs p = 0" and "p \<noteq> 0" and "is_kernel_vaddr p" using pr i by auto
  show u: "unat (p + 4 * j) = unat p + 4 * unat j" if "unat j < 1024"
  proof -
    have "unat p + 4 * unat j < 2 ^ 32" using pr(7) i that by simp
    then show ?thesis using that by (simp add: unat_word_ariths)
  qed
  show w: "p + 4 * j \<in> words_in p 1024" if "unat j < 1024"
    using u [OF that] that pr(6) i by (simp add: words_in_def)
  show "mem s (p + 4 * j) \<noteq> None" if "unat j < 1024"
    using w [OF that] pr(5) i by (auto simp: page_words_def)
  show "p + 4 * j \<noteq> 0" if "unat j < 1024"
  proof -
    have "0xc0000000 \<le> unat p" using pr(4) i by (simp add: is_kernel_vaddr_def PHYS_BASE_def word_le_nat_alt)
    then have "0 < unat (p + 4 * j)" using u [OF that] by linarith
    then show ?thesis by (metis unat_0 less_irrefl)
  qed
qed

text \<open>An address inside a page determines the page and the index.\<close>

lemma page_of_offset: "4096 dvd p \<Longrightarrow> k < 4096 \<Longrightarrow> (p + k) div 4096 * 4096 = (p :: nat)"
  by (auto elim!: dvdE)

lemma entry_address_inj:
  assumes "held s p" and "held s q" and ok: "palloc_ok (vpages s)" and i: "unat i < 1024" and j: "unat j < 1024"
  shows "p + 4 * i = q + 4 * j \<longleftrightarrow> p = q \<and> i = j"
proof
  assume eq: "p + 4 * i = q + 4 * j"
  have al: "4096 dvd unat p" "4096 dvd unat q"
    using held_props(1) [OF assms(1) ok] held_props(1) [OF assms(2) ok] by (simp_all add: pg_ofs_0_iff)
  have e: "unat p + 4 * unat i = unat q + 4 * unat j"
    using eq held_props(4) [OF assms(1) ok i] held_props(4) [OF assms(2) ok j] by simp
  have "unat p = unat q" using page_of_offset [OF al(1), of "4 * unat i"] page_of_offset [OF al(2), of "4 * unat j"] e i j by simp
  then show "p = q \<and> i = j" using e by (simp add: word_unat_eq_iff)
qed simp

lemma entry_address_page:
  assumes "held s p" and "held s q" and ok: "palloc_ok (vpages s)" and j: "unat j < 1024" and "q + 4 * j \<in> words_in p 1024"
  shows "q = p"
proof -
  have al: "4096 dvd unat p" "4096 dvd unat q"
    using held_props(1) [OF assms(1) ok] held_props(1) [OF assms(2) ok] by (simp_all add: pg_ofs_0_iff)
  have "unat p \<le> unat q + 4 * unat j" "unat q + 4 * unat j < unat p + 4096"
    using assms(5) held_props(4) [OF assms(2) ok j] by (simp_all add: words_in_def)
  then obtain k where "unat q + 4 * unat j = unat p + k" "k < 4096" by (metis add_less_cancel_left le_add_diff_inverse)
  then have "unat p = unat q"
    using page_of_offset [OF al(1), of k] page_of_offset [OF al(2), of "4 * unat j"] j by simp
  then show ?thesis by (simp add: word_unat_eq_iff)
qed

lemma pd_no_user: "is_user_vaddr v \<Longrightarrow> unat (pd_no v) < 768"
  by (simp add: is_user_vaddr_def PHYS_BASE_def word_less_nat_alt unat_pd_no)

lemma pd_okD:
  assumes "pd_ok s pd"
  shows "palloc_ok (vpages s)" and "held s pd" and "pd \<noteq> 0"
    and "unat i < 768 \<Longrightarrow> mem s (pd + 4 * i) \<noteq> None"
    and "unat i < 768 \<Longrightarrow> tab s pd i = None \<longleftrightarrow> mem s (pd + 4 * i) = Some 0"
    and "unat i < 768 \<Longrightarrow> tab s pd i = Some pt \<Longrightarrow> held s pt \<and> pt \<noteq> pd"
    and "unat i < 768 \<Longrightarrow> unat j < 768 \<Longrightarrow> tab s pd i = Some pt \<Longrightarrow> tab s pd j = Some pt \<Longrightarrow> i = j"
  using assms held_props(2) [of s pd] by (auto simp: pd_ok_def tab_def split: option.splits if_splits)

section \<open>Changes of one directory\<close>

definition touches :: "vm \<Rightarrow> u32 \<Rightarrow> vm \<Rightarrow> bool" where
  "touches s pd s' \<longleftrightarrow> pd_ok s' pd \<and> (\<forall>q. held s q \<longrightarrow> held s' q) \<and>
     (\<forall>q j. held s q \<longrightarrow> q \<notin> tables s pd \<longrightarrow> unat j < 1024 \<longrightarrow> mem s' (q + 4 * j) = mem s (q + 4 * j)) \<and>
     tables s' pd \<subseteq> tables s pd \<union> {q. \<not> held s q} \<and>
     user_pool (vpages s') = user_pool (vpages s) \<and>
     init_page_dir s' = init_page_dir s \<and> init_ram_pages s' = init_ram_pages s"

lemma tables_held: "pd_ok s pd \<Longrightarrow> q \<in> tables s pd \<Longrightarrow> held s q"
  using pd_okD [of s pd] by (auto simp: tables_def)

lemma touches_other:
  assumes t: "touches s pd s'" and ok: "pd_ok s pd'" and d: "tables s pd \<inter> tables s pd' = {}"
  shows "pd_ok s' pd'" and "tables s' pd' = tables s pd'" and "tables s' pd \<inter> tables s' pd' = {}"
    and "is_user_vaddr v \<Longrightarrow> entry s' pd' v = entry s pd' v"
proof -
  have m: "mem s' (q + 4 * j) = mem s (q + 4 * j)" if "q \<in> tables s pd'" "unat j < 1024" for q j
    using t d that tables_held [OF ok that(1)] by (auto simp: touches_def)
  have pd': "pd' \<in> tables s pd'" by (simp add: tables_def)
  have ta: "tab s' pd' i = tab s pd' i" if "unat i < 768" for i
    using m [OF pd', of i] that by (simp add: tab_def)
  have h: "held s q \<Longrightarrow> held s' q" for q using t by (simp add: touches_def)
  have "palloc_ok (vpages s')" using t by (simp add: touches_def pd_ok_def)
  moreover have "mem s' (pd' + 4 * i) = Some 0 \<or>
      (\<exists>e pt. mem s' (pd' + 4 * i) = Some e \<and> e \<noteq> 0 \<and> pde_get_pt e = Some pt \<and> held s' pt \<and> pt \<noteq> pd')" if "unat i < 768" for i
  proof -
    have "mem s (pd' + 4 * i) = Some 0 \<or>
      (\<exists>e pt. mem s (pd' + 4 * i) = Some e \<and> e \<noteq> 0 \<and> pde_get_pt e = Some pt \<and> held s pt \<and> pt \<noteq> pd')"
      using ok that unfolding pd_ok_def by blast
    then show ?thesis using m [OF pd', of i] that h by auto
  qed
  moreover have "held s' pd'" using ok h by (simp add: pd_ok_def)
  ultimately show "pd_ok s' pd'" using ok ta by (auto simp: pd_ok_def)
  show e: "tables s' pd' = tables s pd'" using ta by (auto simp: tables_def)
  show "tables s' pd \<inter> tables s' pd' = {}" using t d e tables_held [OF ok] by (fastforce simp: touches_def)
  show "entry s' pd' v = entry s pd' v" if v: "is_user_vaddr v"
  proof (cases "tab s pd' (pd_no v)")
    case None
    then show ?thesis using ta [OF pd_no_user [OF v]] by (simp add: entry_def)
  next
    case (Some pt)
    then have "pt \<in> tables s pd'" using pd_no_user [OF v] by (auto simp: tables_def)
    from m [OF this index_bounds(2), of v] Some show ?thesis using ta [OF pd_no_user [OF v]] by (simp add: entry_def)
  qed
qed

lemma touches_refl: "pd_ok s pd \<Longrightarrow> touches s pd s"
  by (simp add: touches_def)

lemma touches_trans:
  assumes "touches s pd s'" and "touches s' pd s''"
  shows "touches s pd s''"
proof -
  have q: "mem s'' (q + 4 * j) = mem s (q + 4 * j)" if "held s q" "q \<notin> tables s pd" "unat j < 1024" for q j
  proof -
    have "held s' q" "q \<notin> tables s' pd" using assms(1) that by (auto simp: touches_def)
    then show ?thesis using assms that by (simp add: touches_def)
  qed
  have "tables s'' pd \<subseteq> tables s pd \<union> {q. \<not> held s q}" using assms by (fastforce simp: touches_def)
  then show ?thesis using assms q by (simp add: touches_def)
qed

section \<open>Memory accesses\<close>

lemma store_word_ok:
  assumes "mem s a \<noteq> None"
  shows "store_word a v s = Some (s\<lparr>vpages := (vpages s)\<lparr>pmem := (mem s)(a \<mapsto> v)\<rparr>\<rparr>)"
  using assms by (simp add: store_word_def)

lemma palloc_ok_store:
  assumes "palloc_ok s" and "pmem s a \<noteq> None"
  shows "palloc_ok (s\<lparr>pmem := (pmem s)(a \<mapsto> v)\<rparr>)"
proof -
  have "dom (pmem s) \<subseteq> dom ((pmem s)(a \<mapsto> v))" by auto
  then show ?thesis using assms(1) pool_ok_mem [of "pmem s" _ "(pmem s)(a \<mapsto> v)"] by (simp add: palloc_ok_def)
qed

text \<open>Writing an entry of a page table.\<close>

lemma store_pte:
  assumes ok: "pd_ok s pd" and v: "is_user_vaddr v" and pt: "tab s pd (pd_no v) = Some pt"
  obtains s' where "store_word (pt + 4 * pt_no v) e s = Some s'" and "touches s pd s'"
    and "\<And>w. is_user_vaddr w \<Longrightarrow> entry s' pd w = (if pg_no w = pg_no v then e else entry s pd w)"
    and "tlb s' = tlb s" and "cr3 s' = cr3 s" and "tab s' pd (pd_no v) = Some pt"
proof -
  note D = pd_okD [OF ok]
  note u = pd_no_user [OF v]
  have hp: "held s pt" "pt \<noteq> pd" using D(6) [OF u pt] by auto
  let ?a = "pt + 4 * pt_no v"
  let ?s = "s\<lparr>vpages := (vpages s)\<lparr>pmem := (mem s)(?a \<mapsto> e)\<rparr>\<rparr>"
  have st: "store_word ?a e s = Some ?s"
    by (rule store_word_ok) (rule held_props(5) [OF hp(1) D(1) index_bounds(2)])
  have h: "held ?s = held s" by (simp add: held_def fun_eq_iff)
  have other: "mem ?s (q + 4 * j) = mem s (q + 4 * j)" if "held s q" "q \<noteq> pt" "unat j < 1024" for q j
    using entry_address_inj [OF that(1) hp(1) D(1) that(3) index_bounds(2) [of v]] that(2) by auto
  have ta: "tab ?s pd i = tab s pd i" if "unat i < 768" for i
    using other [OF D(2) hp(2) [symmetric], of i] that by (simp add: tab_def)
  have pok: "palloc_ok (vpages ?s)" using palloc_ok_store [OF D(1)] held_props(5) [OF hp(1) D(1) index_bounds(2)] by simp
  have same: "mem ?s (pd + 4 * i) = mem s (pd + 4 * i)" if "unat i < 768" for i using other [OF D(2) hp(2) [symmetric], of i] that by simp
  have "pd_ok ?s pd" using ok pok h same ta unfolding pd_ok_def by (simp only:) simp
  moreover have tb: "tables ?s pd = tables s pd" using ta by (auto simp: tables_def)
  moreover have "pt \<in> tables s pd" using pt u by (auto simp: tables_def)
  then have "\<forall>q j. held s q \<longrightarrow> q \<notin> tables s pd \<longrightarrow> unat j < 1024 \<longrightarrow> mem ?s (q + 4 * j) = mem s (q + 4 * j)"
    using other by blast
  ultimately have t: "touches s pd ?s" using h by (simp add: touches_def)
  have en: "entry ?s pd w = (if pg_no w = pg_no v then e else entry s pd w)" if w: "is_user_vaddr w" for w
  proof (cases "tab s pd (pd_no w)")
    case None
    then have "pg_no w \<noteq> pg_no v" using pt same_pages(1) [of w v] by auto
    then show ?thesis using None ta [OF pd_no_user [OF w]] by (simp add: entry_def)
  next
    case (Some q)
    have hq: "held s q" using D(6) [OF pd_no_user [OF w] Some] by simp
    have "q + 4 * pt_no w = ?a \<longleftrightarrow> q = pt \<and> pt_no w = pt_no v"
      by (rule entry_address_inj [OF hq hp(1) D(1) index_bounds(2) index_bounds(2)])
    also have "\<dots> \<longleftrightarrow> pg_no w = pg_no v"
    proof
      assume q: "q = pt \<and> pt_no w = pt_no v"
      then have "pd_no w = pd_no v" using D(7) [OF pd_no_user [OF w] u _ pt] Some by simp
      then show "pg_no w = pg_no v" using q same_indices by blast
    next
      assume "pg_no w = pg_no v"
      from same_pages [OF this] show "q = pt \<and> pt_no w = pt_no v" using Some pt by simp
    qed
    finally show ?thesis using Some ta [OF pd_no_user [OF w]] by (simp add: entry_def)
  qed
  show thesis by (rule that [of ?s]) (use st t en ta [OF u] pt in simp_all)
qed

section \<open>Finding an entry\<close>

lemma lookup_page_found:
  assumes ok: "pd_ok s pd" and v: "is_user_vaddr v" and pt: "tab s pd (pd_no v) = Some pt"
  shows "lookup_page pd v create s = Some (pt + 4 * pt_no v, s)" and "pt + 4 * pt_no v \<noteq> 0"
    and "load_word s (pt + 4 * pt_no v) = Some (entry s pd v)"
proof -
  note D = pd_okD [OF ok] and u = pd_no_user [OF v]
  have hp: "held s pt" using D(6) [OF u pt] by simp
  obtain e where e: "mem s (pd + 4 * pd_no v) = Some e" "e \<noteq> 0" "pde_get_pt e = Some pt"
    using pt by (auto simp: tab_def split: option.splits if_splits)
  then show "lookup_page pd v create s = Some (pt + 4 * pt_no v, s)"
    using D(3) v by (simp add: lookup_page_def load_word_def)
  show "pt + 4 * pt_no v \<noteq> 0" by (rule held_props(6) [OF hp D(1) index_bounds(2)])
  show "load_word s (pt + 4 * pt_no v) = Some (entry s pd v)"
    using held_props(5) [OF hp D(1) index_bounds(2), of v] pt by (auto simp: entry_def load_word_def)
qed

lemma lookup_page_missing:
  assumes ok: "pd_ok s pd" and v: "is_user_vaddr v" and t: "tab s pd (pd_no v) = None"
  shows "lookup_page pd v False s = Some (0, s)" and "entry s pd v = 0"
proof -
  have "mem s (pd + 4 * pd_no v) = Some 0" using pd_okD(5) [OF ok pd_no_user [OF v]] t by simp
  then show "lookup_page pd v False s = Some (0, s)" using pd_okD(3) [OF ok] by (simp add: lookup_page_def load_word_def)
  show "entry s pd v = 0" using t by (simp add: entry_def)
qed

text \<open>The free pages of the kernel pool.\<close>

definition kernel_full :: "vm \<Rightarrow> bool" where
  "kernel_full s \<longleftrightarrow> (\<forall>i<bit_cnt (used_map (kernel_pool (vpages s))). i \<in> bm_used (used_map (kernel_pool (vpages s))))"

lemma get_page_cases:
  assumes ok: "palloc_ok (vpages s)" and f: "f = 0 \<or> f = PAL_ZERO"
  obtains (got) p s' where "get_page f s = Some (p, s')" and "palloc_ok (vpages s')" and "\<not> held s p"
      and "\<And>q. held s' q \<longleftrightarrow> q = p \<or> held s q" and "\<And>a. mem s' a = (if f = PAL_ZERO \<and> a \<in> words_in p 1024 then Some 0 else mem s a)"
      and "user_pool (vpages s') = user_pool (vpages s)" and "s' = s\<lparr>vpages := vpages s'\<rparr>"
  | (full) "get_page f s = Some (0, s)" and "kernel_full s"
proof -
  have kp: "pool_of f (vpages s) = kernel_pool (vpages s)" using f by (auto simp: pool_of_def PAL_ZERO_def PAL_USER_def)
  have pk: "pool_ok (mem s) (kernel_pool (vpages s))" using ok by (simp add: palloc_ok_def)
  have one: "(0::nat) < 1" by simp
  show thesis
    using ok one
  proof (cases rule: palloc_get_cases [of "vpages s" 1 f])
    case (got i b m)
    let ?s = "s\<lparr>vpages := (set_pool_of f b (vpages s))\<lparr>pmem := m\<rparr>\<rparr>"
    let ?p = "page_at (kernel_pool (vpages s)) i"
    have i: "i < bit_cnt (used_map (kernel_pool (vpages s)))" using got(2) kp by simp
    have k': "kernel_pool (vpages ?s) = (kernel_pool (vpages s))\<lparr>used_map := b\<rparr>"
      using f by (auto simp: set_pool_of_def PAL_ZERO_def PAL_USER_def)
    have inj: "page_at (kernel_pool (vpages s)) j = ?p \<longleftrightarrow> j = i" if "j < bit_cnt (used_map (kernel_pool (vpages s)))" for j
      using unat_page_at [OF pk that] unat_page_at [OF pk i] by (metis add_left_cancel mult_left_cancel zero_neq_numeral)
    have "dom (mem s) \<subseteq> dom m" unfolding got(7) by (rule dom_upd_subset)
    then have "palloc_ok (vpages ?s)" using palloc_ok_upd [OF ok got(4,5), of m] by simp
    moreover have "\<not> held s ?p"
    proof
      assume "held s ?p"
      from held_cases [OF this ok] show False using inj got(3) kp by (metis atLeastLessThan_iff disjoint_iff le_refl less_add_one)
    qed
    moreover have "held ?s q \<longleftrightarrow> q = ?p \<or> held s q" for q
      using got(6) unfolding held_def k' kp by (auto simp: page_at_def)
    moreover have "get_page f s = Some (?p, ?s)" using got(1) kp by (simp add: get_page_def palloc_get_page_def)
    moreover have "user_pool (vpages ?s) = user_pool (vpages s)"
      using f by (auto simp: set_pool_of_def PAL_ZERO_def PAL_USER_def)
    ultimately show thesis
      using that(1) [of ?p ?s] got(7) kp f by (auto simp: page_words_def PAL_ZERO_def)
  next
    case none
    have "kernel_full s" unfolding kernel_full_def
    proof (intro allI impI)
      fix i assume "i < bit_cnt (used_map (kernel_pool (vpages s)))"
      then show "i \<in> bm_used (used_map (kernel_pool (vpages s)))" using none(2) [of i] kp by simp
    qed
    then show thesis using that(2) none(1) f by (auto simp: get_page_def palloc_get_page_def PAL_ZERO_def PAL_ASSERT_def)
  qed
qed

lemma pd_ok_new_table:
  assumes ok: "pd_ok s pd" and i: "unat i < 768" and t: "tab s pd i = None"
    and g: "palloc_ok (vpages s1)" "\<not> held s pt" "\<And>q. held s1 q \<longleftrightarrow> q = pt \<or> held s q"
      "\<And>a. mem s1 a = (if a \<in> words_in pt 1024 then Some 0 else mem s a)"
      "user_pool (vpages s1) = user_pool (vpages s)" "s1 = s\<lparr>vpages := vpages s1\<rparr>"
  obtains d s2 where "pde_create pt = Some d" and "store_word (pd + 4 * i) d s1 = Some s2" and "touches s pd s2"
    and "\<And>w. is_user_vaddr w \<Longrightarrow> entry s2 pd w = entry s pd w" and "tab s2 pd i = Some pt"
    and "load_word s2 (pd + 4 * i) = Some d" and "pde_get_pt d = Some pt" and "tlb s2 = tlb s" and "cr3 s2 = cr3 s"
proof -
  note D = pd_okD [OF ok]
  have h1: "held s1 pt" "held s1 pd" "pt \<noteq> pd" using g(2,3) D(2) by auto
  note hp = held_props [OF h1(1) g(1)]
  obtain d where d: "pde_create pt = Some d" "pde_get_pt d = Some pt" "d \<noteq> 0" using pde_roundtrip [OF hp(1,3)] by blast
  let ?s = "s1\<lparr>vpages := (vpages s1)\<lparr>pmem := (mem s1)(pd + 4 * i \<mapsto> d)\<rparr>\<rparr>"
  have i': "unat i < 1024" using i by simp
  have st: "store_word (pd + 4 * i) d s1 = Some ?s"
    by (rule store_word_ok) (rule held_props(5) [OF h1(2) g(1) i'])
  have h: "held ?s q \<longleftrightarrow> q = pt \<or> held s q" for q using g(3) by (simp add: held_def)
  have old: "mem ?s (q + 4 * j) = (if q = pd \<and> j = i then Some d else mem s (q + 4 * j))" if "held s q" "unat j < 1024" for q j
  proof -
    have hq: "held s1 q" "q \<noteq> pt" using g(2,3) that by auto
    then have "q + 4 * j \<notin> words_in pt 1024" using entry_address_page [OF h1(1) hq(1) g(1) that(2)] by blast
    then show ?thesis using entry_address_inj [OF hq(1) h1(2) g(1) that(2) i'] g(4) by simp
  qed
  have new: "mem ?s (pt + 4 * j) = Some 0" if "unat j < 1024" for j
    using entry_address_inj [OF h1(1,2) g(1) that i'] h1(3) hp(7) [OF that] g(4) by simp
  have ta: "tab ?s pd j = (if j = i then Some pt else tab s pd j)" if "unat j < 768" for j
    using old [OF D(2), of j] that d(2,3) by (auto simp: tab_def)
  have pok: "palloc_ok (vpages ?s)" using palloc_ok_store [OF g(1)] held_props(5) [OF h1(2) g(1) i'] by simp
  have "pd_ok ?s pd"
    unfolding pd_ok_def
  proof (intro conjI allI impI)
    show "palloc_ok (vpages ?s)" by (rule pok)
    show "held ?s pd" using h D(2) by simp
    show "mem ?s (pd + 4 * j) = Some 0 \<or>
        (\<exists>e pt. mem ?s (pd + 4 * j) = Some e \<and> e \<noteq> 0 \<and> pde_get_pt e = Some pt \<and> held ?s pt \<and> pt \<noteq> pd)" if j: "unat j < 768" for j
    proof (cases "j = i")
      case True
      then show ?thesis using old [OF D(2), of i] i' d h h1(3) by auto
    next
      case False
      have "mem s (pd + 4 * j) = Some 0 \<or>
          (\<exists>e pt. mem s (pd + 4 * j) = Some e \<and> e \<noteq> 0 \<and> pde_get_pt e = Some pt \<and> held s pt \<and> pt \<noteq> pd)"
        using ok j unfolding pd_ok_def by blast
      moreover have "mem ?s (pd + 4 * j) = mem s (pd + 4 * j)" using old [OF D(2), of j] j False by simp
      ultimately show ?thesis using h by auto
    qed
    show "j = k" if "unat j < 768" "unat k < 768" "tab ?s pd j = Some q" "tab ?s pd k = Some q" for j k q
      using that ta [of j] ta [of k] D(6) [of j q] D(6) [of k q] D(7) [of j k q] g(2) by (auto split: if_splits)
  qed
  moreover have "tables ?s pd \<subseteq> tables s pd \<union> {q. \<not> held s q}" using ta g(2) by (auto simp: tables_def split: if_splits)
  moreover have "\<forall>q j. held s q \<longrightarrow> q \<notin> tables s pd \<longrightarrow> unat j < 1024 \<longrightarrow> mem ?s (q + 4 * j) = mem s (q + 4 * j)"
    using old by (auto simp: tables_def)
  moreover have f: "user_pool (vpages ?s) = user_pool (vpages s)" "init_page_dir ?s = init_page_dir s"
      "init_ram_pages ?s = init_ram_pages s" "tlb ?s = tlb s" "cr3 ?s = cr3 s"
    using g(5) by (subst g(6), simp)+
  ultimately have tch: "touches s pd ?s" using h unfolding touches_def by simp
  have en: "entry ?s pd w = entry s pd w" if w: "is_user_vaddr w" for w
  proof (cases "pd_no w = i")
    case True
    then show ?thesis using ta [OF i] new [OF index_bounds(2)] t by (simp add: entry_def)
  next
    case False
    show ?thesis
    proof (cases "tab s pd (pd_no w)")
      case (Some q)
      then have "held s q" "q \<noteq> pd" using D(6) [OF pd_no_user [OF w]] by auto
      then show ?thesis using old [OF _ index_bounds(2)] Some False ta [OF pd_no_user [OF w]] by (simp add: entry_def)
    qed (use False ta [OF pd_no_user [OF w]] in \<open>simp add: entry_def\<close>)
  qed
  show thesis
    by (rule that [of d ?s]) (use d st tch en ta [OF i] f old [OF D(2) i'] in \<open>simp_all add: load_word_def\<close>)
qed

lemma lookup_page_create:
  assumes ok: "pd_ok s pd" and v: "is_user_vaddr v"
  obtains (got) pt s' where "lookup_page pd v True s = Some (pt + 4 * pt_no v, s')" and "touches s pd s'"
      and "tab s' pd (pd_no v) = Some pt" and "\<And>w. is_user_vaddr w \<Longrightarrow> entry s' pd w = entry s pd w"
      and "tlb s' = tlb s" and "cr3 s' = cr3 s"
  | (full) "lookup_page pd v True s = Some (0, s)" and "kernel_full s"
proof (cases "tab s pd (pd_no v)")
  case (Some pt)
  show thesis by (rule got [of pt s]) (use lookup_page_found [OF ok v Some] Some touches_refl [OF ok] in simp_all)
next
  case None
  note D = pd_okD [OF ok]
  have z: "load_word s (pd + 4 * pd_no v) = Some 0" using D(5) [OF pd_no_user [OF v]] None by (simp add: load_word_def)
  show thesis
    using D(1) disjI2 [OF refl]
  proof (cases rule: get_page_cases [of s PAL_ZERO])
    case g: (got pt s1)
    have z1: "mem s1 a = (if a \<in> words_in pt 1024 then Some 0 else mem s a)" for a using g(5) by simp
    from pd_ok_new_table [OF ok pd_no_user [OF v] None g(2-4) z1 g(6,7)]
    obtain d s2 where n: "pde_create pt = Some d" "store_word (pd + 4 * pd_no v) d s1 = Some s2" "touches s pd s2"
      "\<And>w. is_user_vaddr w \<Longrightarrow> entry s2 pd w = entry s pd w" "tab s2 pd (pd_no v) = Some pt"
      "load_word s2 (pd + 4 * pd_no v) = Some d" "pde_get_pt d = Some pt" "tlb s2 = tlb s" "cr3 s2 = cr3 s" by metis
    have "pt \<noteq> 0" using held_props(2) [of s1 pt] g(2,4) by simp
    then have "lookup_page pd v True s = Some (pt + 4 * pt_no v, s2)"
      using D(3) v z g(1) n by (simp add: lookup_page_def)
    then show thesis using got [of pt s2] n by simp
  next
    case full
    then show thesis using that(2) D(3) v z by (simp add: lookup_page_def)
  qed
qed

end
