(* ===== verification/Kpagedir_Props.thy ===== *)
theory Kpagedir_Props
  imports Kpagedir_Spec
begin

text \<open>
  The operations on page directories as updates of the entries, the translations the processor
  may have cached, and the properties.
\<close>

unbundle bit_operations_syntax

section \<open>Operations on entries\<close>

lemma pagedir_get_page_entry:
  assumes ok: "pd_ok s pd" and v: "is_user_vaddr v"
  shows "pagedir_get_page pd v s =
    (if entry s pd v AND PTE_P \<noteq> 0 then do { p \<leftarrow> pte_get_page (entry s pd v); Some (p + pg_ofs v) } else Some 0)"
proof (cases "tab s pd (pd_no v)")
  case None
  then show ?thesis using lookup_page_missing [OF ok v] v by (simp add: pagedir_get_page_def)
next
  case (Some pt)
  then show ?thesis using lookup_page_found [OF ok v] v by (simp add: pagedir_get_page_def)
qed

lemma pte_flag_entry:
  assumes ok: "pd_ok s pd" and v: "is_user_vaddr v"
  shows "pte_flag f pd v s = Some (entry s pd v AND f \<noteq> 0)"
proof (cases "tab s pd (pd_no v)")
  case None
  then show ?thesis using lookup_page_missing [OF ok v] by (simp add: pte_flag_def)
next
  case (Some pt)
  then show ?thesis using lookup_page_found [OF ok v] by (simp add: pte_flag_def)
qed

text \<open>An update of one entry, seen from the directory and from the caches.\<close>

definition entry_upd :: "vm \<Rightarrow> u32 \<Rightarrow> u32 \<Rightarrow> u32 \<Rightarrow> vm \<Rightarrow> bool" where
  "entry_upd s pd v e s' \<longleftrightarrow> touches s pd s' \<and> cr3 s' = cr3 s \<and>
     (\<forall>w. is_user_vaddr w \<longrightarrow> entry s' pd w = (if pg_no w = pg_no v then e else entry s pd w))"

lemma pagedir_set_page_cases:
  assumes ok: "pd_ok s pd" and v: "is_user_vaddr upage" "pg_ofs upage = 0" and k: "is_kernel_vaddr kpage" "pg_ofs kpage = 0"
    and ram: "drop_bit PTSHIFT (kpage - PHYS_BASE) < init_ram_pages s" and init: "pd \<noteq> init_page_dir s"
    and free: "entry s pd upage AND PTE_P = 0"
  obtains (mapped) e s' where "pagedir_set_page pd upage kpage w s = Some (True, s')" and "entry_upd s pd upage e s'"
      and "tlb s' = tlb s" and "pte_get_page e = Some kpage" and "e AND PTE_P \<noteq> 0" and "(e AND PTE_W \<noteq> 0) = w"
  | (full) "pagedir_set_page pd upage kpage w s = Some (False, s)" and "kernel_full s"
proof -
  have vt: "vtop kpage = Some (kpage - PHYS_BASE)" using k by (simp add: vtop_def)
  obtain e where e: "pte_create_user kpage w = Some e" "pte_get_page e = Some kpage" "e AND PTE_P \<noteq> 0" "(e AND PTE_W \<noteq> 0) = w"
    using pte_roundtrip [OF k(2,1), of w] by metis
  show thesis
    using ok v(1)
  proof (cases rule: lookup_page_create [of s pd upage])
    case g: (got pt s1)
    have ok1: "pd_ok s1 pd" using g(2) by (simp add: touches_def)
    note f = lookup_page_found [OF ok1 v(1) g(3)]
    obtain s2 where s2: "store_word (pt + 4 * pt_no upage) e s1 = Some s2" "touches s1 pd s2"
        "\<And>w. is_user_vaddr w \<Longrightarrow> entry s2 pd w = (if pg_no w = pg_no upage then e else entry s1 pd w)"
        "tlb s2 = tlb s1" "cr3 s2 = cr3 s1"
      using store_pte [OF ok1 v(1) g(3), of e] by metis
    have "pagedir_set_page pd upage kpage w s = Some (True, s2)"
      using v k vt ram init g(1) f(2,3) g(4) [OF v(1)] free e(1) s2(1) by (simp add: pagedir_set_page_def)
    then show thesis using mapped [of s2 e] s2 g e touches_trans [OF g(2) s2(2)] by (simp add: entry_upd_def)
  next
    case full
    then show thesis using that(2) v k vt ram init by (simp add: pagedir_set_page_def)
  qed
qed

lemma invalidate_cases:
  assumes "active_pd s \<noteq> None" and "is_kernel_vaddr pd" and "pd \<noteq> 0"
  shows "invalidate_pagedir pd s = Some (if active_pd s = Some pd then s\<lparr>cr3 := pd - PHYS_BASE, tlb := Map.empty\<rparr> else s)"
  using assms by (auto simp: invalidate_pagedir_def pagedir_activate_def vtop_def)

lemma active_pd_cr3: "cr3 s' = cr3 s \<Longrightarrow> active_pd s' = active_pd s"
  by (simp add: active_pd_def)

lemma held_same [simp]: "held (s\<lparr>cr3 := c, tlb := t\<rparr>) = held s"
  by (simp add: held_def fun_eq_iff)

lemma tab_same [simp]: "tab (s\<lparr>cr3 := c, tlb := t\<rparr>) = tab s"
  by (simp add: tab_def fun_eq_iff)

lemma directory_same [simp]:
  "pd_ok (s\<lparr>cr3 := c, tlb := t\<rparr>) = pd_ok s" "tables (s\<lparr>cr3 := c, tlb := t\<rparr>) = tables s"
  "entry (s\<lparr>cr3 := c, tlb := t\<rparr>) = entry s"
  by (simp_all add: pd_ok_def tables_def entry_def fun_eq_iff cong: option.case_cong)

lemma touches_flush: "touches s pd s' \<Longrightarrow> touches s pd (s'\<lparr>cr3 := c, tlb := t\<rparr>)"
  by (simp add: touches_def)

text \<open>Writing an entry and then dropping the cached translations if the directory is in use.\<close>

lemma store_invalidate:
  assumes ok: "pd_ok s pd" and v: "is_user_vaddr v" and pt: "tab s pd (pd_no v) = Some pt" and act: "active_pd s \<noteq> None"
  obtains s' s'' where "store_word (pt + 4 * pt_no v) e s = Some s'" and "invalidate_pagedir pd s' = Some s''"
    and "entry_upd s pd v e s'" and "entry_upd s pd v e s''" and "tlb s' = tlb s"
    and "tlb s'' = (if active_pd s = Some pd then Map.empty else tlb s)"
proof -
  obtain s' where s': "store_word (pt + 4 * pt_no v) e s = Some s'" "touches s pd s'"
      "\<And>w. is_user_vaddr w \<Longrightarrow> entry s' pd w = (if pg_no w = pg_no v then e else entry s pd w)" "tlb s' = tlb s" "cr3 s' = cr3 s"
    using store_pte [OF ok v pt, of e] by metis
  note D = pd_okD [OF ok]
  note h = held_props [OF D(2,1)]
  have a: "active_pd s' = active_pd s" by (rule active_pd_cr3 [OF s'(5)])
  have i: "invalidate_pagedir pd s' = Some (if active_pd s = Some pd then s'\<lparr>cr3 := pd - PHYS_BASE, tlb := Map.empty\<rparr> else s')"
    using invalidate_cases [of s' pd] act a h(2,3) by simp
  have c: "pd - PHYS_BASE = cr3 s" if "active_pd s = Some pd"
    using that by (auto simp: active_pd_def ptov_def ASSERT_def split: if_splits)
  show thesis
    by (rule that [OF s'(1) i]) (use s' c touches_flush [OF s'(2)] in \<open>auto simp: entry_upd_def\<close>)
qed

lemma pagedir_clear_page_cases:
  assumes ok: "pd_ok s pd" and v: "is_user_vaddr upage" "pg_ofs upage = 0" and act: "active_pd s \<noteq> None"
  obtains (cleared) s' where "pagedir_clear_page pd upage s = Some s'" and "entry s pd upage AND PTE_P \<noteq> 0"
      and "entry_upd s pd upage (entry s pd upage AND NOT PTE_P) s'"
      and "tlb s' = (if active_pd s = Some pd then Map.empty else tlb s)"
  | (absent) "pagedir_clear_page pd upage s = Some s" and "entry s pd upage AND PTE_P = 0"
proof (cases "tab s pd (pd_no upage)")
  case None
  then show thesis using that(2) lookup_page_missing [OF ok v(1)] v by (simp add: pagedir_clear_page_def)
next
  case (Some pt)
  note f = lookup_page_found [OF ok v(1) Some]
  show thesis
  proof (cases "entry s pd upage AND PTE_P = 0")
    case True
    then show thesis using that(2) f v by (simp add: pagedir_clear_page_def)
  next
    case False
    obtain s' s'' where s: "store_word (pt + 4 * pt_no upage) (entry s pd upage AND NOT PTE_P) s = Some s'"
        "invalidate_pagedir pd s' = Some s''" "entry_upd s pd upage (entry s pd upage AND NOT PTE_P) s''"
        "tlb s'' = (if active_pd s = Some pd then Map.empty else tlb s)"
      using store_invalidate [OF ok v(1) Some act, of "entry s pd upage AND NOT PTE_P"] by metis
    then show thesis using that(1) [of s''] False f v by (simp add: pagedir_clear_page_def)
  qed
qed


section \<open>Cached translations\<close>

text \<open>The bits of an entry that the processor uses to translate and to check an access.\<close>

definition TLB_BITS :: u32 where
  "TLB_BITS = PTE_ADDR OR PTE_P OR PTE_W OR PTE_U"

text \<open>
  The processor only caches entries that are present; every cached one must still be what the
  directory says, up to the accessed and dirty bits.
\<close>

definition tlb_ok :: "vm \<Rightarrow> u32 \<Rightarrow> bool" where
  "tlb_ok s a \<longleftrightarrow> active_pd s = Some a \<and>
     (\<forall>v e. is_user_vaddr v \<longrightarrow> tlb s (pg_no v) = Some e \<longrightarrow> e AND PTE_P \<noteq> 0 \<and> entry s a v AND TLB_BITS = e AND TLB_BITS)"






section \<open>Properties\<close>

text \<open>
  A machine with five kernel pages, of which the first holds the boot directory, the second a
  page directory and the third a page table, and four user pages, the first of them in use.
\<close>

definition demo_vm :: "(u32 \<Rightarrow> u32) \<Rightarrow> vm" where
  "demo_vm words = \<lparr>vpages = \<lparr>kernel_pool = \<lparr>used_map = \<lparr>bit_cnt = 5, bits = [7]\<rparr>, base = 0xc0100000\<rparr>,
       user_pool = \<lparr>used_map = \<lparr>bit_cnt = 4, bits = [1]\<rparr>, base = 0xc0105000\<rparr>,
       pmem = (\<lambda>a. if 0xc0100000 \<le> a then Some (words a) else None)\<rparr>,
     init_page_dir = 0xc0100000, init_ram_pages = 0x400, cr3 = 0x101000, tlb = Map.empty\<rparr>"

lemma demo_vm_fields [simp]: "init_page_dir (demo_vm words) = 0xc0100000" "init_ram_pages (demo_vm words) = 0x400"
  by (simp_all add: demo_vm_def)

lemma demo_vm_ok: "palloc_ok (vpages (demo_vm words))"
  by (auto simp: palloc_ok_def pool_ok_def demo_vm_def bm_inv_def elem_cnt_def ELEM_BITS_def pg_ofs_0_iff
      is_kernel_vaddr_def PHYS_BASE_def words_in_def word_le_nat_alt)

lemma demo_vm_held: "held (demo_vm words) 0xc0100000" "held (demo_vm words) 0xc0101000" "held (demo_vm words) 0xc0102000"
proof -
  have b: "bit (7 :: u32) 0" "bit (7 :: u32) 1" "bit (7 :: u32) 2" by (simp_all add: bit_iff_odd)
  have "0 \<in> bm_used (used_map (kernel_pool (vpages (demo_vm words))))" "1 \<in> bm_used (used_map (kernel_pool (vpages (demo_vm words))))"
    "2 \<in> bm_used (used_map (kernel_pool (vpages (demo_vm words))))"
    using b by (simp_all add: bm_used_def bm_bit_def demo_vm_def)
  moreover have "page_at (kernel_pool (vpages (demo_vm words))) 0 = 0xc0100000" "page_at (kernel_pool (vpages (demo_vm words))) 1 = 0xc0101000"
    "page_at (kernel_pool (vpages (demo_vm words))) 2 = 0xc0102000"
    by (simp_all add: page_at_def demo_vm_def)
  ultimately show "held (demo_vm words) 0xc0100000" "held (demo_vm words) 0xc0101000" "held (demo_vm words) 0xc0102000"
    unfolding held_def by metis+
qed

lemma demo_vm_mem:
  assumes "held (demo_vm words) p" and "unat j < 1024"
  shows "mem (demo_vm words) (p + 4 * j) = Some (words (p + 4 * j))"
  using held_props(5) [OF assms(1) demo_vm_ok assms(2)] by (simp add: demo_vm_def split: if_splits)

lemma demo_vm_empty: "pd_ok (demo_vm (\<lambda>a. 0)) 0xc0101000" "entry (demo_vm (\<lambda>a. 0)) 0xc0101000 v = 0"
  "active_pd (demo_vm words) = Some 0xc0101000" "tlb_ok (demo_vm (\<lambda>a. 0)) 0xc0101000"
proof -
  have m: "mem (demo_vm (\<lambda>a. 0)) (0xc0101000 + 4 * i) = Some 0" if "unat i < 1024" for i
    by (rule demo_vm_mem [OF demo_vm_held(2) that])
  have t: "tab (demo_vm (\<lambda>a. 0)) 0xc0101000 i = None" if "unat i < 1024" for i using m [OF that] by (simp add: tab_def)
  show "pd_ok (demo_vm (\<lambda>a. 0)) 0xc0101000" using demo_vm_ok demo_vm_held(2) m t by (simp add: pd_ok_def)
  show "entry (demo_vm (\<lambda>a. 0)) 0xc0101000 v = 0" using t [OF index_bounds(1)] by (simp add: entry_def)
  show a: "active_pd (demo_vm words) = Some 0xc0101000" for words by (simp add: active_pd_def demo_vm_def ptov_def PHYS_BASE_def)
  show "tlb_ok (demo_vm (\<lambda>a. 0)) 0xc0101000" using a by (simp add: tlb_ok_def) (simp add: demo_vm_def)
qed

text \<open>
  C31: mapping a user page that is not mapped either fails because the kernel pool is empty, and
  then nothing changed, or makes \<^verbatim>\<open>pagedir_get_page\<close> answer the given frame, at the same offset,
  for every address of that page, and what it answered before for every other address; clearing
  the page again makes it unmapped. Every other page directory whose tables are separate stays
  well-formed, stays separate and translates every address as before.
\<close>

theorem pagedir_set_get_clear:
  assumes "pd_ok s pd" and "is_user_vaddr upage" and "pg_ofs upage = 0" and "is_kernel_vaddr kpage" and "pg_ofs kpage = 0"
    and "drop_bit PTSHIFT (kpage - PHYS_BASE) < init_ram_pages s" and "pd \<noteq> init_page_dir s"
    and "entry s pd upage AND PTE_P = 0" and "active_pd s = Some a"
  shows "case pagedir_set_page pd upage kpage w s of
      None \<Rightarrow> False
    | Some (False, s1) \<Rightarrow> s1 = s \<and> kernel_full s
    | Some (True, s1) \<Rightarrow> pd_ok s1 pd \<and>
        (\<forall>v. is_user_vaddr v \<longrightarrow>
          pagedir_get_page pd v s1 = (if pg_no v = pg_no upage then Some (kpage + pg_ofs v) else pagedir_get_page pd v s)) \<and>
        (\<forall>pd' v. pd_ok s pd' \<longrightarrow> tables s pd \<inter> tables s pd' = {} \<longrightarrow> is_user_vaddr v \<longrightarrow>
          pd_ok s1 pd' \<and> tables s1 pd \<inter> tables s1 pd' = {} \<and> pagedir_get_page pd' v s1 = pagedir_get_page pd' v s) \<and>
        (\<exists>s2. pagedir_clear_page pd upage s1 = Some s2 \<and> pd_ok s2 pd \<and>
          (\<forall>v. is_user_vaddr v \<longrightarrow> pagedir_get_page pd v s2 = (if pg_no v = pg_no upage then Some 0 else pagedir_get_page pd v s)))"
  using assms(1-8)
proof (cases rule: pagedir_set_page_cases [of s pd upage kpage w])
  case (mapped e s1)
  have ok1: "pd_ok s1 pd" and en: "\<And>w. is_user_vaddr w \<Longrightarrow> entry s1 pd w = (if pg_no w = pg_no upage then e else entry s pd w)"
    using mapped(2) by (auto simp: entry_upd_def touches_def)
  have g1: "pagedir_get_page pd v s1 = (if pg_no v = pg_no upage then Some (kpage + pg_ofs v) else pagedir_get_page pd v s)"
    if "is_user_vaddr v" for v
    using pagedir_get_page_entry [OF ok1 that] pagedir_get_page_entry [OF assms(1) that] en [OF that] mapped(4,5) by simp
  have act: "active_pd s1 \<noteq> None" using mapped(2) assms(9) active_pd_cr3 [of s1 s] by (simp add: entry_upd_def)
  have oth: "pd_ok s1 pd' \<and> tables s1 pd \<inter> tables s1 pd' = {} \<and> pagedir_get_page pd' v s1 = pagedir_get_page pd' v s"
    if "pd_ok s pd'" "tables s pd \<inter> tables s pd' = {}" "is_user_vaddr v" for pd' v
  proof -
    have "touches s pd s1" using mapped(2) by (simp add: entry_upd_def)
    note t = touches_other [OF this that(1,2)]
    show ?thesis using t(1,3) pagedir_get_page_entry [OF t(1) that(3)] pagedir_get_page_entry [OF that(1,3)] t(4) [OF that(3)] by simp
  qed
  have "\<exists>s2. pagedir_clear_page pd upage s1 = Some s2 \<and> pd_ok s2 pd \<and>
      (\<forall>v. is_user_vaddr v \<longrightarrow> pagedir_get_page pd v s2 = (if pg_no v = pg_no upage then Some 0 else pagedir_get_page pd v s))"
    using ok1 assms(2,3) act
  proof (cases rule: pagedir_clear_page_cases [of s1 pd upage])
    case (cleared s2)
    have ok2: "pd_ok s2 pd" using cleared(3) by (simp add: entry_upd_def touches_def)
    have "(entry s1 pd upage AND NOT PTE_P) AND PTE_P = 0" by (simp add: and.assoc)
    then have "pagedir_get_page pd v s2 = (if pg_no v = pg_no upage then Some 0 else pagedir_get_page pd v s)" if "is_user_vaddr v" for v
      using pagedir_get_page_entry [OF ok2 that] pagedir_get_page_entry [OF assms(1) that] en [OF that] cleared(3) that
      by (simp add: entry_upd_def)
    then show ?thesis using cleared(1) ok2 by blast
  next
    case absent
    then show ?thesis using en [OF assms(2)] mapped(5) by simp
  qed
  then show ?thesis using mapped(1) ok1 g1 oth by auto
next
  case full
  then show ?thesis by simp
qed

theorem pagedir_set_get_clear_witness:
  "case pagedir_set_page 0xc0101000 0x8048000 0xc0105000 True (demo_vm (\<lambda>a. 0)) of
      None \<Rightarrow> False
    | Some (False, s1) \<Rightarrow> s1 = demo_vm (\<lambda>a. 0) \<and> kernel_full (demo_vm (\<lambda>a. 0))
    | Some (True, s1) \<Rightarrow> pd_ok s1 0xc0101000 \<and>
        (\<forall>v. is_user_vaddr v \<longrightarrow> pagedir_get_page 0xc0101000 v s1 =
          (if pg_no v = pg_no 0x8048000 then Some (0xc0105000 + pg_ofs v) else pagedir_get_page 0xc0101000 v (demo_vm (\<lambda>a. 0)))) \<and>
        (\<forall>pd' v. pd_ok (demo_vm (\<lambda>a. 0)) pd' \<longrightarrow> tables (demo_vm (\<lambda>a. 0)) 0xc0101000 \<inter> tables (demo_vm (\<lambda>a. 0)) pd' = {} \<longrightarrow>
          is_user_vaddr v \<longrightarrow> pd_ok s1 pd' \<and> tables s1 0xc0101000 \<inter> tables s1 pd' = {} \<and>
          pagedir_get_page pd' v s1 = pagedir_get_page pd' v (demo_vm (\<lambda>a. 0))) \<and>
        (\<exists>s2. pagedir_clear_page 0xc0101000 0x8048000 s1 = Some s2 \<and> pd_ok s2 0xc0101000 \<and>
          (\<forall>v. is_user_vaddr v \<longrightarrow> pagedir_get_page 0xc0101000 v s2 =
            (if pg_no v = pg_no 0x8048000 then Some 0 else pagedir_get_page 0xc0101000 v (demo_vm (\<lambda>a. 0)))))"
  by (rule pagedir_set_get_clear [OF demo_vm_empty(1) _ _ _ _ _ _ _ demo_vm_empty(3)])
    (simp_all add: demo_vm_empty(2) is_user_vaddr_def is_kernel_vaddr_def PHYS_BASE_def pg_ofs_0_iff PTSHIFT_def PGBITS_def drop_bit_eq_div)




end
