(* ===== verification/Kpagedir_Life.thy ===== *)
theory Kpagedir_Life
  imports Kpagedir_Props
begin

text \<open>
  The life of a page directory: \<^verbatim>\<open>pagedir_create\<close> gives an empty user address space on a
  page of its own, \<^verbatim>\<open>pagedir_destroy\<close> gives back the directory, its tables and the frames
  that it maps, and nothing else.
\<close>

unbundle bit_operations_syntax

section \<open>Giving back one page\<close>

definition uheld :: "vm \<Rightarrow> u32 \<Rightarrow> bool" where
  "uheld s p \<longleftrightarrow> (\<exists>i\<in>bm_used (used_map (user_pool (vpages s))). p = page_at (user_pool (vpages s)) i)"

text \<open>The words of the pages in use of the kernel pool, other than those of some pages.\<close>

definition kept :: "vm \<Rightarrow> vm \<Rightarrow> u32 set \<Rightarrow> bool" where
  "kept s s' Q \<longleftrightarrow> (\<forall>q j. held s q \<longrightarrow> q \<notin> Q \<longrightarrow> unat j < 1024 \<longrightarrow> mem s' (q + 4 * j) = mem s (q + 4 * j))"

definition same_cpu :: "vm \<Rightarrow> vm \<Rightarrow> bool" where
  "same_cpu s s' \<longleftrightarrow> s' = s\<lparr>vpages := vpages s'\<rparr>"

lemma same_cpu_refl [simp]: "same_cpu s s"
  by (simp add: same_cpu_def)

lemma same_cpu_trans: "same_cpu s s' \<Longrightarrow> same_cpu s' s'' \<Longrightarrow> same_cpu s s''"
  unfolding same_cpu_def by (metis vm.cases vm.update_convs(1) vm.select_convs(1))

lemma page_at_inj:
  assumes "pool_ok m p" and "i < bit_cnt (used_map p)" and "j < bit_cnt (used_map p)"
  shows "page_at p i = page_at p j \<longleftrightarrow> i = j"
  using unat_page_at [OF assms(1,2)] unat_page_at [OF assms(1,3)] by (metis add_left_cancel mult_left_cancel zero_neq_numeral)

lemma used_bound: "i \<in> bm_used b \<Longrightarrow> i < bit_cnt b"
  by (simp add: bm_used_def)

text \<open>The pages of the two pools are apart.\<close>

lemma kernel_user_apart:
  assumes ok: "palloc_ok (vpages s)" and q: "held s q" and j: "unat j < 1024"
    and i: "i < bit_cnt (used_map (user_pool (vpages s)))"
  shows "q + 4 * j \<notin> words_in (page_at (user_pool (vpages s)) i) 1024"
proof -
  obtain k where k: "k < bit_cnt (used_map (kernel_pool (vpages s)))" "q = page_at (kernel_pool (vpages s)) k"
    using held_cases [OF q ok] by blast
  have pk: "pool_ok (mem s) (kernel_pool (vpages s))" and pu: "pool_ok (mem s) (user_pool (vpages s))"
    and ap: "unat (base (kernel_pool (vpages s))) + 4096 * bit_cnt (used_map (kernel_pool (vpages s))) \<le> unat (base (user_pool (vpages s)))"
    using ok by (auto simp: palloc_ok_def)
  have "unat (q + 4 * j) = unat q + 4 * unat j" by (rule held_props(4) [OF q ok j])
  also have "\<dots> < unat (base (kernel_pool (vpages s))) + 4096 * Suc k" using unat_page_at [OF pk k(1)] k(2) j by simp
  also have "\<dots> \<le> unat (base (user_pool (vpages s)))" 
  proof -
    have "4096 * Suc k \<le> 4096 * bit_cnt (used_map (kernel_pool (vpages s)))" using k(1) by simp
    then show ?thesis using ap by linarith
  qed
  also have "\<dots> \<le> unat (page_at (user_pool (vpages s)) i)" using unat_page_at [OF pu i] by simp
  finally show ?thesis by (simp add: words_in_def)
qed

lemma free_user_page:
  assumes ok: "palloc_ok (vpages s)" and u: "uheld s p"
  obtains s' where "free_page p s = Some s'" and "palloc_ok (vpages s')" and "same_cpu s s'" and "kept s s' {}"
    and "held s' = held s" and "\<And>q. uheld s' q \<longleftrightarrow> uheld s q \<and> q \<noteq> p"
proof -
  let ?p = "user_pool (vpages s)"
  have po: "pool_of PAL_USER (vpages s) = ?p" by (simp add: pool_of_def PAL_USER_def)
  obtain i where i: "i \<in> bm_used (used_map ?p)" "p = page_at ?p i" using u by (auto simp: uheld_def)
  note ib = used_bound [OF i(1)]
  have pu: "pool_ok (mem s) ?p" using ok by (simp add: palloc_ok_def)
  have one: "i + 1 \<le> bit_cnt (used_map (pool_of PAL_USER (vpages s)))" using ib po by simp
  show thesis
    using ok disjI2 [OF refl] zero_less_one one
  proof (cases rule: palloc_free_cases [of "vpages s" PAL_USER 1 i])
    case (freed b)
    let ?s = "s\<lparr>vpages := (set_pool_of PAL_USER b (vpages s))\<lparr>pmem :=
        (\<lambda>a. if a \<in> page_words ?p i 1 then Some 0xcccccccc else mem s a)\<rparr>\<rparr>"
    have f: "free_page p s = Some ?s" using freed(2) i(2) po by (simp add: free_page_def palloc_free_page_def)
    have ok': "palloc_ok (vpages ?s)" using palloc_ok_upd [OF ok freed(3,4) dom_upd_subset] by simp
    have kp: "kernel_pool (vpages ?s) = kernel_pool (vpages s)" "user_pool (vpages ?s) = ?p\<lparr>used_map := b\<rparr>"
      by (simp_all add: set_pool_of_def PAL_USER_def)
    have k: "kept s ?s {}" using kernel_user_apart [OF ok _ _ ib] by (simp add: kept_def page_words_def)
    have h: "held ?s = held s" unfolding held_def [abs_def] kp ..
    have uh: "uheld ?s q \<longleftrightarrow> uheld s q \<and> q \<noteq> p" for q
    proof -
      have "uheld ?s q \<longleftrightarrow> (\<exists>j\<in>bm_used (used_map ?p) - {i}. q = page_at ?p j)"
        using freed(5) po unfolding uheld_def kp by (simp add: page_at_def)
      also have "\<dots> \<longleftrightarrow> uheld s q \<and> q \<noteq> p"
        using page_at_inj [OF pu _ ib] i(2) used_bound unfolding uheld_def by blast
      finally show ?thesis .
    qed
    show thesis by (rule that [OF f ok' _ k h uh]) (simp add: same_cpu_def)
  next
    case wild
    then show thesis using i(1) po by simp
  qed
qed

lemma free_kernel_page:
  assumes ok: "palloc_ok (vpages s)" and u: "held s p"
  obtains s' where "free_page p s = Some s'" and "palloc_ok (vpages s')" and "same_cpu s s'" and "kept s s' {p}"
    and "uheld s' = uheld s" and "\<And>q. held s' q \<longleftrightarrow> held s q \<and> q \<noteq> p"
proof -
  let ?p = "kernel_pool (vpages s)"
  have po: "pool_of 0 (vpages s) = ?p" by (simp add: pool_of_def)
  obtain i where i: "i \<in> bm_used (used_map ?p)" "p = page_at ?p i" using u by (auto simp: held_def)
  note ib = used_bound [OF i(1)]
  have pu: "pool_ok (mem s) ?p" using ok by (simp add: palloc_ok_def)
  have one: "i + 1 \<le> bit_cnt (used_map (pool_of 0 (vpages s)))" using ib po by simp
  show thesis
    using ok disjI1 [OF refl] zero_less_one one
  proof (cases rule: palloc_free_cases [of "vpages s" 0 1 i])
    case (freed b)
    let ?s = "s\<lparr>vpages := (set_pool_of 0 b (vpages s))\<lparr>pmem :=
        (\<lambda>a. if a \<in> page_words ?p i 1 then Some 0xcccccccc else mem s a)\<rparr>\<rparr>"
    have f: "free_page p s = Some ?s" using freed(2) i(2) po by (simp add: free_page_def palloc_free_page_def)
    have ok': "palloc_ok (vpages ?s)" using palloc_ok_upd [OF ok freed(3,4) dom_upd_subset] by simp
    have kp: "user_pool (vpages ?s) = user_pool (vpages s)" "kernel_pool (vpages ?s) = ?p\<lparr>used_map := b\<rparr>"
      by (simp_all add: set_pool_of_def)
    have k: "kept s ?s {p}" using entry_address_page [OF u _ ok] i(2) by (auto simp: kept_def page_words_def)
    have h: "uheld ?s = uheld s" unfolding uheld_def [abs_def] kp ..
    have uh: "held ?s q \<longleftrightarrow> held s q \<and> q \<noteq> p" for q
    proof -
      have "held ?s q \<longleftrightarrow> (\<exists>j\<in>bm_used (used_map ?p) - {i}. q = page_at ?p j)"
        using freed(5) po unfolding held_def kp by (simp add: page_at_def)
      also have "\<dots> \<longleftrightarrow> held s q \<and> q \<noteq> p"
        using page_at_inj [OF pu _ ib] i(2) used_bound unfolding held_def by blast
      finally show ?thesis .
    qed
    show thesis by (rule that [OF f ok' _ k h uh]) (simp add: same_cpu_def)
  next
    case wild
    then show thesis using i(1) po by simp
  qed
qed

section \<open>Giving back the frames of a table\<close>

definition frame_of :: "vm \<Rightarrow> u32 \<Rightarrow> nat \<Rightarrow> u32 option" where
  "frame_of s pt k =
     (case mem s (pt + 4 * of_nat k) of None \<Rightarrow> None | Some e \<Rightarrow> if e AND PTE_P \<noteq> 0 then pte_get_page e else None)"

text \<open>Every present entry is for a page in use of the user pool.\<close>

definition frames_ok :: "vm \<Rightarrow> u32 \<Rightarrow> nat set \<Rightarrow> bool" where
  "frames_ok s pt K \<longleftrightarrow> (\<forall>k\<in>K. \<forall>e. mem s (pt + 4 * of_nat k) = Some e \<longrightarrow> e AND PTE_P \<noteq> 0 \<longrightarrow>
     (\<exists>f. pte_get_page e = Some f \<and> uheld s f))"

lemma frames_okD:
  assumes "frames_ok s pt K" and "k \<in> K" and "mem s (pt + 4 * of_nat k) = Some e" and "e AND PTE_P \<noteq> 0"
  obtains f where "pte_get_page e = Some f" and "uheld s f" and "frame_of s pt k = Some f"
proof -
  obtain f where "pte_get_page e = Some f" "uheld s f" using assms unfolding frames_ok_def by blast
  then show thesis using that assms(3,4) by (simp add: frame_of_def)
qed

lemma unat_index: "k < 1024 \<Longrightarrow> unat (of_nat k :: u32) = k"
  by (simp add: unat_of_nat)

lemma kept_nat: "kept s s' Q \<Longrightarrow> held s q \<Longrightarrow> q \<notin> Q \<Longrightarrow> k < 1024 \<Longrightarrow> mem s' (q + 4 * of_nat k) = mem s (q + 4 * of_nat k)"
  using unat_index [of k] by (simp add: kept_def)

lemma kept_trans:
  assumes "kept s s' Q" and "kept s' s'' Q'" and "\<And>q. held s q \<Longrightarrow> q \<notin> Q \<Longrightarrow> held s' q"
  shows "kept s s'' (Q \<union> Q')"
  using assms by (simp add: kept_def)

lemma frame_of_kept: "kept s s' Q \<Longrightarrow> held s q \<Longrightarrow> q \<notin> Q \<Longrightarrow> k < 1024 \<Longrightarrow> frame_of s' q k = frame_of s q k"
  by (simp add: frame_of_def kept_nat)

lemma destroy_ptes_ok:
  assumes "palloc_ok (vpages s)" and "held s pt" and "i + n \<le> 1024" and "frames_ok s pt {i..<i + n}"
    and "\<forall>j\<in>{i..<i + n}. \<forall>k\<in>{i..<i + n}. \<forall>f. frame_of s pt j = Some f \<longrightarrow> frame_of s pt k = Some f \<longrightarrow> j = k"
  shows "\<exists>s'. destroy_ptes (pt + 4 * of_nat i) n s = Some s' \<and> palloc_ok (vpages s') \<and> same_cpu s s' \<and> kept s s' {} \<and>
    held s' = held s \<and> (\<forall>q. uheld s' q \<longleftrightarrow> uheld s q \<and> (\<forall>k\<in>{i..<i + n}. frame_of s pt k \<noteq> Some q))"
  using assms
proof (induction n arbitrary: i s)
  case 0
  then show ?case by (simp add: kept_def)
next
  case (Suc n)
  have i: "i < 1024" using Suc.prems(3) by simp
  obtain e where e: "mem s (pt + 4 * of_nat i) = Some e"
    using held_props(5) [OF Suc.prems(2,1), of "of_nat i"] unat_index [OF i] i by auto
  have next_ptr: "pt + 4 * of_nat i + 4 = pt + 4 * of_nat (Suc i)" by (simp add: algebra_simps)
  have range: "{i..<i + Suc n} = insert i {Suc i..<Suc i + n}" by auto
  obtain s1 where s1: "(if e AND PTE_P \<noteq> 0 then do { p \<leftarrow> pte_get_page e; free_page p s } else Some s) = Some s1"
      "palloc_ok (vpages s1)" "same_cpu s s1" "kept s s1 {}" "held s1 = held s"
      "\<And>q. uheld s1 q \<longleftrightarrow> uheld s q \<and> frame_of s pt i \<noteq> Some q"
  proof (cases "e AND PTE_P \<noteq> 0")
    case True
    from frames_okD [OF Suc.prems(4) _ e this] obtain f where f: "pte_get_page e = Some f" "uheld s f" "frame_of s pt i = Some f" by auto
    obtain s1 where "free_page f s = Some s1" "palloc_ok (vpages s1)" "same_cpu s s1" "kept s s1 {}" "held s1 = held s"
        "\<And>q. uheld s1 q \<longleftrightarrow> uheld s q \<and> q \<noteq> f"
      using free_user_page [OF Suc.prems(1) f(2)] by blast
    then show thesis using that [of s1] f True by auto
  next
    case False
    then have "frame_of s pt i = None" using e by (simp add: frame_of_def)
    then show thesis using that [of s] False Suc.prems(1) by (simp add: kept_def)
  qed
  have fr: "frame_of s1 pt k = frame_of s pt k" if "k < 1024" for k using frame_of_kept [OF s1(4) Suc.prems(2) _ that] by simp
  have h1: "held s1 pt" using s1(5) Suc.prems(2) by simp
  have fo: "frames_ok s1 pt {Suc i..<Suc i + n}"
    unfolding frames_ok_def
  proof (intro ballI allI impI)
    fix k d assume k: "k \<in> {Suc i..<Suc i + n}" and d: "mem s1 (pt + 4 * of_nat k) = Some d" "d AND PTE_P \<noteq> 0"
    have kb: "k < 1024" using k Suc.prems(3) by simp
    have d': "mem s (pt + 4 * of_nat k) = Some d" using kept_nat [OF s1(4) Suc.prems(2) _ kb] d(1) by simp
    have "k \<in> {i..<i + Suc n}" using k by simp
    from frames_okD [OF Suc.prems(4) this d' d(2)] obtain f where f: "pte_get_page d = Some f" "uheld s f" "frame_of s pt k = Some f" .
    then have "frame_of s pt i \<noteq> Some f" using Suc.prems(5) k by fastforce
    then show "\<exists>f. pte_get_page d = Some f \<and> uheld s1 f" using f s1(6) by auto
  qed
  have b: "Suc i + n \<le> 1024" using Suc.prems(3) by simp
  have inj: "\<forall>j\<in>{Suc i..<Suc i + n}. \<forall>k\<in>{Suc i..<Suc i + n}. \<forall>f. frame_of s1 pt j = Some f \<longrightarrow> frame_of s1 pt k = Some f \<longrightarrow> j = k"
    using Suc.prems(3,5) fr by simp
  obtain s' where s': "destroy_ptes (pt + 4 * of_nat (Suc i)) n s1 = Some s'" "palloc_ok (vpages s')" "same_cpu s1 s'"
      "kept s1 s' {}" "held s' = held s1" "\<And>q. uheld s' q \<longleftrightarrow> uheld s1 q \<and> (\<forall>k\<in>{Suc i..<Suc i + n}. frame_of s1 pt k \<noteq> Some q)"
    using Suc.IH [OF s1(2) h1 b fo inj] by blast
  have "destroy_ptes (pt + 4 * of_nat i) (Suc n) s = Some s'"
    using e s1(1) s'(1) by (simp only: destroy_ptes.simps load_word_def next_ptr) simp
  moreover have "uheld s' q \<longleftrightarrow> uheld s q \<and> (\<forall>k\<in>{i..<i + Suc n}. frame_of s pt k \<noteq> Some q)" for q
    using s'(6) s1(6) fr Suc.prems(3) unfolding range by auto
  moreover have "kept s s' {}" using kept_trans [OF s1(4) s'(4)] s1(5) by simp
  moreover have "held s' = held s" using s'(5) s1(5) by simp
  ultimately show ?case using s'(2) same_cpu_trans [OF s1(3) s'(3)] by blast
qed

section \<open>Giving back the tables\<close>

text \<open>The directory slots in a range: tables in use, each with its frames, all of them different.\<close>

definition slots_ok :: "vm \<Rightarrow> u32 \<Rightarrow> nat set \<Rightarrow> bool" where
  "slots_ok s pd J \<longleftrightarrow> held s pd \<and>
     (\<forall>j\<in>J. mem s (pd + 4 * of_nat j) = Some 0 \<or>
       (\<exists>e pt. mem s (pd + 4 * of_nat j) = Some e \<and> e \<noteq> 0 \<and> pde_get_pt e = Some pt \<and> held s pt \<and> pt \<noteq> pd \<and> frames_ok s pt {0..<1024})) \<and>
     (\<forall>i\<in>J. \<forall>j\<in>J. \<forall>pt. tab s pd (of_nat i) = Some pt \<longrightarrow> tab s pd (of_nat j) = Some pt \<longrightarrow> i = j) \<and>
     (\<forall>i\<in>J. \<forall>j\<in>J. \<forall>k\<in>{0..<1024}. \<forall>l\<in>{0..<1024}. \<forall>p q f. tab s pd (of_nat i) = Some p \<longrightarrow> tab s pd (of_nat j) = Some q \<longrightarrow>
       frame_of s p k = Some f \<longrightarrow> frame_of s q l = Some f \<longrightarrow> i = j \<and> k = l)"

definition slot_tables :: "vm \<Rightarrow> u32 \<Rightarrow> nat set \<Rightarrow> u32 set" where
  "slot_tables s pd J = {pt. \<exists>j\<in>J. tab s pd (of_nat j) = Some pt}"

definition slot_frames :: "vm \<Rightarrow> u32 \<Rightarrow> nat set \<Rightarrow> u32 set" where
  "slot_frames s pd J = {f. \<exists>j\<in>J. \<exists>pt. \<exists>k\<in>{0..<1024}. tab s pd (of_nat j) = Some pt \<and> frame_of s pt k = Some f}"

lemma slot_cases:
  assumes "slots_ok s pd J" and "j \<in> J"
  obtains (empty) "mem s (pd + 4 * of_nat j) = Some 0" and "tab s pd (of_nat j) = None"
  | (table) e pt where "mem s (pd + 4 * of_nat j) = Some e" and "e AND PTE_P \<noteq> 0" and "pde_get_pt e = Some pt" and "held s pt"
      and "pt \<noteq> pd" and "frames_ok s pt {0..<1024}" and "tab s pd (of_nat j) = Some pt"
proof -
  have "mem s (pd + 4 * of_nat j) = Some 0 \<or>
      (\<exists>e pt. mem s (pd + 4 * of_nat j) = Some e \<and> e \<noteq> 0 \<and> pde_get_pt e = Some pt \<and> held s pt \<and> pt \<noteq> pd \<and> frames_ok s pt {0..<1024})"
    using assms unfolding slots_ok_def by blast
  then show thesis
  proof
    assume "mem s (pd + 4 * of_nat j) = Some 0"
    then show thesis using empty by (simp add: tab_def)
  next
    assume "\<exists>e pt. mem s (pd + 4 * of_nat j) = Some e \<and> e \<noteq> 0 \<and> pde_get_pt e = Some pt \<and> held s pt \<and> pt \<noteq> pd \<and> frames_ok s pt {0..<1024}"
    then obtain e pt where e: "mem s (pd + 4 * of_nat j) = Some e" "e \<noteq> 0" "pde_get_pt e = Some pt" "held s pt" "pt \<noteq> pd" "frames_ok s pt {0..<1024}"
      by blast
    moreover have "e AND PTE_P \<noteq> 0" using e(3) by (auto simp: pde_get_pt_def ASSERT_def split: if_splits)
    ultimately show thesis using table by (simp add: tab_def)
  qed
qed

lemma slots_inj:
  assumes "slots_ok s pd J" and "i \<in> J" and "tab s pd (of_nat i) = Some p"
    and "j \<in> {0..<1024}" and "k \<in> {0..<1024}" and "frame_of s p j = Some f" and "frame_of s p k = Some f"
  shows "j = k"
  using assms unfolding slots_ok_def by blast

text \<open>The table of the first slot goes; the other slots are as they were.\<close>

lemma slots_rest:
  assumes ok: "slots_ok s pd (insert i J)" and i: "i \<notin> J" and J: "J \<subseteq> {0..<768}" and pt: "tab s pd (of_nat i) = Some pt"
    and k: "kept s s2 {pt}" and h: "\<And>q. held s2 q \<longleftrightarrow> held s q \<and> q \<noteq> pt"
    and u: "\<And>q. uheld s2 q \<longleftrightarrow> uheld s q \<and> (\<forall>k\<in>{0..<1024}. frame_of s pt k \<noteq> Some q)"
  shows "slots_ok s2 pd J" and "\<And>j. j \<in> J \<Longrightarrow> tab s2 pd (of_nat j) = tab s pd (of_nat j)"
    and "\<And>j q k. j \<in> J \<Longrightarrow> tab s pd (of_nat j) = Some q \<Longrightarrow> k < 1024 \<Longrightarrow> frame_of s2 q k = frame_of s q k"
proof -
  have hpd: "held s pd" using ok by (simp add: slots_ok_def)
  have ptpd: "pt \<noteq> pd" using slot_cases [OF ok, of i] pt by auto
  have m: "mem s2 (pd + 4 * of_nat j) = mem s (pd + 4 * of_nat j)" if "j \<in> J" for j
    using kept_nat [OF k hpd, of j] ptpd that J by auto
  show ta: "tab s2 pd (of_nat j) = tab s pd (of_nat j)" if "j \<in> J" for j using m [OF that] by (simp add: tab_def)
  have tb: "held s q \<and> q \<noteq> pt \<and> q \<noteq> pd \<and> frames_ok s q {0..<1024}" if j: "j \<in> J" "tab s pd (of_nat j) = Some q" for j q
  proof -
    from ok insertI2 [OF j(1)] have "held s q \<and> q \<noteq> pd \<and> frames_ok s q {0..<1024}"
    proof (cases rule: slot_cases [of s pd "insert i J" j])
      case (table e p)
      then show ?thesis using j(2) by simp
    qed (use j(2) in simp)
    moreover have "q \<noteq> pt" using ok j pt i unfolding slots_ok_def by blast
    ultimately show ?thesis by blast
  qed
  show fr: "frame_of s2 q k = frame_of s q k" if "j \<in> J" "tab s pd (of_nat j) = Some q" "k < 1024" for j q k
    using frame_of_kept [OF k, of q] tb [OF that(1,2)] that(3) by simp
  have fo: "frames_ok s2 q {0..<1024}" if j: "j \<in> J" "tab s pd (of_nat j) = Some q" for j q
    unfolding frames_ok_def
  proof (intro ballI allI impI)
    fix l e assume l: "l \<in> {0..<1024}" and e: "mem s2 (q + 4 * of_nat l) = Some e" "e AND PTE_P \<noteq> 0"
    have e': "mem s (q + 4 * of_nat l) = Some e" using kept_nat [OF k, of q l] tb [OF j] l e(1) by simp
    from frames_okD [OF _ l e' e(2)] tb [OF j] obtain f where f: "pte_get_page e = Some f" "uheld s f" "frame_of s q l = Some f" by blast
    have "frame_of s pt n \<noteq> Some f" if "n \<in> {0..<1024}" for n
      using ok j pt f(3) l that i unfolding slots_ok_def by blast
    then show "\<exists>f. pte_get_page e = Some f \<and> uheld s2 f" using f u by blast
  qed
  show "slots_ok s2 pd J"
    unfolding slots_ok_def
  proof (intro conjI ballI)
    show "held s2 pd" using h hpd ptpd by simp
    fix j assume j: "j \<in> J"
    from ok insertI2 [OF j] show "mem s2 (pd + 4 * of_nat j) = Some 0 \<or> (\<exists>e q. mem s2 (pd + 4 * of_nat j) = Some e \<and> e \<noteq> 0 \<and>
        pde_get_pt e = Some q \<and> held s2 q \<and> q \<noteq> pd \<and> frames_ok s2 q {0..<1024})"
    proof (cases rule: slot_cases [of s pd "insert i J" j])
      case (table e q)
      have "e \<noteq> 0" using table(2) by auto
      moreover have "held s2 q" using h [of q] tb [OF j table(7)] by simp
      ultimately show ?thesis using m [OF j] fo [OF j table(7)] table(1,3,5) by (intro disjI2 exI [of _ e] exI [of _ q]) simp
    qed (use m [OF j] in simp)
  next
    fix a b assume ab: "a \<in> J" "b \<in> J"
    show "\<forall>pt. tab s2 pd (of_nat a) = Some pt \<longrightarrow> tab s2 pd (of_nat b) = Some pt \<longrightarrow> a = b"
      using ok ab ta [OF ab(1)] ta [OF ab(2)] unfolding slots_ok_def by auto
    fix c d assume cd: "c \<in> {0..<1024::nat}" "d \<in> {0..<1024::nat}"
    show "\<forall>p q f. tab s2 pd (of_nat a) = Some p \<longrightarrow> tab s2 pd (of_nat b) = Some q \<longrightarrow>
        frame_of s2 p c = Some f \<longrightarrow> frame_of s2 q d = Some f \<longrightarrow> a = b \<and> c = d"
    proof (intro allI impI)
      fix p q f assume a: "tab s2 pd (of_nat a) = Some p" "tab s2 pd (of_nat b) = Some q" "frame_of s2 p c = Some f" "frame_of s2 q d = Some f"
      then have "tab s pd (of_nat a) = Some p" "tab s pd (of_nat b) = Some q" "frame_of s p c = Some f" "frame_of s q d = Some f"
        using ta ab fr cd by auto
      then show "a = b \<and> c = d" using ok ab cd unfolding slots_ok_def by blast
    qed
  qed
qed

lemma destroy_pdes_ok:
  assumes "palloc_ok (vpages s)" and "i + n \<le> 768" and "slots_ok s pd {i..<i + n}"
  shows "\<exists>s'. destroy_pdes (pd + 4 * of_nat i) n s = Some s' \<and> palloc_ok (vpages s') \<and> same_cpu s s' \<and>
    (\<forall>q. held s' q \<longleftrightarrow> held s q \<and> q \<notin> slot_tables s pd {i..<i + n}) \<and>
    (\<forall>q. uheld s' q \<longleftrightarrow> uheld s q \<and> q \<notin> slot_frames s pd {i..<i + n})"
  using assms
proof (induction n arbitrary: i s)
  case 0
  then show ?case by (simp add: slot_tables_def slot_frames_def)
next
  case (Suc n)
  have next_ptr: "pd + 4 * of_nat i + 4 = pd + 4 * of_nat (Suc i)" by (simp add: algebra_simps)
  have range: "{i..<i + Suc n} = insert i {Suc i..<Suc i + n}" by auto
  note so = Suc.prems(3) [unfolded range]
  have b: "Suc i + n \<le> 768" using Suc.prems(2) by simp
  have rest: "{Suc i..<Suc i + n} \<subseteq> {0..<768}" "i \<notin> {Suc i..<Suc i + n}" using b by auto
  show ?case
    using so insertI1
  proof (cases rule: slot_cases [of s pd "insert i {Suc i..<Suc i + n}" i])
    case empty
    have "slots_ok s pd {Suc i..<Suc i + n}" using so unfolding slots_ok_def by blast
    from Suc.IH [OF Suc.prems(1) b this] obtain s' where
      s': "destroy_pdes (pd + 4 * of_nat (Suc i)) n s = Some s'" "palloc_ok (vpages s')" "same_cpu s s'"
        "\<forall>q. held s' q \<longleftrightarrow> held s q \<and> q \<notin> slot_tables s pd {Suc i..<Suc i + n}"
        "\<forall>q. uheld s' q \<longleftrightarrow> uheld s q \<and> q \<notin> slot_frames s pd {Suc i..<Suc i + n}" by blast
    have "slot_tables s pd {i..<i + Suc n} = slot_tables s pd {Suc i..<Suc i + n}"
      "slot_frames s pd {i..<i + Suc n} = slot_frames s pd {Suc i..<Suc i + n}"
      using empty(2) unfolding range slot_tables_def slot_frames_def by simp_all
    moreover have "destroy_pdes (pd + 4 * of_nat i) (Suc n) s = Some s'"
      using empty(1) s'(1) by (simp only: destroy_pdes.simps load_word_def next_ptr) simp
    ultimately show ?thesis using s' by auto
  next
    case (table e pt)
    have inj: "\<forall>j\<in>{0..<0 + 1024}. \<forall>k\<in>{0..<0 + 1024}. \<forall>f. frame_of s pt j = Some f \<longrightarrow> frame_of s pt k = Some f \<longrightarrow> j = k"
      using slots_inj [OF so insertI1 table(7)] by simp
    obtain s1 where s1: "destroy_ptes pt 1024 s = Some s1" "palloc_ok (vpages s1)" "same_cpu s s1" "kept s s1 {}" "held s1 = held s"
        "\<forall>q. uheld s1 q \<longleftrightarrow> uheld s q \<and> (\<forall>k\<in>{0..<1024}. frame_of s pt k \<noteq> Some q)"
      using destroy_ptes_ok [OF Suc.prems(1) table(4), of 0 1024] table(6) inj by auto
    have hp: "held s1 pt" using s1(5) table(4) by simp
    obtain s2 where s2: "free_page pt s1 = Some s2" "palloc_ok (vpages s2)" "same_cpu s1 s2" "kept s1 s2 {pt}" "uheld s2 = uheld s1"
        "\<And>q. held s2 q \<longleftrightarrow> held s1 q \<and> q \<noteq> pt"
      using free_kernel_page [OF s1(2) hp] by blast
    have k: "kept s s2 {pt}" using kept_trans [OF s1(4) s2(4)] s1(5) by simp
    have h: "held s2 q \<longleftrightarrow> held s q \<and> q \<noteq> pt" for q using s2(6) s1(5) by simp
    have u: "uheld s2 q \<longleftrightarrow> uheld s q \<and> (\<forall>k\<in>{0..<1024}. frame_of s pt k \<noteq> Some q)" for q using s2(5) s1(6) by simp
    note r = slots_rest [OF so rest(2,1) table(7) k h u]
    from Suc.IH [OF s2(2) b r(1)] obtain s' where
      s': "destroy_pdes (pd + 4 * of_nat (Suc i)) n s2 = Some s'" "palloc_ok (vpages s')" "same_cpu s2 s'"
        "\<And>q. held s' q \<longleftrightarrow> held s2 q \<and> q \<notin> slot_tables s2 pd {Suc i..<Suc i + n}"
        "\<And>q. uheld s' q \<longleftrightarrow> uheld s2 q \<and> q \<notin> slot_frames s2 pd {Suc i..<Suc i + n}" by blast
    have st: "slot_tables s pd {i..<i + Suc n} = insert pt (slot_tables s2 pd {Suc i..<Suc i + n})"
      using table(7) r(2) unfolding range slot_tables_def by auto
    have sf: "slot_frames s pd {i..<i + Suc n} = {f. \<exists>k\<in>{0..<1024}. frame_of s pt k = Some f} \<union> slot_frames s2 pd {Suc i..<Suc i + n}"
      using table(7) r(2,3) unfolding range slot_frames_def by auto
    have "destroy_pdes (pd + 4 * of_nat i) (Suc n) s = Some s'"
      using table(1,2,3) s1(1) s2(1) s'(1) by (simp only: destroy_pdes.simps load_word_def next_ptr) simp
    moreover have "held s' q \<longleftrightarrow> held s q \<and> q \<notin> slot_tables s pd {i..<i + Suc n}" for q unfolding s'(4) h st by blast
    moreover have "uheld s' q \<longleftrightarrow> uheld s q \<and> q \<notin> slot_frames s pd {i..<i + Suc n}" for q unfolding s'(5) u sf by blast
    moreover have "same_cpu s s'" using same_cpu_trans s1(3) s2(3) s'(3) by blast
    ultimately show ?thesis using s'(2) by blast
  qed
qed

section \<open>User address spaces\<close>

text \<open>A directory whose pages are all mapped to pages in use of the user pool, each to its own.\<close>

definition space_ok :: "vm \<Rightarrow> u32 \<Rightarrow> bool" where
  "space_ok s pd \<longleftrightarrow> pd_ok s pd \<and>
     (\<forall>v. is_user_vaddr v \<longrightarrow> entry s pd v AND PTE_P \<noteq> 0 \<longrightarrow> (\<exists>f. pte_get_page (entry s pd v) = Some f \<and> uheld s f)) \<and>
     (\<forall>v w. is_user_vaddr v \<longrightarrow> is_user_vaddr w \<longrightarrow> entry s pd v AND PTE_P \<noteq> 0 \<longrightarrow> entry s pd w AND PTE_P \<noteq> 0 \<longrightarrow>
       pte_get_page (entry s pd v) = pte_get_page (entry s pd w) \<longrightarrow> pg_no v = pg_no w)"

definition frames :: "vm \<Rightarrow> u32 \<Rightarrow> u32 set" where
  "frames s pd = {f. \<exists>v. is_user_vaddr v \<and> entry s pd v AND PTE_P \<noteq> 0 \<and> pte_get_page (entry s pd v) = Some f}"

text \<open>The first address of the page with the given indices.\<close>

definition addr_of :: "nat \<Rightarrow> nat \<Rightarrow> u32" where
  "addr_of j k = of_nat (j * 2 ^ 22 + k * 2 ^ 12)"

lemma addr_of_props:
  assumes "j < 768" and "k < 1024"
  shows "pd_no (addr_of j k) = of_nat j" and "pt_no (addr_of j k) = of_nat k" and "is_user_vaddr (addr_of j k)"
proof -
  have b: "j * 2 ^ 22 + k * 2 ^ 12 < 0xc0000000" using assms by simp
  then have u: "unat (addr_of j k) = j * 2 ^ 22 + k * 2 ^ 12" unfolding addr_of_def unat_of_nat by simp
  have "(j * 2 ^ 22 + k * 2 ^ 12) div 2 ^ 22 = j" using assms by simp
  then show "pd_no (addr_of j k) = of_nat j" using unat_pd_no [of "addr_of j k"] u assms by (simp add: word_unat_eq_iff unat_of_nat)
  have "(j * 2 ^ 22 + k * 2 ^ 12) div 2 ^ 12 = j * 1024 + k" by simp
  then show "pt_no (addr_of j k) = of_nat k" using unat_pt_no [of "addr_of j k"] u assms by (simp add: word_unat_eq_iff unat_of_nat)
  show "is_user_vaddr (addr_of j k)" using b u by (simp add: is_user_vaddr_def PHYS_BASE_def word_less_nat_alt)
qed

lemma user_addr_of:
  assumes "is_user_vaddr v"
  obtains j k where "j < 768" and "k < 1024" and "pd_no v = of_nat j" and "pt_no v = of_nat k"
  by (rule that [of "unat (pd_no v)" "unat (pt_no v)"]) (use assms pd_no_user index_bounds(2) in simp_all)

text \<open>Frames by slot and index are frames by address.\<close>

lemma frame_entry:
  assumes ok: "pd_ok s pd" and v: "is_user_vaddr v" and pt: "tab s pd (pd_no v) = Some pt" and k: "pt_no v = of_nat k" "k < 1024"
  shows "mem s (pt + 4 * of_nat k) = Some (entry s pd v)"
    and "frame_of s pt k = (if entry s pd v AND PTE_P \<noteq> 0 then pte_get_page (entry s pd v) else None)"
proof -
  show m: "mem s (pt + 4 * of_nat k) = Some (entry s pd v)"
    using lookup_page_found(3) [OF ok v pt] k(1) by (simp add: load_word_def)
  then show "frame_of s pt k = (if entry s pd v AND PTE_P \<noteq> 0 then pte_get_page (entry s pd v) else None)" by (simp add: frame_of_def)
qed

lemma slot_index: "j < 768 \<Longrightarrow> unat (of_nat j :: u32) = j"
  by (simp add: unat_of_nat)

lemma slot_entry:
  assumes ok: "pd_ok s pd" and j: "j < 768" and k: "k < 1024" and pt: "tab s pd (of_nat j) = Some pt"
  shows "mem s (pt + 4 * of_nat k) = Some (entry s pd (addr_of j k))"
    and "frame_of s pt k = (if entry s pd (addr_of j k) AND PTE_P \<noteq> 0 then pte_get_page (entry s pd (addr_of j k)) else None)"
  using frame_entry [OF ok addr_of_props(3) [OF j k] _ addr_of_props(2) [OF j k] k] addr_of_props(1) [OF j k] pt by auto

lemma space_slots:
  assumes sp: "space_ok s pd"
  shows "slots_ok s pd {0..<768}" and "insert pd (slot_tables s pd {0..<768}) = tables s pd"
    and "slot_frames s pd {0..<768} = frames s pd"
proof -
  have ok: "pd_ok s pd" using sp by (simp add: space_ok_def)
  note D = pd_okD [OF ok]
  have fo: "frames_ok s pt {0..<1024}" if j: "j < 768" "tab s pd (of_nat j) = Some pt" for j pt
    unfolding frames_ok_def
  proof (intro ballI allI impI)
    fix k e assume k: "k \<in> {0..<1024::nat}" and e: "mem s (pt + 4 * of_nat k) = Some e" "e AND PTE_P \<noteq> 0"
    have kb: "k < 1024" using k by simp
    have "e = entry s pd (addr_of j k)" using slot_entry(1) [OF ok j(1) kb j(2)] e(1) by simp
    then show "\<exists>f. pte_get_page e = Some f \<and> uheld s f" using sp e(2) addr_of_props(3) [OF j(1) kb] unfolding space_ok_def by blast
  qed
  have inj: "i = j \<and> k = l"
    if a: "i < 768" "j < 768" "k < 1024" "l < 1024" and t: "tab s pd (of_nat i) = Some p" "tab s pd (of_nat j) = Some q"
      and f: "frame_of s p k = Some f" "frame_of s q l = Some f" for i j k l p q f
  proof -
    have e: "entry s pd (addr_of i k) AND PTE_P \<noteq> 0" "pte_get_page (entry s pd (addr_of i k)) = Some f"
        "entry s pd (addr_of j l) AND PTE_P \<noteq> 0" "pte_get_page (entry s pd (addr_of j l)) = Some f"
      using slot_entry(2) [OF ok a(1,3) t(1)] slot_entry(2) [OF ok a(2,4) t(2)] f by (auto split: if_splits)
    have "pte_get_page (entry s pd (addr_of i k)) = pte_get_page (entry s pd (addr_of j l))" using e(2,4) by simp
    then have "pg_no (addr_of i k) = pg_no (addr_of j l)"
      using sp addr_of_props(3) [OF a(1,3)] addr_of_props(3) [OF a(2,4)] e(1,3) unfolding space_ok_def by blast
    from same_pages [OF this] have "(of_nat i :: u32) = of_nat j" "(of_nat k :: u32) = of_nat l"
      using addr_of_props(1,2) [OF a(1,3)] addr_of_props(1,2) [OF a(2,4)] by auto
    then show ?thesis using slot_index [OF a(1)] slot_index [OF a(2)] unat_index [OF a(3)] unat_index [OF a(4)] by metis
  qed
  show "slots_ok s pd {0..<768}"
    unfolding slots_ok_def
  proof (intro conjI ballI)
    show "held s pd" by (rule D(2))
    fix j assume "j \<in> {0..<768::nat}"
    then have j: "j < 768" by simp
    show "mem s (pd + 4 * of_nat j) = Some 0 \<or> (\<exists>e pt. mem s (pd + 4 * of_nat j) = Some e \<and> e \<noteq> 0 \<and>
        pde_get_pt e = Some pt \<and> held s pt \<and> pt \<noteq> pd \<and> frames_ok s pt {0..<1024})"
    proof (cases "tab s pd (of_nat j)")
      case None
      then show ?thesis using D(5) [of "of_nat j"] slot_index [OF j] j by simp
    next
      case (Some pt)
      then obtain e where e: "mem s (pd + 4 * of_nat j) = Some e" "e \<noteq> 0" "pde_get_pt e = Some pt"
        by (auto simp: tab_def split: option.splits if_splits)
      show ?thesis using e D(6) [of "of_nat j" pt] slot_index [OF j] j Some fo [OF j Some] by (intro disjI2 exI [of _ e] exI [of _ pt]) simp
    qed
  next
    fix i j assume ij: "i \<in> {0..<768::nat}" "j \<in> {0..<768::nat}"
    show "\<forall>pt. tab s pd (of_nat i) = Some pt \<longrightarrow> tab s pd (of_nat j) = Some pt \<longrightarrow> i = j"
    proof (intro allI impI)
      fix pt assume "tab s pd (of_nat i) = Some pt" "tab s pd (of_nat j) = Some pt"
      then have "(of_nat i :: u32) = of_nat j" using D(7) [of "of_nat i" "of_nat j" pt] slot_index ij by simp
      then show "i = j" using slot_index [of i] slot_index [of j] ij by (metis atLeastLessThan_iff)
    qed
    fix k l assume "k \<in> {0..<1024::nat}" "l \<in> {0..<1024::nat}"
    then show "\<forall>p q f. tab s pd (of_nat i) = Some p \<longrightarrow> tab s pd (of_nat j) = Some q \<longrightarrow>
        frame_of s p k = Some f \<longrightarrow> frame_of s q l = Some f \<longrightarrow> i = j \<and> k = l" using inj ij by simp
  qed
  show "insert pd (slot_tables s pd {0..<768}) = tables s pd"
  proof -
    have "(\<exists>j\<in>{0..<768}. tab s pd (of_nat j) = Some pt) \<longleftrightarrow> (\<exists>i. unat i < 768 \<and> tab s pd i = Some pt)" for pt
    proof
      assume "\<exists>j\<in>{0..<768}. tab s pd (of_nat j) = Some pt"
      then obtain j where "j < 768" "tab s pd (of_nat j) = Some pt" by auto
      then show "\<exists>i. unat i < 768 \<and> tab s pd i = Some pt" using slot_index [of j] by (intro exI [of _ "of_nat j"]) simp
    next
      assume "\<exists>i. unat i < 768 \<and> tab s pd i = Some pt"
      then obtain i where "unat i < 768" "tab s pd i = Some pt" by auto
      then show "\<exists>j\<in>{0..<768}. tab s pd (of_nat j) = Some pt" by (intro bexI [of _ "unat i"]) simp_all
    qed
    then show ?thesis by (simp add: slot_tables_def tables_def)
  qed
  show "slot_frames s pd {0..<768} = frames s pd"
  proof (intro set_eqI iffI)
    fix f assume "f \<in> slot_frames s pd {0..<768}"
    then obtain j pt k where a: "j < 768" "k < 1024" "tab s pd (of_nat j) = Some pt" "frame_of s pt k = Some f"
      by (auto simp: slot_frames_def)
    then show "f \<in> frames s pd"
      using slot_entry(2) [OF ok a(1,2,3)] addr_of_props(3) [OF a(1,2)] by (auto simp: frames_def split: if_splits)
  next
    fix f assume "f \<in> frames s pd"
    then obtain v where v: "is_user_vaddr v" "entry s pd v AND PTE_P \<noteq> 0" "pte_get_page (entry s pd v) = Some f" by (auto simp: frames_def)
    obtain j k where jk: "j < 768" "k < 1024" "pd_no v = of_nat j" "pt_no v = of_nat k" using user_addr_of [OF v(1)] .
    obtain pt where pt: "tab s pd (pd_no v) = Some pt" using v(2) by (cases "tab s pd (pd_no v)") (simp_all add: entry_def)
    have "frame_of s pt k = Some f" using frame_entry(2) [OF ok v(1) pt jk(4,2)] v(2,3) by simp
    moreover have "j \<in> {0..<768}" "k \<in> {0..<1024}" "tab s pd (of_nat j) = Some pt" using jk pt by simp_all
    ultimately show "f \<in> slot_frames s pd {0..<768}" unfolding slot_frames_def by blast
  qed
qed

section \<open>Creating a directory\<close>

lemma memcpy_words_ok:
  assumes "palloc_ok (vpages s)" and "held s dst" and "held s src" and "dst \<noteq> src" and "i + n \<le> 1024"
  shows "\<exists>s'. memcpy_words (dst + 4 * of_nat i) (src + 4 * of_nat i) n s = Some s' \<and> palloc_ok (vpages s') \<and> same_cpu s s' \<and>
    kernel_pool (vpages s') = kernel_pool (vpages s) \<and> user_pool (vpages s') = user_pool (vpages s) \<and> kept s s' {dst} \<and>
    (\<forall>j<1024. mem s' (dst + 4 * of_nat j) = (if j \<in> {i..<i + n} then mem s (src + 4 * of_nat j) else mem s (dst + 4 * of_nat j)))"
  using assms
proof (induction n arbitrary: i s)
  case 0
  then show ?case by (simp add: kept_def)
next
  case (Suc n)
  have i: "i < 1024" using Suc.prems(5) by simp
  note ub = unat_index [OF i]
  have step: "a + 4 * of_nat i + 4 = a + 4 * of_nat (Suc i)" for a :: u32 by (simp add: algebra_simps)
  obtain v where v: "mem s (src + 4 * of_nat i) = Some v" using held_props(5) [OF Suc.prems(3,1), of "of_nat i"] ub i by auto
  let ?s = "s\<lparr>vpages := (vpages s)\<lparr>pmem := (mem s)(dst + 4 * of_nat i \<mapsto> v)\<rparr>\<rparr>"
  have d: "mem s (dst + 4 * of_nat i) \<noteq> None" using held_props(5) [OF Suc.prems(2,1), of "of_nat i"] ub i by simp
  have st: "store_word (dst + 4 * of_nat i) v s = Some ?s" by (rule store_word_ok [OF d])
  have ok1: "palloc_ok (vpages ?s)" using palloc_ok_store [OF Suc.prems(1) d] by simp
  have h: "held ?s = held s" by (simp add: held_def fun_eq_iff)
  have m: "mem ?s (q + 4 * of_nat j) = (if q = dst \<and> j = i then Some v else mem s (q + 4 * of_nat j))" if "held s q" "j < 1024" for q j
  proof -
    have "q + 4 * of_nat j = dst + 4 * of_nat i \<longleftrightarrow> q = dst \<and> (of_nat j :: u32) = of_nat i"
      using entry_address_inj [OF that(1) Suc.prems(2,1), of "of_nat j" "of_nat i"] unat_index [OF that(2)] ub that(2) i by simp
    also have "(of_nat j :: u32) = of_nat i \<longleftrightarrow> j = i" using unat_index [OF that(2)] ub by metis
    finally show ?thesis by simp
  qed
  have k: "kept s ?s {dst}" using entry_address_inj [OF _ Suc.prems(2,1), of _ _ "of_nat i"] ub i by (auto simp: kept_def)
  have h1: "held ?s dst" "held ?s src" and b: "Suc i + n \<le> 1024" using h Suc.prems by auto
  from Suc.IH [OF ok1 h1 Suc.prems(4) b] obtain s' where
    s': "memcpy_words (dst + 4 * of_nat (Suc i)) (src + 4 * of_nat (Suc i)) n ?s = Some s'" "palloc_ok (vpages s')" "same_cpu ?s s'"
      "kernel_pool (vpages s') = kernel_pool (vpages ?s)" "user_pool (vpages s') = user_pool (vpages ?s)" "kept ?s s' {dst}"
      "\<forall>j<1024. mem s' (dst + 4 * of_nat j) =
        (if j \<in> {Suc i..<Suc i + n} then mem ?s (src + 4 * of_nat j) else mem ?s (dst + 4 * of_nat j))" by blast
  have "memcpy_words (dst + 4 * of_nat i) (src + 4 * of_nat i) (Suc n) s = Some s'"
    using v st s'(1) by (simp only: memcpy_words.simps load_word_def step) simp
  moreover have "mem s' (dst + 4 * of_nat j) = (if j \<in> {i..<i + Suc n} then mem s (src + 4 * of_nat j) else mem s (dst + 4 * of_nat j))"
    if j: "j < 1024" for j
    using s'(7) [rule_format, OF j] m [OF Suc.prems(2) j] m [OF Suc.prems(3) j] Suc.prems(4) v by (cases "j = i") auto
  moreover have "same_cpu s s'" using same_cpu_trans [of s ?s s'] s'(3) by (simp add: same_cpu_def)
  moreover have "kept s s' {dst}" using kept_trans [OF k s'(6)] h by simp
  ultimately show ?case using s'(2,4,5) by auto
qed

text \<open>The boot page directory maps no user page.\<close>

definition boot_dir :: "vm \<Rightarrow> bool" where
  "boot_dir s \<longleftrightarrow> held s (init_page_dir s) \<and> (\<forall>j<768. mem s (init_page_dir s + 4 * of_nat j) = Some 0)"

lemma pagedir_create_cases:
  assumes ok: "palloc_ok (vpages s)" and bd: "boot_dir s"
  obtains (got) pd s' where "pagedir_create s = Some (pd, s')" and "pd \<noteq> 0" and "\<not> held s pd" and "pd_ok s' pd"
      and "\<And>q. held s' q \<longleftrightarrow> q = pd \<or> held s q" and "uheld s' = uheld s" and "kept s s' {}" and "same_cpu s s'"
      and "\<And>j. j < 1024 \<Longrightarrow> mem s' (pd + 4 * of_nat j) = mem s (init_page_dir s + 4 * of_nat j)"
      and "tables s' pd = {pd}" and "\<And>v. is_user_vaddr v \<Longrightarrow> entry s' pd v = 0"
  | (full) "pagedir_create s = Some (0, s)" and "kernel_full s"
proof -
  show thesis
    using ok disjI1 [OF refl]
  proof (cases rule: get_page_cases [of s 0])
    case (got pd s1)
    have hi: "held s (init_page_dir s)" using bd by (simp add: boot_dir_def)
    have same: "mem s1 = mem s" using got(5) by (simp add: PAL_ZERO_def fun_eq_iff)
    have cpu: "init_page_dir s1 = init_page_dir s" by (subst got(7)) simp
    have h1: "held s1 pd" "held s1 (init_page_dir s)" "pd \<noteq> init_page_dir s" using got(3,4) hi by auto
    from memcpy_words_ok [OF got(2) h1, of 0 1024] obtain s' where
      s': "memcpy_words pd (init_page_dir s) 1024 s1 = Some s'" "palloc_ok (vpages s')" "same_cpu s1 s'"
        "kernel_pool (vpages s') = kernel_pool (vpages s1)" "user_pool (vpages s') = user_pool (vpages s1)" "kept s1 s' {pd}"
        "\<forall>j<1024. mem s' (pd + 4 * of_nat j) = mem s1 (init_page_dir s + 4 * of_nat j)" by auto
    have nz: "pd \<noteq> 0" using held_props(2) [OF h1(1) got(2)] .
    have r: "pagedir_create s = Some (pd, s')" using got(1) nz s'(1) cpu by (simp add: pagedir_create_def)
    have h: "held s' q \<longleftrightarrow> q = pd \<or> held s q" for q using got(4) [of q] s'(4) by (simp add: held_def)
    have u: "uheld s' = uheld s" using s'(5) got(6) by (simp add: uheld_def fun_eq_iff)
    have k: "kept s s' {}" using s'(6) got(3,4) same unfolding kept_def by auto
    have c: "same_cpu s s'" using same_cpu_trans [OF _ s'(3)] got(7) by (simp add: same_cpu_def)
    have m: "mem s' (pd + 4 * of_nat j) = mem s (init_page_dir s + 4 * of_nat j)" if "j < 1024" for j
      using s'(7) that same by simp
    have z: "mem s' (pd + 4 * i) = Some 0" if "unat i < 768" for i
    proof -
      have "mem s (init_page_dir s + 4 * of_nat (unat i)) = Some 0" using bd that unfolding boot_dir_def by blast
      then show ?thesis using m [of "unat i"] that by simp
    qed
    have t: "tab s' pd i = None" if "unat i < 768" for i using z [OF that] by (simp add: tab_def)
    have "held s' pd" using h by simp
    then have p: "pd_ok s' pd" using s'(2) z t by (simp add: pd_ok_def)
    have tb: "tables s' pd = {pd}" using t by (auto simp: tables_def)
    have e: "entry s' pd v = 0" if "is_user_vaddr v" for v using t [OF pd_no_user [OF that]] by (simp add: entry_def)
    show thesis by (rule that(1) [OF r nz got(3) p h u k c m tb e])
  next
    case full
    then show thesis using that(2) by (simp add: pagedir_create_def)
  qed
qed

lemma pagedir_destroy_ok:
  assumes sp: "space_ok s pd" and init: "pd \<noteq> init_page_dir s"
  shows "\<exists>s'. pagedir_destroy pd s = Some s' \<and> palloc_ok (vpages s') \<and> same_cpu s s' \<and>
    (\<forall>q. held s' q \<longleftrightarrow> held s q \<and> q \<notin> tables s pd) \<and> (\<forall>q. uheld s' q \<longleftrightarrow> uheld s q \<and> q \<notin> frames s pd)"
proof -
  have ok: "pd_ok s pd" using sp by (simp add: space_ok_def)
  note D = pd_okD [OF ok] and S = space_slots [OF sp]
  have n: "unat (pd_no PHYS_BASE) = 768" by (simp add: unat_pd_no PHYS_BASE_def)
  obtain s1 where s1: "destroy_pdes pd 768 s = Some s1" "palloc_ok (vpages s1)" "same_cpu s s1"
      "\<forall>q. held s1 q \<longleftrightarrow> held s q \<and> q \<notin> slot_tables s pd {0..<768}" "\<forall>q. uheld s1 q \<longleftrightarrow> uheld s q \<and> q \<notin> slot_frames s pd {0..<768}"
    using destroy_pdes_ok [OF D(1), of 0 768 pd] S(1) by auto
  have "tab s pd (of_nat j) \<noteq> Some pd" if "j < 768" for j using D(6) [of "of_nat j" pd] slot_index [OF that] that by auto
  then have "pd \<notin> slot_tables s pd {0..<768}" by (simp add: slot_tables_def)
  then have h: "held s1 pd" using s1(4) D(2) by simp
  obtain s2 where s2: "free_page pd s1 = Some s2" "palloc_ok (vpages s2)" "same_cpu s1 s2" "uheld s2 = uheld s1"
      "\<And>q. held s2 q \<longleftrightarrow> held s1 q \<and> q \<noteq> pd"
    using free_kernel_page [OF s1(2) h] by blast
  have "pagedir_destroy pd s = Some s2" using D(3) init n s1(1) s2(1) by (simp add: pagedir_destroy_def)
  moreover have "held s2 q \<longleftrightarrow> held s q \<and> q \<notin> tables s pd" for q using s2(5) s1(4) S(2) by auto
  moreover have "uheld s2 q \<longleftrightarrow> uheld s q \<and> q \<notin> frames s pd" for q using s2(4) s1(5) S(3) by simp
  ultimately show ?thesis using s2(2) same_cpu_trans [OF s1(3) s2(3)] by blast
qed

section \<open>Properties\<close>

lemma demo_boot_dir: "boot_dir (demo_vm (\<lambda>a. 0))"
proof -
  have i: "init_page_dir (demo_vm (\<lambda>a. 0)) = 0xc0100000" by (simp add: demo_vm_def)
  have "mem (demo_vm (\<lambda>a. 0)) (0xc0100000 + 4 * of_nat j) = Some 0" if "j < 768" for j
    by (rule demo_vm_mem [OF demo_vm_held(1)]) (use that unat_index [of j] in simp)
  then show ?thesis using demo_vm_held(1) by (simp add: boot_dir_def i)
qed

text \<open>The page at address 0x5000 is mapped to the user page in use.\<close>

definition demo_words :: "u32 \<Rightarrow> u32" where
  "demo_words a = (if a = 0xc0101000 then 0x102007 else if a = 0xc0102014 then 0x105007 else 0)"

lemma demo_tab:
  assumes "unat i < 1024"
  shows "tab (demo_vm demo_words) 0xc0101000 i = (if i = 0 then Some 0xc0102000 else None)"
    and "mem (demo_vm demo_words) (0xc0101000 + 4 * i) = Some (if i = 0 then 0x102007 else 0)"
    and "mem (demo_vm demo_words) (0xc0102000 + 4 * i) = Some (if i = 5 then 0x105007 else 0)"
proof -
  note inj = entry_address_inj [OF demo_vm_held(2) demo_vm_held(2) demo_vm_ok, of i 0]
    entry_address_inj [OF demo_vm_held(2) demo_vm_held(3) demo_vm_ok, of i 5]
    entry_address_inj [OF demo_vm_held(3) demo_vm_held(3) demo_vm_ok, of i 5]
    entry_address_inj [OF demo_vm_held(3) demo_vm_held(2) demo_vm_ok, of i 0]
  show m: "mem (demo_vm demo_words) (0xc0101000 + 4 * i) = Some (if i = 0 then 0x102007 else 0)"
    using demo_vm_mem [OF demo_vm_held(2) assms, of demo_words] inj assms by (auto simp: demo_words_def)
  show "mem (demo_vm demo_words) (0xc0102000 + 4 * i) = Some (if i = 5 then 0x105007 else 0)"
    using demo_vm_mem [OF demo_vm_held(3) assms, of demo_words] inj assms by (auto simp: demo_words_def)
  show "tab (demo_vm demo_words) 0xc0101000 i = (if i = 0 then Some 0xc0102000 else None)"
    using m by (simp add: tab_def pde_get_pt_def PTE_P_def PTE_ADDR_def ptov_def PHYS_BASE_def)
qed

lemma demo_entry: "entry (demo_vm demo_words) 0xc0101000 v = (if pd_no v = 0 \<and> pt_no v = 5 then 0x105007 else 0)"
  unfolding entry_def demo_tab(1) [OF index_bounds(1)] using demo_tab(3) [OF index_bounds(2), of v] by auto

lemma demo_space: "space_ok (demo_vm demo_words) 0xc0101000"
proof -
  have b: "bit (1 :: u32) 0" by simp
  have "0 \<in> bm_used (used_map (user_pool (vpages (demo_vm demo_words))))" using b by (simp add: bm_used_def bm_bit_def demo_vm_def)
  moreover have "page_at (user_pool (vpages (demo_vm demo_words))) 0 = 0xc0105000" by (simp add: page_at_def demo_vm_def)
  ultimately have u: "uheld (demo_vm demo_words) 0xc0105000" unfolding uheld_def by metis
  have g: "pte_get_page 0x105007 = Some 0xc0105000" by (simp add: pte_get_page_def PTE_ADDR_def ptov_def PHYS_BASE_def)
  have "pd_ok (demo_vm demo_words) 0xc0101000"
    unfolding pd_ok_def
  proof (intro conjI allI impI)
    fix i :: u32 assume i: "unat i < 768"
    show "mem (demo_vm demo_words) (0xc0101000 + 4 * i) = Some 0 \<or> (\<exists>e pt. mem (demo_vm demo_words) (0xc0101000 + 4 * i) = Some e \<and> e \<noteq> 0 \<and>
        pde_get_pt e = Some pt \<and> held (demo_vm demo_words) pt \<and> pt \<noteq> 0xc0101000)"
      using demo_tab(2) [of i] i demo_vm_held(3) by (simp add: pde_get_pt_def PTE_P_def PTE_ADDR_def ptov_def PHYS_BASE_def)
    fix j :: u32 and pt assume "unat j < 768" "tab (demo_vm demo_words) 0xc0101000 i = Some pt" "tab (demo_vm demo_words) 0xc0101000 j = Some pt"
    then show "i = j" using demo_tab(1) [of i] demo_tab(1) [of j] i by (simp split: if_splits)
  qed (use demo_vm_ok demo_vm_held in auto)
  moreover have "pd_no v = 0 \<and> pt_no v = 5" if "entry (demo_vm demo_words) 0xc0101000 v AND PTE_P \<noteq> 0" for v
    using that unfolding demo_entry by (cases "pd_no v = 0 \<and> pt_no v = 5") simp_all
  ultimately show ?thesis using u g same_indices unfolding space_ok_def by (metis demo_entry)
qed

text \<open>
  C33: a process gets an address space of its own and gives all of it back.
  \<^verbatim>\<open>pagedir_create\<close> fails only when the kernel pool is empty; otherwise the directory is on a
  page that nobody else had, maps no user page, shares the kernel half of the boot directory, and
  destroying it right away makes exactly that page free again.
\<close>

theorem pagedir_create_fresh:
  assumes "palloc_ok (vpages s)" and "boot_dir s"
  shows "case pagedir_create s of
      None \<Rightarrow> False
    | Some (pd, s1) \<Rightarrow>
        if pd = 0 then s1 = s \<and> kernel_full s
        else \<not> held s pd \<and> space_ok s1 pd \<and> (\<forall>v. is_user_vaddr v \<longrightarrow> pagedir_get_page pd v s1 = Some 0) \<and>
          (\<forall>j\<in>{768..<1024}. mem s1 (pd + 4 * of_nat j) = mem s (init_page_dir s + 4 * of_nat j)) \<and>
          (\<exists>s2. pagedir_destroy pd s1 = Some s2 \<and> (\<forall>q. held s2 q = held s q) \<and> (\<forall>q. uheld s2 q = uheld s q))"
  using assms
proof (cases rule: pagedir_create_cases [of s])
  case (got pd s1)
  have sp: "space_ok s1 pd" using got(4,11) by (simp add: space_ok_def)
  have fr: "frames s1 pd = {}" using got(11) by (simp add: frames_def)
  have "init_page_dir s1 = init_page_dir s" using got(8) unfolding same_cpu_def by (metis vm.select_convs(2) vm.surjective vm.update_convs(1))
  then have "pd \<noteq> init_page_dir s1" using got(3) assms(2) by (auto simp: boot_dir_def)
  from pagedir_destroy_ok [OF sp this] obtain s2 where
    s2: "pagedir_destroy pd s1 = Some s2" "\<And>q. held s2 q \<longleftrightarrow> held s1 q \<and> q \<notin> tables s1 pd" "\<And>q. uheld s2 q \<longleftrightarrow> uheld s1 q \<and> q \<notin> frames s1 pd"
    by blast
  have h: "held s2 q = held s q" for q using s2(2) got(3,5,10) by auto
  have u: "uheld s2 q = uheld s q" for q using s2(3) got(6) fr by simp
  have g: "pagedir_get_page pd v s1 = Some 0" if "is_user_vaddr v" for v
    using pagedir_get_page_entry [OF got(4) that] got(11) [OF that] by simp
  show ?thesis using got(1,2,3,9) sp s2(1) h u g by auto
next
  case full
  then show ?thesis by simp
qed

theorem pagedir_create_fresh_witness:
  "case pagedir_create (demo_vm (\<lambda>a. 0)) of
      None \<Rightarrow> False
    | Some (pd, s1) \<Rightarrow>
        if pd = 0 then s1 = demo_vm (\<lambda>a. 0) \<and> kernel_full (demo_vm (\<lambda>a. 0))
        else \<not> held (demo_vm (\<lambda>a. 0)) pd \<and> space_ok s1 pd \<and> (\<forall>v. is_user_vaddr v \<longrightarrow> pagedir_get_page pd v s1 = Some 0) \<and>
          (\<forall>j\<in>{768..<1024}. mem s1 (pd + 4 * of_nat j) = mem (demo_vm (\<lambda>a. 0)) (init_page_dir (demo_vm (\<lambda>a. 0)) + 4 * of_nat j)) \<and>
          (\<exists>s2. pagedir_destroy pd s1 = Some s2 \<and> (\<forall>q. held s2 q = held (demo_vm (\<lambda>a. 0)) q) \<and>
            (\<forall>q. uheld s2 q = uheld (demo_vm (\<lambda>a. 0)) q))"
  by (rule pagedir_create_fresh [OF demo_vm_ok demo_boot_dir])

text \<open>
  C34: \<^verbatim>\<open>pagedir_destroy\<close> of an address space whose user pages are mapped to different frames
  of the user pool returns, gives back the directory, every one of its page tables and every
  frame, each exactly once, and no other page of either pool.
\<close>

theorem pagedir_destroy_frees:
  assumes "space_ok s pd" and "pd \<noteq> init_page_dir s"
  shows "\<exists>s'. pagedir_destroy pd s = Some s' \<and> palloc_ok (vpages s') \<and> cr3 s' = cr3 s \<and>
    (\<forall>q. held s' q \<longleftrightarrow> held s q \<and> q \<notin> tables s pd) \<and> (\<forall>q. uheld s' q \<longleftrightarrow> uheld s q \<and> q \<notin> frames s pd)"
proof -
  have "same_cpu s s' \<Longrightarrow> cr3 s' = cr3 s" for s' unfolding same_cpu_def by (metis vm.select_convs(4) vm.surjective vm.update_convs(1))
  then show ?thesis using pagedir_destroy_ok [OF assms] by blast
qed

theorem pagedir_destroy_frees_witness:
  "\<exists>s'. pagedir_destroy 0xc0101000 (demo_vm demo_words) = Some s' \<and> palloc_ok (vpages s') \<and> cr3 s' = cr3 (demo_vm demo_words) \<and>
    (\<forall>q. held s' q \<longleftrightarrow> held (demo_vm demo_words) q \<and> q \<notin> tables (demo_vm demo_words) 0xc0101000) \<and>
    (\<forall>q. uheld s' q \<longleftrightarrow> uheld (demo_vm demo_words) q \<and> q \<notin> frames (demo_vm demo_words) 0xc0101000)"
  by (rule pagedir_destroy_frees [OF demo_space]) simp

end
