(* ===== verification/Kblock.thy ===== *)
theory Kblock
  imports Pintos_Prelude
begin

text \<open>
  A block device as the file system uses it (\<^verbatim>\<open>devices/block.c\<close>): its type and its sectors. The
  driver keeps what is written. The counters of reads and writes, which are only printed, are left
  out. A sector is a list of bytes; the file system also reads and writes sectors as arrays of
  32-bit words, which are stored with the low byte first.
\<close>

unbundle bit_operations_syntax

section \<open>Devices\<close>

definition BLOCK_SECTOR_SIZE :: nat where
  "BLOCK_SECTOR_SIZE = 512"

datatype block_type = BLOCK_KERNEL | BLOCK_FILESYS | BLOCK_SCRATCH | BLOCK_SWAP | BLOCK_RAW | BLOCK_FOREIGN

record block =
  btype :: block_type
  sectors :: "u8 list list"

definition block_size :: "block \<Rightarrow> nat" where
  "block_size b = length (sectors b)"

definition check_sector :: "block \<Rightarrow> u32 \<Rightarrow> unit option" where
  "check_sector b sector = (if unat sector \<ge> block_size b then None else Some ())"

definition block_read :: "block \<Rightarrow> u32 \<Rightarrow> u8 list option" where
  "block_read b sector = do { check_sector b sector; Some (sectors b ! unat sector) }"

definition block_write :: "block \<Rightarrow> u32 \<Rightarrow> u8 list \<Rightarrow> block option" where
  "block_write b sector buffer =
     do {
       check_sector b sector;
       ASSERT (btype b \<noteq> BLOCK_FOREIGN);
       Some (b\<lparr>sectors := (sectors b)[unat sector := buffer]\<rparr>)
     }"

section \<open>Bytes and words\<close>

definition word_bytes :: "u32 \<Rightarrow> u8 list" where
  "word_bytes w = [ucast w, ucast (drop_bit 8 w), ucast (drop_bit 16 w), ucast (drop_bit 24 w)]"

definition bytes_word :: "u8 \<Rightarrow> u8 \<Rightarrow> u8 \<Rightarrow> u8 \<Rightarrow> u32" where
  "bytes_word a b c d = ucast a OR push_bit 8 (ucast b) OR push_bit 16 (ucast c) OR push_bit 24 (ucast d)"

definition bytes_of :: "u32 list \<Rightarrow> u8 list" where
  "bytes_of ws = concat (map word_bytes ws)"

fun words_of :: "u8 list \<Rightarrow> u32 list" where
  "words_of (a # b # c # d # bs) = bytes_word a b c d # words_of bs"
| "words_of _ = []"

lemma length_bytes_of [simp]: "length (bytes_of ws) = 4 * length ws"
  by (induction ws) (simp_all add: bytes_of_def word_bytes_def)

lemma length_words_of [simp]: "length (words_of bs) = length bs div 4"
  by (induction bs rule: words_of.induct) simp_all

lemma bytes_word_bytes:
  "bytes_word (ucast w) (ucast (drop_bit 8 w)) (ucast (drop_bit 16 w)) (ucast (drop_bit 24 w)) = w"
proof (rule bit_word_eqI)
  fix n assume n: "n < LENGTH(32)"
  then have "n < 8 \<or> 8 \<le> n \<and> n < 16 \<or> 16 \<le> n \<and> n < 24 \<or> 24 \<le> n" by auto
  then show "bit (bytes_word (ucast w) (ucast (drop_bit 8 w)) (ucast (drop_bit 16 w)) (ucast (drop_bit 24 w))) n \<longleftrightarrow> bit w n"
    using n by (auto simp: bytes_word_def bit_simps)
qed

lemma word_bytes_word: "word_bytes (bytes_word a b c d) = [a, b, c, d]"
proof -
  have "ucast (bytes_word a b c d) = a" by (rule bit_word_eqI) (auto simp: bytes_word_def bit_simps)
  moreover have "ucast (drop_bit 8 (bytes_word a b c d)) = b"
    by (rule bit_word_eqI) (auto simp: bytes_word_def bit_simps dest: bit_imp_le_length)
  moreover have "ucast (drop_bit 16 (bytes_word a b c d)) = c"
    by (rule bit_word_eqI) (auto simp: bytes_word_def bit_simps dest: bit_imp_le_length)
  moreover have "ucast (drop_bit 24 (bytes_word a b c d)) = d"
    by (rule bit_word_eqI) (auto simp: bytes_word_def bit_simps dest: bit_imp_le_length)
  ultimately show ?thesis by (simp add: word_bytes_def)
qed

lemma words_of_bytes_of [simp]: "words_of (bytes_of ws) = ws"
  by (induction ws) (simp_all add: bytes_of_def word_bytes_def bytes_word_bytes)

lemma bytes_of_words_of: "4 dvd length bs \<Longrightarrow> bytes_of (words_of bs) = bs"
proof (induction bs rule: words_of.induct)
  case (1 a b c d bs)
  have "4 dvd length bs" using 1(2) by simp presburger
  then have "bytes_of (words_of bs) = bs" by (rule 1(1))
  then show ?case by (simp add: bytes_of_def word_bytes_word)
qed (auto dest: dvd_imp_le simp: bytes_of_def)

section \<open>Reading back what was written\<close>

lemma block_read_eq [simp]: "unat sector < block_size b \<Longrightarrow> block_read b sector = Some (sectors b ! unat sector)"
  by (simp add: block_read_def check_sector_def)

lemma block_write_eq [simp]:
  "unat sector < block_size b \<Longrightarrow> btype b \<noteq> BLOCK_FOREIGN \<Longrightarrow>
    block_write b sector buffer = Some (b\<lparr>sectors := (sectors b)[unat sector := buffer]\<rparr>)"
  by (simp add: block_write_def check_sector_def)

end
