(* ===== verification/Kinode.thy ===== *)
theory Kinode
  imports Kblock Kbitmap "HOL-Library.Signed_Division"
begin

text \<open>
  Inodes and the free map: \<^verbatim>\<open>filesys/inode.c\<close> and \<^verbatim>\<open>filesys/free-map.c\<close>, with the file
  routines of \<^verbatim>\<open>lib/kernel/bitmap.c\<close>. One thread at a time is in the file system; the lock of an
  inode is the flag whether this thread holds it. Structures on the heap are looked up by their
  address in a map. What \<^verbatim>\<open>malloc\<close> will answer is part of the state: the list of answers to come,
  after which memory is always found. So are the words that uninitialised arrays find on the stack.

  The free map is itself a file, so that writing a file that grows can write another file, the
  free map, which does not grow. The depth of this nesting is the first argument of
  \<^verbatim>\<open>inode_write_at\<close> and of the routines that call it; depth two is enough.
\<close>

unbundle bit_operations_syntax

section \<open>State\<close>

definition INODE_MAGIC :: u32 where
  "INODE_MAGIC = 0x494e4f44"

definition DIRECT_NUM :: nat where
  "DIRECT_NUM = 10"

definition BLOCKS_IN_INDIRECT :: nat where
  "BLOCKS_IN_INDIRECT = BLOCK_SECTOR_SIZE div 4"

record inode_disk =
  direct_blocks :: "u32 list"
  indirect_block :: u32
  double_indirect_block :: u32
  isdir :: bool
  eof :: int
  dlength :: int
  magic :: u32
  unused :: "u32 list"

record inode =
  isector :: u32
  open_cnt :: int
  removed :: bool
  deny_write_cnt :: int
  data :: inode_disk
  inode_lock :: bool

record open_file =
  finode :: nat
  fpos :: int
  fdeny_write :: bool

record dir =
  dinode :: nat
  dpos :: int

record fs =
  fs_device :: block
  inodes :: "nat \<rightharpoonup> inode"
  open_inodes :: "nat list"
  files :: "nat \<rightharpoonup> open_file"
  dirs :: "nat \<rightharpoonup> dir"
  free_map :: bitmap
  free_map_file :: nat
  mallocs :: "bool list"
  next_ptr :: nat
  stack :: "u32 list"

text \<open>How an inode is laid out in its sector, and read from it.\<close>

definition disk_words :: "inode_disk \<Rightarrow> u32 list" where
  "disk_words d = direct_blocks d @ [indirect_block d, double_indirect_block d, if isdir d then 1 else 0,
     word_of_int (eof d), word_of_int (dlength d), magic d] @ unused d"

definition words_disk :: "u32 list \<Rightarrow> inode_disk" where
  "words_disk w = \<lparr>direct_blocks = take DIRECT_NUM w, indirect_block = w ! 10, double_indirect_block = w ! 11,
     isdir = (w ! 12 AND 0xff \<noteq> 0), eof = sint (w ! 13), dlength = sint (w ! 14), magic = w ! 15, unused = drop 16 w\<rparr>"

definition inode_sector :: "inode_disk \<Rightarrow> u8 list" where
  "inode_sector d = bytes_of (disk_words d)"

definition sector_inode :: "u8 list \<Rightarrow> inode_disk" where
  "sector_inode bs = words_disk (words_of bs)"

text \<open>Heap and device.\<close>

definition malloc_ok :: "fs \<Rightarrow> bool \<times> fs" where
  "malloc_ok s = (case mallocs s of [] \<Rightarrow> (True, s) | b # bs \<Rightarrow> (b, s\<lparr>mallocs := bs\<rparr>))"

definition malloc :: "fs \<Rightarrow> nat \<times> fs" where
  "malloc s = (let (ok, s) = malloc_ok s in if ok then (next_ptr s, s\<lparr>next_ptr := Suc (next_ptr s)\<rparr>) else (0, s))"

definition fs_read :: "u32 \<Rightarrow> fs \<Rightarrow> u8 list option" where
  "fs_read sector s = block_read (fs_device s) sector"

definition fs_write :: "u32 \<Rightarrow> u8 list \<Rightarrow> fs \<Rightarrow> fs option" where
  "fs_write sector bs s = do { b \<leftarrow> block_write (fs_device s) sector bs; Some (s\<lparr>fs_device := b\<rparr>) }"

definition set_inode :: "nat \<Rightarrow> inode \<Rightarrow> fs \<Rightarrow> fs" where
  "set_inode ip i s = s\<lparr>inodes := (inodes s)(ip \<mapsto> i)\<rparr>"

abbreviation zeros :: "u8 list" where
  "zeros \<equiv> replicate BLOCK_SECTOR_SIZE 0"

text \<open>Offsets are 32-bit signed numbers; the division of C rounds towards zero.\<close>

definition off_wrap :: "int \<Rightarrow> int" where
  "off_wrap x = (x + 2 ^ 31) mod 2 ^ 32 - 2 ^ 31"

definition to_size :: "int \<Rightarrow> nat" where
  "to_size x = nat (x mod 2 ^ 32)"

definition bytes_to_sectors :: "int \<Rightarrow> nat" where
  "bytes_to_sectors sz = to_size (off_wrap (sz + int BLOCK_SECTOR_SIZE - 1) sdiv int BLOCK_SECTOR_SIZE)"

section \<open>Where a byte is\<close>

definition byte_to_sector :: "inode \<Rightarrow> int \<Rightarrow> fs \<Rightarrow> u32 option" where
  "byte_to_sector i pos s =
     (if pos \<le> dlength (data i)
      then let sectors = to_size (pos sdiv int BLOCK_SECTOR_SIZE) in
        if sectors < DIRECT_NUM then aget (direct_blocks (data i)) sectors
        else if sectors < BLOCKS_IN_INDIRECT + DIRECT_NUM
        then do {
          buffer \<leftarrow> fs_read (indirect_block (data i)) s;
          aget (words_of buffer) (sectors - DIRECT_NUM)
        }
        else do {
          buffer \<leftarrow> fs_read (double_indirect_block (data i)) s;
          let current_indirect = (sectors - DIRECT_NUM - BLOCKS_IN_INDIRECT) div BLOCKS_IN_INDIRECT;
          b \<leftarrow> aget (words_of buffer) current_indirect;
          buffer2 \<leftarrow> fs_read b s;
          aget (words_of buffer2) ((sectors - DIRECT_NUM - BLOCKS_IN_INDIRECT) mod BLOCKS_IN_INDIRECT)
        }
      else Some (- 1))"

definition inode_init :: "fs \<Rightarrow> fs" where
  "inode_init s = s\<lparr>open_inodes := []\<rparr>"

definition inode_length :: "inode \<Rightarrow> int" where
  "inode_length i = dlength (data i)"

definition inode_isdir :: "inode \<Rightarrow> bool" where
  "inode_isdir i = isdir (data i)"

definition inode_lock_acquire :: "nat \<Rightarrow> fs \<Rightarrow> fs option" where
  "inode_lock_acquire ip s =
     do { i \<leftarrow> inodes s ip; ASSERT (\<not> inode_lock i); Some (set_inode ip (i\<lparr>inode_lock := True\<rparr>) s) }"

definition inode_lock_release :: "nat \<Rightarrow> fs \<Rightarrow> fs option" where
  "inode_lock_release ip s =
     do { i \<leftarrow> inodes s ip; ASSERT (inode_lock i); Some (set_inode ip (i\<lparr>inode_lock := False\<rparr>) s) }"

section \<open>Reading\<close>

text \<open>
  The loop gets the inode, the bytes still wanted, the offset, and whether it already has the
  bounce buffer; it answers the bytes that it puts into the caller's buffer.
\<close>

function read_loop :: "inode \<Rightarrow> int \<Rightarrow> int \<Rightarrow> bool \<Rightarrow> fs \<Rightarrow> (u8 list \<times> fs) option" where
  "read_loop i sz offset bounce s =
     (if sz > 0
      then do {
        sector_idx \<leftarrow> byte_to_sector i offset s;
        let sector_ofs = offset smod int BLOCK_SECTOR_SIZE;
        let inode_left = eof (data i) - offset;
        let sector_left = int BLOCK_SECTOR_SIZE - sector_ofs;
        let min_left = (if inode_left < sector_left then inode_left else sector_left);
        let chunk_size = (if sz < min_left then sz else min_left);
        if chunk_size \<le> 0 then Some ([], s)
        else if sector_ofs = 0 \<and> chunk_size = int BLOCK_SECTOR_SIZE
        then do {
          bs \<leftarrow> fs_read sector_idx s;
          (rest, s) \<leftarrow> read_loop i (sz - chunk_size) (offset + chunk_size) bounce s;
          Some (bs @ rest, s)
        }
        else do {
          let (ok, s) = (if bounce then (True, s) else malloc_ok s);
          if \<not> ok then Some ([], s)
          else do {
            b \<leftarrow> fs_read sector_idx s;
            bs \<leftarrow> (if 0 \<le> sector_ofs then Some (take (nat chunk_size) (drop (nat sector_ofs) b)) else None);
            (rest, s) \<leftarrow> read_loop i (sz - chunk_size) (offset + chunk_size) True s;
            Some (bs @ rest, s)
          }
        }
      }
      else Some ([], s))"
  by pat_completeness auto
termination by (relation "measure (\<lambda>(i, sz, offset, bounce, s). nat sz)") auto

declare read_loop.simps [simp del]

definition inode_read_at :: "nat \<Rightarrow> int \<Rightarrow> int \<Rightarrow> fs \<Rightarrow> (u8 list \<times> fs) option" where
  "inode_read_at ip sz offset s = do { i \<leftarrow> inodes s ip; read_loop i sz offset False s }"

section \<open>The free map\<close>

text \<open>
  \<^verbatim>\<open>free_map_allocate\<close> writes the free map to its file; how is an argument, since that is the
  recursion through \<^verbatim>\<open>inode_write_at\<close>. The answer is the first sector, or nothing.
\<close>

type_synonym map_writer = "fs \<Rightarrow> (bool \<times> fs) option"

definition free_map_allocate :: "map_writer \<Rightarrow> nat \<Rightarrow> fs \<Rightarrow> (u32 option \<times> fs) option" where
  "free_map_allocate wr cnt s =
     do {
       (sector, fm) \<leftarrow> bitmap_scan_and_flip (free_map s) 0 cnt False;
       let s = s\<lparr>free_map := fm\<rparr>;
       (sector, s) \<leftarrow> (if sector \<noteq> BITMAP_ERROR \<and> free_map_file s \<noteq> 0
          then do {
            (ok, s) \<leftarrow> wr s;
            if \<not> ok
            then do { fm \<leftarrow> bitmap_set_multiple (free_map s) sector cnt False; Some (BITMAP_ERROR, s\<lparr>free_map := fm\<rparr>) }
            else Some (sector, s)
          }
          else Some (sector, s));
       Some (if sector \<noteq> BITMAP_ERROR then Some (of_nat sector) else None, s)
     }"

definition free_map_release :: "map_writer \<Rightarrow> u32 \<Rightarrow> nat \<Rightarrow> fs \<Rightarrow> fs option" where
  "free_map_release wr sector cnt s =
     do {
       used \<leftarrow> bitmap_all (free_map s) (unat sector) cnt;
       ASSERT used;
       fm \<leftarrow> bitmap_set_multiple (free_map s) (unat sector) cnt False;
       (ok, s) \<leftarrow> wr (s\<lparr>free_map := fm\<rparr>);
       Some s
     }"

section \<open>Growing\<close>

text \<open>An array on the stack of which only the first 128 bytes are cleared.\<close>

definition stack_array :: "fs \<Rightarrow> u32 list" where
  "stack_array s = replicate (BLOCKS_IN_INDIRECT div 4) 0 @ drop (BLOCKS_IN_INDIRECT div 4) (take BLOCKS_IN_INDIRECT (stack s))"

text \<open>The loop of \<^verbatim>\<open>indirect_block_allocate\<close>: the last argument is the number of sectors to add.\<close>

fun fill_indirect :: "map_writer \<Rightarrow> nat \<Rightarrow> u32 list \<Rightarrow> fs \<Rightarrow> nat \<Rightarrow> (u32 list \<times> fs) option" where
  "fill_indirect wr current_sectors buffer s 0 = Some (buffer, s)"
| "fill_indirect wr current_sectors buffer s (Suc sectors_to_add) =
     do {
       (r, s) \<leftarrow> free_map_allocate wr 1 s;
       case r of
         None \<Rightarrow> Some (buffer, s)
       | Some sector \<Rightarrow>
           do {
             buffer \<leftarrow> aset buffer current_sectors sector;
             s \<leftarrow> fs_write sector zeros s;
             fill_indirect wr (current_sectors + 1) buffer s sectors_to_add
           }
     }"

definition indirect_block_allocate :: "map_writer \<Rightarrow> nat \<Rightarrow> nat \<Rightarrow> u32 \<Rightarrow> fs \<Rightarrow> (u32 \<times> fs) option" where
  "indirect_block_allocate wr current_sectors sectors_to_add indirect s =
     do {
       let buffer = stack_array s;
       (r, buffer, s) \<leftarrow> (if indirect = 0
          then do { (r, s) \<leftarrow> free_map_allocate wr 1 s; Some (r, buffer, s) }
          else do { b \<leftarrow> fs_read indirect s; Some (Some indirect, words_of b, s) });
       case r of
         None \<Rightarrow> Some (0, s)
       | Some indirect \<Rightarrow>
           do {
             (buffer, s) \<leftarrow> fill_indirect wr current_sectors buffer s sectors_to_add;
             s \<leftarrow> fs_write indirect (bytes_of buffer) s;
             Some (indirect, s)
           }
     }"

function fill_double :: "map_writer \<Rightarrow> nat \<Rightarrow> nat \<Rightarrow> u32 list \<Rightarrow> fs \<Rightarrow> (u32 list \<times> fs) option" where
  "fill_double wr current_sectors sectors_to_add buffer s =
     (if sectors_to_add > 0
      then do {
        let current_indirect = current_sectors div BLOCKS_IN_INDIRECT;
        let remaining_sectors = BLOCKS_IN_INDIRECT - current_sectors mod BLOCKS_IN_INDIRECT;
        let sectors = (if sectors_to_add < remaining_sectors then sectors_to_add else remaining_sectors);
        old \<leftarrow> aget buffer current_indirect;
        (b, s) \<leftarrow> indirect_block_allocate wr (current_sectors mod BLOCKS_IN_INDIRECT) sectors old s;
        buffer \<leftarrow> aset buffer current_indirect b;
        fill_double wr (current_sectors + sectors) (sectors_to_add - sectors) buffer s
      }
      else Some (buffer, s))"
  by pat_completeness auto
termination
  by (relation "measure (\<lambda>(wr, cur, n, buffer, s). n)") (auto simp: BLOCKS_IN_INDIRECT_def BLOCK_SECTOR_SIZE_def)

declare fill_double.simps [simp del]

definition double_indirect_block_allocate :: "map_writer \<Rightarrow> nat \<Rightarrow> nat \<Rightarrow> u32 \<Rightarrow> fs \<Rightarrow> (u32 \<times> fs) option" where
  "double_indirect_block_allocate wr current_sectors sectors_to_add double_indirect s =
     do {
       let buffer = stack_array s;
       (r, buffer, s) \<leftarrow> (if double_indirect = 0
          then do { (r, s) \<leftarrow> free_map_allocate wr 1 s; Some (r, buffer, s) }
          else do { b \<leftarrow> fs_read double_indirect s; Some (Some double_indirect, words_of b, s) });
       case r of
         None \<Rightarrow> Some (0, s)
       | Some double_indirect \<Rightarrow>
           do {
             (buffer, s) \<leftarrow> fill_double wr current_sectors sectors_to_add buffer s;
             s \<leftarrow> fs_write double_indirect (bytes_of buffer) s;
             Some (double_indirect, s)
           }
     }"

text \<open>The loop over the direct blocks answers whether it did not fail, the sectors still to add and those there are.\<close>

fun fill_direct :: "map_writer \<Rightarrow> nat \<Rightarrow> nat \<Rightarrow> inode_disk \<Rightarrow> fs \<Rightarrow> (bool \<times> nat \<times> nat \<times> inode_disk \<times> fs) option" where
  "fill_direct wr 0 current_sectors d s = Some (True, 0, current_sectors, d, s)"
| "fill_direct wr (Suc n) current_sectors d s =
     (if current_sectors < DIRECT_NUM
      then do {
        (r, s) \<leftarrow> free_map_allocate wr 1 s;
        case r of
          None \<Rightarrow> Some (False, Suc n, current_sectors, d, s)
        | Some sector \<Rightarrow>
            do {
              direct \<leftarrow> aset (direct_blocks d) current_sectors sector;
              s \<leftarrow> fs_write sector zeros s;
              fill_direct wr n (current_sectors + 1) (d\<lparr>direct_blocks := direct\<rparr>) s
            }
      }
      else Some (True, Suc n, current_sectors, d, s))"

definition sector_allocate :: "map_writer \<Rightarrow> nat \<Rightarrow> inode_disk \<Rightarrow> fs \<Rightarrow> (bool \<times> inode_disk \<times> fs) option" where
  "sector_allocate wr sectors_to_add d s =
     do {
       let current_sectors = bytes_to_sectors (dlength d);
       if size_wrap (current_sectors + sectors_to_add) > DIRECT_NUM + BLOCKS_IN_INDIRECT + BLOCKS_IN_INDIRECT * BLOCKS_IN_INDIRECT
       then Some (False, d, s)
       else if sectors_to_add = 0 then Some (True, d, s)
       else do {
         (ok, sectors_to_add, current_sectors, d, s) \<leftarrow> fill_direct wr sectors_to_add current_sectors d s;
         if \<not> ok then Some (False, d, s)
         else do {
           (ok, sectors_to_add, current_sectors, d, s) \<leftarrow>
             (if sectors_to_add > 0 \<and> current_sectors < DIRECT_NUM + BLOCKS_IN_INDIRECT
              then do {
                let sectors = (if sectors_to_add > BLOCKS_IN_INDIRECT then BLOCKS_IN_INDIRECT else sectors_to_add);
                (b, s) \<leftarrow> indirect_block_allocate wr (current_sectors - DIRECT_NUM) sectors (indirect_block d) s;
                Some (b \<noteq> 0, sectors_to_add - sectors, current_sectors + sectors, d\<lparr>indirect_block := b\<rparr>, s)
              }
              else Some (True, sectors_to_add, current_sectors, d, s));
           if \<not> ok then Some (False, d, s)
           else if sectors_to_add > 0
           then do {
             (b, s) \<leftarrow> double_indirect_block_allocate wr (current_sectors - DIRECT_NUM - BLOCKS_IN_INDIRECT) sectors_to_add
               (double_indirect_block d) s;
             Some (b \<noteq> 0, d\<lparr>double_indirect_block := b\<rparr>, s)
           }
           else Some (True, d, s)
         }
       }
     }"

section \<open>Writing\<close>

text \<open>The bytes of the caller's buffer that a chunk copies; past the end of it the read is wild.\<close>

definition chunk_of :: "u8 list \<Rightarrow> nat \<Rightarrow> nat \<Rightarrow> u8 list option" where
  "chunk_of buffer from n = (if from + n \<le> length buffer then Some (take n (drop from buffer)) else None)"

function write_loop :: "inode \<Rightarrow> u8 list \<Rightarrow> int \<Rightarrow> int \<Rightarrow> int \<Rightarrow> bool \<Rightarrow> fs \<Rightarrow> (int \<times> fs) option" where
  "write_loop i buffer sz offset bytes_written bounce s =
     (if sz > 0
      then do {
        sector_idx \<leftarrow> byte_to_sector i offset s;
        let sector_ofs = offset smod int BLOCK_SECTOR_SIZE;
        let inode_left = inode_length i - offset;
        let sector_left = int BLOCK_SECTOR_SIZE - sector_ofs;
        let min_left = (if inode_left < sector_left then inode_left else sector_left);
        let chunk_size = (if sz < min_left then sz else min_left);
        if chunk_size \<le> 0 then Some (bytes_written, s)
        else do {
          chunk \<leftarrow> chunk_of buffer (nat bytes_written) (nat chunk_size);
          if sector_ofs = 0 \<and> chunk_size = int BLOCK_SECTOR_SIZE
          then do {
            s \<leftarrow> fs_write sector_idx chunk s;
            write_loop i buffer (sz - chunk_size) (offset + chunk_size) (bytes_written + chunk_size) bounce s
          }
          else do {
            let (ok, s) = (if bounce then (True, s) else malloc_ok s);
            if \<not> ok then Some (bytes_written, s)
            else do {
              b \<leftarrow> (if sector_ofs > 0 \<or> chunk_size < sector_left then fs_read sector_idx s else Some zeros);
              ASSERT (0 \<le> sector_ofs);
              let b = take (nat sector_ofs) b @ chunk @ drop (nat (sector_ofs + chunk_size)) b;
              s \<leftarrow> fs_write sector_idx b s;
              write_loop i buffer (sz - chunk_size) (offset + chunk_size) (bytes_written + chunk_size) True s
            }
          }
        }
      }
      else Some (bytes_written, s))"
  by pat_completeness auto
termination by (relation "measure (\<lambda>(i, buffer, sz, offset, bw, bounce, s). nat sz)") auto

declare write_loop.simps [simp del]

text \<open>Writing the inode to its sector and reading it back into the open inode.\<close>

definition store_inode :: "nat \<Rightarrow> inode_disk \<Rightarrow> fs \<Rightarrow> fs option" where
  "store_inode ip d s =
     do {
       i \<leftarrow> inodes s ip;
       s \<leftarrow> fs_write (isector i) (inode_sector d) s;
       bs \<leftarrow> fs_read (isector i) s;
       Some (set_inode ip (i\<lparr>data := sector_inode bs\<rparr>) s)
     }"

fun inode_write_at :: "nat \<Rightarrow> nat \<Rightarrow> u8 list \<Rightarrow> int \<Rightarrow> int \<Rightarrow> fs \<Rightarrow> (int \<times> fs) option" where
  "inode_write_at 0 ip buffer sz offset s = None"
| "inode_write_at (Suc depth) ip buffer sz offset s =
     do {
       i \<leftarrow> inodes s ip;
       if deny_write_cnt i \<noteq> 0 then Some (0, s)
       else do {
         let new_length = off_wrap (offset + sz);
         s \<leftarrow> (if \<not> inode_isdir i then inode_lock_acquire ip s else Some s);
         let current_sectors = bytes_to_sectors (dlength (data i));
         let future_sectors = bytes_to_sectors new_length;
         let (ok, s) = malloc_ok s;
         ASSERT ok;
         bs \<leftarrow> fs_read (isector i) s;
         let d = sector_inode bs;
         (d, s) \<leftarrow> (if future_sectors > current_sectors
            then do {
              (r, d, s) \<leftarrow> sector_allocate
                (\<lambda>s. do {
                   f \<leftarrow> files s (free_map_file s);
                   let sz = int (byte_cnt (bit_cnt (free_map s)));
                   (n, s) \<leftarrow> inode_write_at depth (finode f) (bytes_of (bits (free_map s))) sz 0 s;
                   Some (n = sz, s)
                 }) (future_sectors - current_sectors) d s;
              Some (d, s)
            }
            else Some (d, s));
         (d, s) \<leftarrow> (if new_length > dlength d
            then do { let d = d\<lparr>dlength := new_length\<rparr>; s \<leftarrow> store_inode ip d s; Some (d, s) }
            else Some (d, s));
         i \<leftarrow> inodes s ip;
         s \<leftarrow> (if \<not> inode_isdir i then inode_lock_release ip s else Some s);
         i \<leftarrow> inodes s ip;
         (bytes_written, s) \<leftarrow> write_loop i buffer sz offset 0 False s;
         s \<leftarrow> (if new_length > eof d then store_inode ip (d\<lparr>eof := new_length\<rparr>) s else Some s);
         Some (bytes_written, s)
       }
     }"

definition file_write_at :: "nat \<Rightarrow> nat \<Rightarrow> u8 list \<Rightarrow> int \<Rightarrow> int \<Rightarrow> fs \<Rightarrow> (int \<times> fs) option" where
  "file_write_at depth fp buffer sz file_ofs s =
     do { f \<leftarrow> files s fp; inode_write_at depth (finode f) buffer sz file_ofs s }"

definition file_read_at :: "nat \<Rightarrow> int \<Rightarrow> int \<Rightarrow> fs \<Rightarrow> (u8 list \<times> fs) option" where
  "file_read_at fp sz file_ofs s = do { f \<leftarrow> files s fp; inode_read_at (finode f) sz file_ofs s }"

section \<open>The free map as a file\<close>

definition bitmap_file_size :: "bitmap \<Rightarrow> nat" where
  "bitmap_file_size b = byte_cnt (bit_cnt b)"

definition bitmap_write :: "nat \<Rightarrow> bitmap \<Rightarrow> nat \<Rightarrow> map_writer" where
  "bitmap_write depth b fp s =
     do {
       let sz = int (byte_cnt (bit_cnt b));
       (n, s) \<leftarrow> file_write_at depth fp (bytes_of (bits b)) sz 0 s;
       Some (n = sz, s)
     }"

text \<open>The bytes that are read replace the first ones of the array.\<close>

definition bitmap_read :: "bitmap \<Rightarrow> nat \<Rightarrow> fs \<Rightarrow> (bool \<times> bitmap \<times> fs) option" where
  "bitmap_read b fp s =
     (if bit_cnt b > 0
      then do {
        let sz = int (byte_cnt (bit_cnt b));
        (bs, s) \<leftarrow> file_read_at fp sz 0 s;
        let raw = bs @ drop (length bs) (bytes_of (bits b));
        let ws = words_of raw;
        let k = elem_cnt (bit_cnt b) - 1;
        w \<leftarrow> aget ws k;
        ws \<leftarrow> aset ws k (w AND last_mask b);
        Some (int (length bs) = sz, b\<lparr>bits := ws\<rparr>, s)
      }
      else Some (True, b, s))"

abbreviation write_free_map :: "nat \<Rightarrow> map_writer" where
  "write_free_map depth \<equiv> \<lambda>s. bitmap_write depth (free_map s) (free_map_file s) s"

definition FREE_MAP_SECTOR :: u32 where
  "FREE_MAP_SECTOR = 0"

definition ROOT_DIR_SECTOR :: u32 where
  "ROOT_DIR_SECTOR = 1"

section \<open>Creating, opening and closing\<close>

definition inode_create :: "nat \<Rightarrow> u32 \<Rightarrow> int \<Rightarrow> bool \<Rightarrow> fs \<Rightarrow> (bool \<times> fs) option" where
  "inode_create depth sector len dir s =
     do {
       ASSERT (len \<ge> 0);
       let (ok, s) = malloc_ok s;
       if \<not> ok then Some (False, s)
       else do {
         let d = \<lparr>direct_blocks = replicate DIRECT_NUM 0, indirect_block = 0, double_indirect_block = 0, isdir = dir,
           eof = 0, dlength = 0, magic = INODE_MAGIC, unused = replicate 112 0\<rparr>;
         (ok, d, s) \<leftarrow> sector_allocate (write_free_map depth) (bytes_to_sectors len) d s;
         if ok
         then do { s \<leftarrow> fs_write sector (inode_sector (d\<lparr>dlength := len, eof := len\<rparr>)) s; Some (True, s) }
         else Some (False, s)
       }
     }"

definition inode_reopen :: "nat \<Rightarrow> fs \<Rightarrow> (nat \<times> fs) option" where
  "inode_reopen ip s =
     (if ip \<noteq> 0
      then do { i \<leftarrow> inodes s ip; Some (ip, set_inode ip (i\<lparr>open_cnt := open_cnt i + 1\<rparr>) s) }
      else Some (ip, s))"

fun find_open :: "u32 \<Rightarrow> nat list \<Rightarrow> fs \<Rightarrow> nat option option" where
  "find_open sector [] s = Some None"
| "find_open sector (ip # ips) s =
     do { i \<leftarrow> inodes s ip; if isector i = sector then Some (Some ip) else find_open sector ips s }"

definition inode_open :: "u32 \<Rightarrow> fs \<Rightarrow> (nat \<times> fs) option" where
  "inode_open sector s =
     do {
       r \<leftarrow> find_open sector (open_inodes s) s;
       case r of
         Some ip \<Rightarrow> inode_reopen ip s
       | None \<Rightarrow>
           do {
             let (ip, s) = malloc s;
             if ip = 0 then Some (0, s)
             else do {
               let s = s\<lparr>open_inodes := ip # open_inodes s\<rparr>;
               bs \<leftarrow> fs_read sector s;
               Some (ip, set_inode ip \<lparr>isector = sector, open_cnt = 1, removed = False, deny_write_cnt = 0,
                 data = sector_inode bs, inode_lock = False\<rparr> s)
             }
           }
     }"

definition inode_get_inumber :: "inode \<Rightarrow> u32" where
  "inode_get_inumber i = isector i"

text \<open>
  The loops that give back sectors up to the first zero answer the index they stop at. Giving back
  the indirect block is decided by the array element after the last one in use, which for a full
  array is the word that follows it: \<open>indirect_block\<close> after the direct blocks, and whatever is on
  the stack after the buffer.
\<close>

fun release_run :: "map_writer \<Rightarrow> u32 list \<Rightarrow> nat \<Rightarrow> fs \<Rightarrow> (nat \<times> fs) option" where
  "release_run wr [] n s = Some (n, s)"
| "release_run wr (b # bs) n s =
     (if b = 0 then Some (n, s) else do { s \<leftarrow> free_map_release wr b 1 s; release_run wr bs (n + 1) s })"

fun release_double :: "map_writer \<Rightarrow> u32 list \<Rightarrow> fs \<Rightarrow> fs option" where
  "release_double wr [] s = Some s"
| "release_double wr (b # bs) s =
     (if b = 0 then Some s
      else do {
        buffer2 \<leftarrow> fs_read b s;
        (j, s) \<leftarrow> release_run wr (words_of buffer2) 0 s;
        s \<leftarrow> free_map_release wr b 1 s;
        release_double wr bs s
      })"

definition inode_release :: "map_writer \<Rightarrow> inode \<Rightarrow> fs \<Rightarrow> fs option" where
  "inode_release wr i s =
     do {
       let d = data i;
       let buffer = take BLOCKS_IN_INDIRECT (stack s);
       let beyond = drop BLOCKS_IN_INDIRECT (stack s);
       s \<leftarrow> free_map_release wr (isector i) 1 s;
       (n, s) \<leftarrow> release_run wr (direct_blocks d) 0 s;
       after \<leftarrow> aget (direct_blocks d @ [indirect_block d]) n;
       (n, buffer, s) \<leftarrow> (if after \<noteq> 0 \<and> indirect_block d \<noteq> 0
          then do {
            bs \<leftarrow> fs_read (indirect_block d) s;
            let buffer = words_of bs;
            (n, s) \<leftarrow> release_run wr buffer 0 s;
            s \<leftarrow> free_map_release wr (indirect_block d) 1 s;
            Some (n, buffer, s)
          }
          else Some (n, buffer, s));
       after \<leftarrow> aget (buffer @ beyond) n;
       if after \<noteq> 0 \<and> double_indirect_block d \<noteq> 0
       then do {
         bs \<leftarrow> fs_read (double_indirect_block d) s;
         s \<leftarrow> release_double wr (words_of bs) s;
         free_map_release wr (double_indirect_block d) 1 s
       }
       else Some s
     }"

definition inode_close :: "nat \<Rightarrow> nat \<Rightarrow> fs \<Rightarrow> fs option" where
  "inode_close depth ip s =
     (if ip = 0 then Some s
      else do {
        i \<leftarrow> inodes s ip;
        let i = i\<lparr>open_cnt := open_cnt i - 1\<rparr>;
        let s = set_inode ip i s;
        if open_cnt i = 0
        then do {
          let s = s\<lparr>open_inodes := removeAll ip (open_inodes s)\<rparr>;
          s \<leftarrow> (if removed i then inode_release (write_free_map depth) i s else Some s);
          Some (s\<lparr>inodes := (inodes s)(ip := None)\<rparr>)
        }
        else Some s
      })"

definition inode_is_removed :: "nat \<Rightarrow> fs \<Rightarrow> bool option" where
  "inode_is_removed ip s = do { ASSERT (ip \<noteq> 0); i \<leftarrow> inodes s ip; Some (removed i) }"

definition inode_remove :: "nat \<Rightarrow> fs \<Rightarrow> fs option" where
  "inode_remove ip s = do { ASSERT (ip \<noteq> 0); i \<leftarrow> inodes s ip; Some (set_inode ip (i\<lparr>removed := True\<rparr>) s) }"

definition inode_deny_write :: "nat \<Rightarrow> fs \<Rightarrow> fs option" where
  "inode_deny_write ip s =
     do {
       i \<leftarrow> inodes s ip;
       let i = i\<lparr>deny_write_cnt := deny_write_cnt i + 1\<rparr>;
       ASSERT (deny_write_cnt i \<le> open_cnt i);
       Some (set_inode ip i s)
     }"

definition inode_allow_write :: "nat \<Rightarrow> fs \<Rightarrow> fs option" where
  "inode_allow_write ip s =
     do {
       i \<leftarrow> inodes s ip;
       ASSERT (deny_write_cnt i > 0);
       ASSERT (deny_write_cnt i \<le> open_cnt i);
       Some (set_inode ip (i\<lparr>deny_write_cnt := deny_write_cnt i - 1\<rparr>) s)
     }"

definition inode_is_open :: "inode \<Rightarrow> bool" where
  "inode_is_open i \<longleftrightarrow> open_cnt i > 1"

lemma inode_write_at_Suc:
  "inode_write_at (Suc depth) ip buffer sz offset s =
     do {
       i \<leftarrow> inodes s ip;
       if deny_write_cnt i \<noteq> 0 then Some (0, s)
       else do {
         let new_length = off_wrap (offset + sz);
         s \<leftarrow> (if \<not> inode_isdir i then inode_lock_acquire ip s else Some s);
         let current_sectors = bytes_to_sectors (dlength (data i));
         let future_sectors = bytes_to_sectors new_length;
         let (ok, s) = malloc_ok s;
         ASSERT ok;
         bs \<leftarrow> fs_read (isector i) s;
         let d = sector_inode bs;
         (d, s) \<leftarrow> (if future_sectors > current_sectors
            then do {
              (r, d, s) \<leftarrow> sector_allocate (write_free_map depth) (future_sectors - current_sectors) d s;
              Some (d, s)
            }
            else Some (d, s));
         (d, s) \<leftarrow> (if new_length > dlength d
            then do { let d = d\<lparr>dlength := new_length\<rparr>; s \<leftarrow> store_inode ip d s; Some (d, s) }
            else Some (d, s));
         i \<leftarrow> inodes s ip;
         s \<leftarrow> (if \<not> inode_isdir i then inode_lock_release ip s else Some s);
         i \<leftarrow> inodes s ip;
         (bytes_written, s) \<leftarrow> write_loop i buffer sz offset 0 False s;
         s \<leftarrow> (if new_length > eof d then store_inode ip (d\<lparr>eof := new_length\<rparr>) s else Some s);
         Some (bytes_written, s)
       }
     }"
proof -
  have "(\<lambda>s. do {
      f \<leftarrow> files s (free_map_file s);
      let sz = int (byte_cnt (bit_cnt (free_map s)));
      (n, s) \<leftarrow> inode_write_at depth (finode f) (bytes_of (bits (free_map s))) sz 0 s;
      Some (n = sz, s)
    }) = write_free_map depth"
    by (simp add: fun_eq_iff bitmap_write_def file_write_at_def Let_def)
  then show ?thesis by (simp only: inode_write_at.simps)
qed

declare inode_write_at.simps(2) [simp del]

end
