(* ===== verification/Kfile.thy ===== *)
theory Kfile
  imports Kinode
begin

text \<open>
  Open files (\<^verbatim>\<open>filesys/file.c\<close>) and the routines of \<^verbatim>\<open>filesys/free-map.c\<close> that keep the free
  map in a file.
\<close>

section \<open>Open files\<close>

definition set_file :: "nat \<Rightarrow> open_file \<Rightarrow> fs \<Rightarrow> fs" where
  "set_file fp f s = s\<lparr>files := (files s)(fp \<mapsto> f)\<rparr>"

definition file_open :: "nat \<Rightarrow> nat \<Rightarrow> fs \<Rightarrow> (nat \<times> fs) option" where
  "file_open depth ip s =
     do {
       let (fp, s) = malloc s;
       if ip \<noteq> 0 \<and> fp \<noteq> 0
       then Some (fp, set_file fp \<lparr>finode = ip, fpos = 0, fdeny_write = False\<rparr> s)
       else do { s \<leftarrow> inode_close depth ip s; Some (0, s) }
     }"

definition file_reopen :: "nat \<Rightarrow> nat \<Rightarrow> fs \<Rightarrow> (nat \<times> fs) option" where
  "file_reopen depth fp s =
     do { f \<leftarrow> files s fp; (ip, s) \<leftarrow> inode_reopen (finode f) s; file_open depth ip s }"

definition file_deny_write :: "nat \<Rightarrow> fs \<Rightarrow> fs option" where
  "file_deny_write fp s =
     do {
       ASSERT (fp \<noteq> 0);
       f \<leftarrow> files s fp;
       if \<not> fdeny_write f then inode_deny_write (finode f) (set_file fp (f\<lparr>fdeny_write := True\<rparr>) s) else Some s
     }"

definition file_allow_write :: "nat \<Rightarrow> fs \<Rightarrow> fs option" where
  "file_allow_write fp s =
     do {
       ASSERT (fp \<noteq> 0);
       f \<leftarrow> files s fp;
       if fdeny_write f then inode_allow_write (finode f) (set_file fp (f\<lparr>fdeny_write := False\<rparr>) s) else Some s
     }"

definition file_close :: "nat \<Rightarrow> nat \<Rightarrow> fs \<Rightarrow> fs option" where
  "file_close depth fp s =
     (if fp \<noteq> 0
      then do {
        s \<leftarrow> file_allow_write fp s;
        f \<leftarrow> files s fp;
        s \<leftarrow> inode_close depth (finode f) s;
        Some (s\<lparr>files := (files s)(fp := None)\<rparr>)
      }
      else Some s)"

definition file_get_inode :: "nat \<Rightarrow> fs \<Rightarrow> nat option" where
  "file_get_inode fp s = do { f \<leftarrow> files s fp; Some (finode f) }"

definition file_read :: "nat \<Rightarrow> int \<Rightarrow> fs \<Rightarrow> (u8 list \<times> fs) option" where
  "file_read fp sz s =
     do {
       f \<leftarrow> files s fp;
       (bs, s) \<leftarrow> inode_read_at (finode f) sz (fpos f) s;
       Some (bs, set_file fp (f\<lparr>fpos := off_wrap (fpos f + int (length bs))\<rparr>) s)
     }"

definition file_write :: "nat \<Rightarrow> nat \<Rightarrow> u8 list \<Rightarrow> int \<Rightarrow> fs \<Rightarrow> (int \<times> fs) option" where
  "file_write depth fp buffer sz s =
     do {
       f \<leftarrow> files s fp;
       (n, s) \<leftarrow> inode_write_at depth (finode f) buffer sz (fpos f) s;
       Some (n, set_file fp (f\<lparr>fpos := off_wrap (fpos f + n)\<rparr>) s)
     }"

definition file_length :: "nat \<Rightarrow> fs \<Rightarrow> int option" where
  "file_length fp s = do { ASSERT (fp \<noteq> 0); f \<leftarrow> files s fp; i \<leftarrow> inodes s (finode f); Some (inode_length i) }"

definition file_seek :: "nat \<Rightarrow> int \<Rightarrow> fs \<Rightarrow> fs option" where
  "file_seek fp new_pos s =
     do { ASSERT (fp \<noteq> 0); ASSERT (new_pos \<ge> 0); f \<leftarrow> files s fp; Some (set_file fp (f\<lparr>fpos := new_pos\<rparr>) s) }"

definition file_tell :: "nat \<Rightarrow> fs \<Rightarrow> int option" where
  "file_tell fp s = do { ASSERT (fp \<noteq> 0); f \<leftarrow> files s fp; Some (fpos f) }"

section \<open>The free map in its file\<close>

text \<open>The memory that \<^verbatim>\<open>bitmap_create\<close> gets for the bits is an argument.\<close>

definition free_map_init :: "u32 list \<Rightarrow> fs \<Rightarrow> fs option" where
  "free_map_init junk s =
     do {
       let (got_struct, s) = malloc_ok s;
       let (got_bits, s) = (if got_struct then malloc_ok s else (False, s));
       r \<leftarrow> bitmap_create got_struct (if got_bits then Some junk else None) (block_size (fs_device s));
       b \<leftarrow> r;
       b \<leftarrow> bitmap_mark b (unat FREE_MAP_SECTOR);
       b \<leftarrow> bitmap_mark b (unat ROOT_DIR_SECTOR);
       Some (s\<lparr>free_map := b\<rparr>)
     }"

definition free_map_open :: "nat \<Rightarrow> fs \<Rightarrow> fs option" where
  "free_map_open depth s =
     do {
       (ip, s) \<leftarrow> inode_open FREE_MAP_SECTOR s;
       (fp, s) \<leftarrow> file_open depth ip s;
       let s = s\<lparr>free_map_file := fp\<rparr>;
       ASSERT (fp \<noteq> 0);
       (ok, b, s) \<leftarrow> bitmap_read (free_map s) fp s;
       ASSERT ok;
       Some (s\<lparr>free_map := b\<rparr>)
     }"

definition free_map_close :: "nat \<Rightarrow> fs \<Rightarrow> fs option" where
  "free_map_close depth s = file_close depth (free_map_file s) s"

definition free_map_create :: "nat \<Rightarrow> fs \<Rightarrow> fs option" where
  "free_map_create depth s =
     do {
       (ok, s) \<leftarrow> inode_create depth FREE_MAP_SECTOR (int (bitmap_file_size (free_map s))) False s;
       ASSERT ok;
       (ip, s) \<leftarrow> inode_open FREE_MAP_SECTOR s;
       (fp, s) \<leftarrow> file_open depth ip s;
       let s = s\<lparr>free_map_file := fp\<rparr>;
       ASSERT (fp \<noteq> 0);
       (ok, s) \<leftarrow> bitmap_write depth (free_map s) fp s;
       ASSERT ok;
       Some s
     }"

end
