(* ===== verification/Kdir.thy ===== *)
theory Kdir
  imports Kfile
begin

text \<open>
  Directories: \<^verbatim>\<open>filesys/directory.c\<close>. A directory entry is a structure of twenty bytes in the
  file of the directory: the sector of the inode, fifteen bytes for the name with its null byte,
  and whether the entry is in use. Names are given as the bytes before the null byte; comparing
  and copying them with \<^verbatim>\<open>strcmp\<close> and \<^verbatim>\<open>strlcpy\<close> is comparing and copying these bytes.
\<close>

section \<open>Entries\<close>

definition NAME_MAX :: nat where
  "NAME_MAX = 14"

definition ENTRY_SIZE :: nat where
  "ENTRY_SIZE = 4 + (NAME_MAX + 1) + 1"

type_synonym dir_entry = "u8 list"

definition e_sector :: "dir_entry \<Rightarrow> u32" where
  "e_sector e = hd (words_of (take 4 e))"

definition e_in_use :: "dir_entry \<Rightarrow> bool" where
  "e_in_use e \<longleftrightarrow> e ! (ENTRY_SIZE - 1) \<noteq> 0"

text \<open>A C string read from the name on.\<close>

definition e_name :: "dir_entry \<Rightarrow> u8 list" where
  "e_name e = takeWhile (\<lambda>c. c \<noteq> 0) (drop 4 e)"

definition set_in_use :: "bool \<Rightarrow> dir_entry \<Rightarrow> dir_entry" where
  "set_in_use b e = e[ENTRY_SIZE - 1 := (if b then 1 else 0)]"

definition set_sector :: "u32 \<Rightarrow> dir_entry \<Rightarrow> dir_entry" where
  "set_sector w e = word_bytes w @ drop 4 e"

text \<open>\<^verbatim>\<open>strlcpy (e.name, name, sizeof e.name)\<close>: the bytes after the null byte stay.\<close>

definition set_name :: "u8 list \<Rightarrow> dir_entry \<Rightarrow> dir_entry" where
  "set_name name e = (let n = take NAME_MAX name @ [0] in take 4 e @ n @ drop (4 + length n) e)"

section \<open>Directories\<close>

definition set_dir :: "nat \<Rightarrow> dir \<Rightarrow> fs \<Rightarrow> fs" where
  "set_dir dp d s = s\<lparr>dirs := (dirs s)(dp \<mapsto> d)\<rparr>"

definition dir_create :: "nat \<Rightarrow> u32 \<Rightarrow> nat \<Rightarrow> fs \<Rightarrow> (bool \<times> fs) option" where
  "dir_create depth sector entry_cnt s = inode_create depth sector (off_wrap (int (entry_cnt * ENTRY_SIZE))) True s"

definition dir_open :: "nat \<Rightarrow> nat \<Rightarrow> fs \<Rightarrow> (nat \<times> fs) option" where
  "dir_open depth ip s =
     do {
       let (dp, s) = malloc s;
       if ip \<noteq> 0 \<and> dp \<noteq> 0
       then Some (dp, set_dir dp \<lparr>dinode = ip, dpos = 0\<rparr> s)
       else do { s \<leftarrow> inode_close depth ip s; Some (0, s) }
     }"

definition dir_open_root :: "nat \<Rightarrow> fs \<Rightarrow> (nat \<times> fs) option" where
  "dir_open_root depth s = do { (ip, s) \<leftarrow> inode_open ROOT_DIR_SECTOR s; dir_open depth ip s }"

definition dir_reopen :: "nat \<Rightarrow> nat \<Rightarrow> fs \<Rightarrow> (nat \<times> fs) option" where
  "dir_reopen depth dp s = do { d \<leftarrow> dirs s dp; (ip, s) \<leftarrow> inode_reopen (dinode d) s; dir_open depth ip s }"

definition dir_close :: "nat \<Rightarrow> nat \<Rightarrow> fs \<Rightarrow> fs option" where
  "dir_close depth dp s =
     (if dp \<noteq> 0
      then do {
        d \<leftarrow> dirs s dp;
        s \<leftarrow> inode_close depth (dinode d) s;
        Some (s\<lparr>dirs := (dirs s)(dp := None)\<rparr>)
      }
      else Some s)"

definition dir_get_inode :: "nat \<Rightarrow> fs \<Rightarrow> nat option" where
  "dir_get_inode dp s = do { d \<leftarrow> dirs s dp; Some (dinode d) }"

text \<open>
  The loops that read entry after entry stop at the first short read. They may run over the whole
  file, whose size is not bounded here, so they are partial functions.
\<close>

partial_function (option) lookup_loop :: "nat \<Rightarrow> u8 list \<Rightarrow> int \<Rightarrow> fs \<Rightarrow> ((dir_entry \<times> int) option \<times> fs) option" where
  "lookup_loop ip name ofs s =
     do {
       (e, s) \<leftarrow> inode_read_at ip (int ENTRY_SIZE) ofs s;
       if length e = ENTRY_SIZE
       then (if e_in_use e \<and> name = e_name e then Some (Some (e, ofs), s)
             else lookup_loop ip name (ofs + int ENTRY_SIZE) s)
       else Some (None, s)
     }"

definition lookup :: "nat \<Rightarrow> u8 list \<Rightarrow> fs \<Rightarrow> ((dir_entry \<times> int) option \<times> fs) option" where
  "lookup dp name s =
     do { ASSERT (dp \<noteq> 0); d \<leftarrow> dirs s dp; lookup_loop (dinode d) name 0 s }"

definition dir_lookup :: "nat \<Rightarrow> u8 list \<Rightarrow> fs \<Rightarrow> (nat \<times> fs) option" where
  "dir_lookup dp name s =
     do {
       ASSERT (dp \<noteq> 0);
       (r, s) \<leftarrow> lookup dp name s;
       case r of
         Some (e, ofs) \<Rightarrow> inode_open (e_sector e) s
       | None \<Rightarrow> Some (0, s)
     }"

text \<open>The search for a free slot keeps what it has read last; a short read changes only the first bytes.\<close>

partial_function (option) free_slot :: "nat \<Rightarrow> dir_entry \<Rightarrow> int \<Rightarrow> fs \<Rightarrow> (dir_entry \<times> int \<times> fs) option" where
  "free_slot ip e ofs s =
     do {
       (bs, s) \<leftarrow> inode_read_at ip (int ENTRY_SIZE) ofs s;
       let e = bs @ drop (length bs) e;
       if length bs = ENTRY_SIZE \<and> e_in_use e then free_slot ip e (ofs + int ENTRY_SIZE) s
       else Some (e, ofs, s)
     }"

text \<open>The entry that \<^verbatim>\<open>dir_add\<close> declares is not initialised; its bytes are an argument.\<close>

definition dir_add :: "nat \<Rightarrow> dir_entry \<Rightarrow> nat \<Rightarrow> u8 list \<Rightarrow> u32 \<Rightarrow> fs \<Rightarrow> (bool \<times> fs) option" where
  "dir_add depth junk dp name inode_sec s =
     do {
       ASSERT (dp \<noteq> 0);
       ip \<leftarrow> dir_get_inode dp s;
       s \<leftarrow> inode_lock_acquire ip s;
       (success, s) \<leftarrow> (if name = [] \<or> length name > NAME_MAX then Some (False, s)
          else do {
            (r, s) \<leftarrow> lookup dp name s;
            if r \<noteq> None then Some (False, s)
            else do {
              (e, ofs, s) \<leftarrow> free_slot ip junk 0 s;
              let e = set_sector inode_sec (set_name name (set_in_use True e));
              (n, s) \<leftarrow> inode_write_at depth ip e (int ENTRY_SIZE) ofs s;
              Some (n = int ENTRY_SIZE, s)
            }
          });
       s \<leftarrow> inode_lock_release ip s;
       Some (success, s)
     }"

partial_function (option) dir_empty_loop :: "nat \<Rightarrow> int \<Rightarrow> fs \<Rightarrow> (bool \<times> fs) option" where
  "dir_empty_loop ip ofs s =
     do {
       (e, s) \<leftarrow> inode_read_at ip (int ENTRY_SIZE) ofs s;
       if length e = ENTRY_SIZE
       then (if e_in_use e then Some (False, s) else dir_empty_loop ip (ofs + int ENTRY_SIZE) s)
       else Some (True, s)
     }"

definition dir_remove :: "nat \<Rightarrow> nat \<Rightarrow> u8 list \<Rightarrow> fs \<Rightarrow> (bool \<times> fs) option" where
  "dir_remove depth dp name s =
     do {
       ASSERT (dp \<noteq> 0);
       dip \<leftarrow> dir_get_inode dp s;
       s \<leftarrow> inode_lock_acquire dip s;
       (r, s) \<leftarrow> lookup dp name s;
       (success, ip, s) \<leftarrow> (case r of
           None \<Rightarrow> Some (False, 0, s)
         | Some (e, ofs) \<Rightarrow>
             do {
               (ip, s) \<leftarrow> inode_open (e_sector e) s;
               if ip = 0 then Some (False, ip, s)
               else do {
                 i \<leftarrow> inodes s ip;
                 (ok, s) \<leftarrow> (if inode_isdir i
                    then (if inode_is_open i then Some (False, s)
                          else do { (dp', s) \<leftarrow> dir_open depth ip s; dir_empty_loop ip (2 * int ENTRY_SIZE) s })
                    else Some (True, s));
                 if \<not> ok then Some (False, ip, s)
                 else do {
                   (n, s) \<leftarrow> inode_write_at depth dip (set_in_use False e) (int ENTRY_SIZE) ofs s;
                   if n \<noteq> int ENTRY_SIZE then Some (False, ip, s)
                   else do { s \<leftarrow> inode_remove ip s; Some (True, ip, s) }
                 }
               }
             });
       s \<leftarrow> inode_close depth ip s;
       s \<leftarrow> inode_lock_release dip s;
       Some (success, s)
     }"

partial_function (option) readdir_loop :: "nat \<Rightarrow> nat \<Rightarrow> fs \<Rightarrow> (u8 list option \<times> fs) option" where
  "readdir_loop ip dp s =
     do {
       d \<leftarrow> dirs s dp;
       (e, s) \<leftarrow> inode_read_at ip (int ENTRY_SIZE) (dpos d) s;
       if length e = ENTRY_SIZE
       then do {
         let s = set_dir dp (d\<lparr>dpos := dpos d + int ENTRY_SIZE\<rparr>) s;
         if e_in_use e then Some (Some (take NAME_MAX (e_name e)), s) else readdir_loop ip dp s
       }
       else Some (None, s)
     }"

definition dir_readdir :: "nat \<Rightarrow> fs \<Rightarrow> (u8 list option \<times> fs) option" where
  "dir_readdir dp s =
     do {
       ip \<leftarrow> dir_get_inode dp s;
       s \<leftarrow> inode_lock_acquire ip s;
       (r, s) \<leftarrow> readdir_loop ip dp s;
       s \<leftarrow> inode_lock_release ip s;
       Some (r, s)
     }"

end
