(* ===== verification/Kfilesys.thy ===== *)
theory Kfilesys
  imports Kdir Kstring_Spec
begin

text \<open>
  Path names and the file system calls: \<^verbatim>\<open>get_dir\<close> of \<^verbatim>\<open>filesys/directory.c\<close> and
  \<^verbatim>\<open>filesys/filesys.c\<close>. A path is the bytes before its null byte; the components that
  \<^verbatim>\<open>strtok_r\<close> finds in it are its \<open>tokens\<close> for the slash. The working directory of the thread is
  an argument, the null pointer if it has none.
\<close>

definition SLASH :: u8 where
  "SLASH = 47"

fun traverse :: "nat \<Rightarrow> nat \<Rightarrow> u8 list list \<Rightarrow> fs \<Rightarrow> (nat \<times> fs) option" where
  "traverse depth cur_dir [] s = Some (cur_dir, s)"
| "traverse depth cur_dir (token # ts) s =
     do {
       (ip, s) \<leftarrow> dir_lookup cur_dir token s;
       if ip = 0 then do { s \<leftarrow> dir_close depth cur_dir s; Some (0, s) }
       else do {
         (sub_dir, s) \<leftarrow> dir_open depth ip s;
         s \<leftarrow> dir_close depth cur_dir s;
         if sub_dir = 0 then Some (0, s) else traverse depth sub_dir ts s
       }
     }"

definition get_dir :: "nat \<Rightarrow> nat \<Rightarrow> u8 list \<Rightarrow> fs \<Rightarrow> (nat \<times> fs) option" where
  "get_dir depth cwd path s =
     do {
       (cur_dir, s) \<leftarrow> (if path \<noteq> [] \<and> hd path = SLASH then dir_open_root depth s
          else if cwd = 0 then dir_open_root depth s
          else dir_reopen depth cwd s);
       (cur_dir, s) \<leftarrow> traverse depth cur_dir (tokens {SLASH} path) s;
       if cur_dir = 0 \<and> tokens {SLASH} path \<noteq> [] then Some (0, s)
       else do {
         ip \<leftarrow> dir_get_inode cur_dir s;
         gone \<leftarrow> inode_is_removed ip s;
         if gone then do { s \<leftarrow> dir_close depth cur_dir s; Some (0, s) } else Some (cur_dir, s)
       }
     }"

text \<open>The two blocks that \<^verbatim>\<open>get_name\<close> allocates are used without a check.\<close>

definition get_name :: "u8 list \<Rightarrow> fs \<Rightarrow> (u8 list \<times> fs) option" where
  "get_name path s =
     do {
       let (ok, s) = malloc_ok s;
       ASSERT ok;
       let prev_token = last ([] # tokens {SLASH} path);
       let (ok, s) = malloc_ok s;
       ASSERT ok;
       Some (prev_token, s)
     }"

definition dir_path :: "u8 list \<Rightarrow> u8 list \<Rightarrow> fs \<Rightarrow> (u8 list \<times> fs) option" where
  "dir_path path file_name s =
     do { let (ok, s) = malloc_ok s; ASSERT ok; Some (take (length path - length file_name) path, s) }"

definition filesys_chdir :: "nat \<Rightarrow> nat \<Rightarrow> u8 list \<Rightarrow> fs \<Rightarrow> (bool \<times> nat \<times> fs) option" where
  "filesys_chdir depth cwd path s =
     do {
       (dp, s) \<leftarrow> get_dir depth cwd path s;
       if dp = 0 then Some (False, cwd, s)
       else do { s \<leftarrow> dir_close depth cwd s; Some (True, dp, s) }
     }"

text \<open>The bytes that the uninitialised directory entries of \<^verbatim>\<open>dir_add\<close> find on the stack are the argument \<open>junk\<close>.\<close>

definition filesys_create :: "nat \<Rightarrow> dir_entry \<Rightarrow> nat \<Rightarrow> u8 list \<Rightarrow> int \<Rightarrow> bool \<Rightarrow> fs \<Rightarrow> (bool \<times> fs) option" where
  "filesys_create depth junk cwd path initial_size dir s =
     do {
       (file_name, s) \<leftarrow> get_name path s;
       (dpath, s) \<leftarrow> dir_path path file_name s;
       (parent, s) \<leftarrow> get_dir depth cwd dpath s;
       (success, inode_sec, s) \<leftarrow> (if parent = 0 then Some (False, 0, s)
          else do {
            (r, s) \<leftarrow> free_map_allocate (write_free_map depth) 1 s;
            case r of
              None \<Rightarrow> Some (False, 0, s)
            | Some sector \<Rightarrow>
                do {
                  (ok, s) \<leftarrow> inode_create depth sector initial_size dir s;
                  if \<not> ok then Some (False, sector, s)
                  else do { (ok, s) \<leftarrow> dir_add depth junk parent file_name sector s; Some (ok, sector, s) }
                }
          });
       s \<leftarrow> (if success \<and> dir
          then do {
            (ip, s) \<leftarrow> inode_open inode_sec s;
            (child, s) \<leftarrow> dir_open depth ip s;
            (ok, s) \<leftarrow> dir_add depth junk child [46] inode_sec s;
            ASSERT ok;
            pip \<leftarrow> dir_get_inode parent s;
            pi \<leftarrow> inodes s pip;
            (ok, s) \<leftarrow> dir_add depth junk child [46, 46] (inode_get_inumber pi) s;
            ASSERT ok;
            s \<leftarrow> dir_close depth child s;
            inode_close depth ip s
          }
          else Some s);
       s \<leftarrow> (if \<not> success \<and> inode_sec \<noteq> 0 then free_map_release (write_free_map depth) inode_sec 1 s else Some s);
       s \<leftarrow> dir_close depth parent s;
       Some (success, s)
     }"

definition filesys_open :: "nat \<Rightarrow> nat \<Rightarrow> u8 list \<Rightarrow> fs \<Rightarrow> (nat \<times> fs) option" where
  "filesys_open depth cwd path s =
     do {
       (file_name, s) \<leftarrow> get_name path s;
       (dpath, s) \<leftarrow> dir_path path file_name s;
       (dp, s) \<leftarrow> get_dir depth cwd dpath s;
       if dp = 0 then Some (0, s)
       else do {
         (ip, s) \<leftarrow> (if file_name = [] then do { ip \<leftarrow> dir_get_inode dp s; Some (ip, s) }
            else do { (ip, s) \<leftarrow> dir_lookup dp file_name s; s \<leftarrow> dir_close depth dp s; Some (ip, s) });
         if ip = 0 then Some (0, s)
         else do {
           gone \<leftarrow> inode_is_removed ip s;
           if gone then Some (0, s) else file_open depth ip s
         }
       }
     }"

definition filesys_remove :: "nat \<Rightarrow> nat \<Rightarrow> u8 list \<Rightarrow> fs \<Rightarrow> (bool \<times> fs) option" where
  "filesys_remove depth cwd path s =
     do {
       (file_name, s) \<leftarrow> get_name path s;
       (dpath, s) \<leftarrow> dir_path path file_name s;
       (dp, s) \<leftarrow> get_dir depth cwd dpath s;
       (success, s) \<leftarrow> (if dp \<noteq> 0 then dir_remove depth dp file_name s else Some (False, s));
       s \<leftarrow> dir_close depth dp s;
       Some (success, s)
     }"

definition do_format :: "nat \<Rightarrow> dir_entry \<Rightarrow> fs \<Rightarrow> fs option" where
  "do_format depth junk s =
     do {
       s \<leftarrow> free_map_create depth s;
       (ok, s) \<leftarrow> dir_create depth ROOT_DIR_SECTOR 16 s;
       ASSERT ok;
       (dp, s) \<leftarrow> dir_open_root depth s;
       (ok, s) \<leftarrow> dir_add depth junk dp [46] ROOT_DIR_SECTOR s;
       ASSERT ok;
       (ok, s) \<leftarrow> dir_add depth junk dp [46, 46] ROOT_DIR_SECTOR s;
       ASSERT ok;
       s \<leftarrow> dir_close depth dp s;
       free_map_close depth s
     }"

definition filesys_init :: "nat \<Rightarrow> u32 list \<Rightarrow> dir_entry \<Rightarrow> bool \<Rightarrow> fs \<Rightarrow> fs option" where
  "filesys_init depth map_junk junk format s =
     do {
       let s = inode_init s;
       s \<leftarrow> free_map_init map_junk s;
       s \<leftarrow> (if format then do_format depth junk s else Some s);
       free_map_open depth s
     }"

definition filesys_done :: "nat \<Rightarrow> fs \<Rightarrow> fs option" where
  "filesys_done depth s = free_map_close depth s"

end
