(* ===== verification/Kinode_Read.thy ===== *)
theory Kinode_Read
  imports Kinode
begin

text \<open>
  Where the blocks of a file are on the device, and that reading a file gives its bytes: the
  contents of a file is one list of bytes, however the blocks are reached.
\<close>

section \<open>Arithmetic of offsets\<close>

lemma sizes [simp]: "BLOCK_SECTOR_SIZE = 512" "DIRECT_NUM = 10" "BLOCKS_IN_INDIRECT = 128"
  by (simp_all add: BLOCK_SECTOR_SIZE_def DIRECT_NUM_def BLOCKS_IN_INDIRECT_def)

lemma sdiv_nat: "int p sdiv int q = int (p div q)"
  by (cases "p = 0"; cases "q = 0") (simp_all add: signed_divide_int_def zdiv_int)

lemma smod_nat: "int p smod int q = int (p mod q)"
  by (cases "p = 0") (simp_all add: signed_modulo_int_def signed_divide_int_def sgn_if zmod_int zdiv_int minus_div_mult_eq_mod [symmetric])

lemma to_size_nat: "p < 2 ^ 32 \<Longrightarrow> to_size (int p) = p"
  by (simp add: to_size_def)

lemma off_wrap_small: "- (2 ^ 31) \<le> x \<Longrightarrow> x < 2 ^ 31 \<Longrightarrow> off_wrap x = x"
  by (simp add: off_wrap_def)

lemma bytes_to_sectors_nat:
  assumes "p < 2 ^ 31 - 512"
  shows "bytes_to_sectors (int p) = (p + 511) div 512"
proof -
  have "off_wrap (int p + int BLOCK_SECTOR_SIZE - 1) = int (p + 511)" using assms by (subst off_wrap_small) auto
  moreover have "(p + 511) div 512 < 2 ^ 32" using assms by simp
  ultimately show ?thesis unfolding bytes_to_sectors_def by (simp only: sizes sdiv_nat to_size_nat)
qed

section \<open>Blocks of a file\<close>

text \<open>The number of the block with the given index, and the blocks that hold such numbers.\<close>

definition blk :: "u8 list list \<Rightarrow> u32 \<Rightarrow> u32 list" where
  "blk D w = words_of (D ! unat w)"

definition block_no :: "u8 list list \<Rightarrow> inode_disk \<Rightarrow> nat \<Rightarrow> u32" where
  "block_no D d k =
     (if k < 10 then direct_blocks d ! k
      else if k < 138 then blk D (indirect_block d) ! (k - 10)
      else blk D (blk D (double_indirect_block d) ! ((k - 138) div 128)) ! ((k - 138) mod 128))"

definition dev_ok :: "fs \<Rightarrow> bool" where
  "dev_ok s \<longleftrightarrow> btype (fs_device s) \<noteq> BLOCK_FOREIGN \<and> (\<forall>b\<in>set (sectors (fs_device s)). length b = 512) \<and>
     0 < length (sectors (fs_device s)) \<and> length (sectors (fs_device s)) \<le> 2 ^ 32 - 32"

text \<open>A file of \<open>n\<close> blocks: every number that is read to reach one of them, or the end of the last, is on the device.\<close>

definition lay_ok :: "u8 list list \<Rightarrow> inode_disk \<Rightarrow> nat \<Rightarrow> bool" where
  "lay_ok D d n \<longleftrightarrow> length (direct_blocks d) = 10 \<and> n \<le> 16521 \<and>
     unat (indirect_block d) < length D \<and> unat (double_indirect_block d) < length D \<and>
     (138 \<le> n \<longrightarrow> (\<forall>j\<le>(n - 138) div 128. unat (blk D (double_indirect_block d) ! j) < length D)) \<and>
     (\<forall>k<n. unat (block_no D d k) < length D)"

definition contents :: "u8 list list \<Rightarrow> inode_disk \<Rightarrow> nat \<Rightarrow> u8 list" where
  "contents D d n = concat (map (\<lambda>k. D ! unat (block_no D d k)) [0..<n])"

abbreviation devs :: "fs \<Rightarrow> u8 list list" where
  "devs s \<equiv> sectors (fs_device s)"

lemma fs_read_ok: "unat w < length (devs s) \<Longrightarrow> fs_read w s = Some (devs s ! unat w)"
  by (simp add: fs_read_def block_size_def)

lemma dev_length: "dev_ok s \<Longrightarrow> k < length (devs s) \<Longrightarrow> length (devs s ! k) = 512"
  by (simp add: dev_ok_def)

lemma blk_length: "dev_ok s \<Longrightarrow> unat w < length (devs s) \<Longrightarrow> length (blk (devs s) w) = 128"
  by (simp add: blk_def dev_length)

lemma byte_to_sector_ok:
  assumes dev: "dev_ok s" and lay: "lay_ok (devs s) (data i) n" and p: "int p \<le> dlength (data i)" "p div 512 \<le> n"
  shows "\<exists>w. byte_to_sector i (int p) s = Some w \<and> (p div 512 < n \<longrightarrow> w = block_no (devs s) (data i) (p div 512))"
proof -
  let ?D = "devs s" and ?d = "data i" and ?k = "p div 512"
  have L: "length (direct_blocks ?d) = 10" "n \<le> 16521" "unat (indirect_block ?d) < length ?D" "unat (double_indirect_block ?d) < length ?D"
    using lay by (auto simp: lay_ok_def)
  have k: "to_size (int p sdiv int 512) = ?k" using p(2) L(2) by (simp only: sdiv_nat) (simp add: to_size_nat)
  consider "?k < 10" | "10 \<le> ?k" "?k < 138" | "138 \<le> ?k" by linarith
  then show ?thesis
  proof cases
    case 1
    then show ?thesis using p(1) k L by (simp add: byte_to_sector_def Let_def block_no_def)
  next
    case 2
    then show ?thesis using p(1) k L blk_length [OF dev L(3)] by (simp add: byte_to_sector_def Let_def fs_read_ok block_no_def blk_def)
  next
    case 3
    define j where "j = (?k - 138) div 128"
    have j: "j < 128" "j \<le> (n - 138) div 128" "138 \<le> n" using 3 p(2) L(2) by (auto simp: j_def intro: div_le_mono)
    then have b: "unat (blk ?D (double_indirect_block ?d) ! j) < length ?D" using lay by (auto simp: lay_ok_def)
    show ?thesis
      using 3 p(1) k L j(1) b blk_length [OF dev L(4)] blk_length [OF dev b]
      by (simp add: byte_to_sector_def Let_def fs_read_ok block_no_def blk_def flip: j_def)
  qed
qed

section \<open>Reading\<close>

lemma concat_blocks:
  assumes "\<And>k. k < n \<Longrightarrow> length (f k) = 512" and "k < n" and "ofs + m \<le> 512"
  shows "take m (drop (512 * k + ofs) (concat (map f [0..<n]))) = take m (drop ofs (f k))"
proof -
  have len: "length (concat (map f [0..<j])) = 512 * j" if "j \<le> n" for j
    using that assms(1) by (induction j) simp_all
  have "[0..<n] = [0..<k] @ k # [Suc k..<n]" 
    using assms(2) upt_add_eq_append [of 0 k "n - k"] upt_conv_Cons [of k n] by simp
  then have "concat (map f [0..<n]) = concat (map f [0..<k]) @ f k @ concat (map f [Suc k..<n])" by simp
  then show ?thesis using len [of k] assms by simp
qed

lemma contents_length: "dev_ok s \<Longrightarrow> lay_ok (devs s) d n \<Longrightarrow> length (contents (devs s) d n) = 512 * n"
proof -
  assume a: "dev_ok s" "lay_ok (devs s) d n"
  have "length (concat (map (\<lambda>k. devs s ! unat (block_no (devs s) d k)) [0..<m])) = 512 * m" if "m \<le> n" for m
    using that a by (induction m) (simp_all add: lay_ok_def dev_length)
  then show ?thesis by (simp add: contents_def)
qed

lemma contents_chunk:
  assumes "dev_ok s" and "lay_ok (devs s) d n" and "p div 512 < n" and "p mod 512 + m \<le> 512"
  shows "take m (drop p (contents (devs s) d n)) = take m (drop (p mod 512) (devs s ! unat (block_no (devs s) d (p div 512))))"
proof -
  have "length (devs s ! unat (block_no (devs s) d k)) = 512" if "k < n" for k
    using assms that by (simp add: lay_ok_def dev_length)
  then show ?thesis
    using concat_blocks [of n "\<lambda>k. devs s ! unat (block_no (devs s) d k)" "p div 512" "p mod 512" m] assms(3,4) by (simp add: contents_def)
qed

lemma take_split: "c \<le> m \<Longrightarrow> take m xs = take c xs @ take (m - c) (drop c xs)"
  by (metis le_add_diff_inverse take_add)

lemma read_loop_ok:
  assumes dev: "dev_ok s" and lay: "lay_ok (devs s) (data i) n" and mem: "mallocs s = []"
    and E: "eof (data i) = int E" "int E \<le> dlength (data i)" "dlength (data i) \<le> int (512 * n)"
  shows "read_loop i (int m) (int p) b s = Some (take m (drop p (take E (contents (devs s) (data i) n))), s)"
proof (induction m arbitrary: p b rule: less_induct)
  case (less m)
  let ?X = "take E (contents (devs s) (data i) n)"
  have mal: "malloc_ok s = (True, s)" using mem by (simp add: malloc_ok_def)
  show ?case
  proof (cases "m = 0")
    case True
    then show ?thesis by (simp add: read_loop.simps)
  next
    case False
    have lenX: "length ?X \<le> E" by simp
    have ofs: "int p smod int 512 = int (p mod 512)" by (rule smod_nat)
    show ?thesis
    proof (cases "p < E")
      case False
      have "\<exists>w. byte_to_sector i (int p) s = Some w"
      proof (cases "int p \<le> dlength (data i)")
        case True
        then have "p \<le> 512 * n" using E by linarith
        then have "p div 512 \<le> n" using div_le_mono [of p "512 * n" 512] by simp
        from byte_to_sector_ok [OF dev lay True this] show ?thesis by blast
      qed (simp add: byte_to_sector_def)
      then show ?thesis using False E ofs lenX by (auto simp: read_loop.simps [of i "int m"] Let_def)
    next
      case True
      have "p < n * 512" and pd: "int p \<le> dlength (data i)" using True E by linarith+
      then have pn: "p div 512 < n" "int p \<le> dlength (data i)" by (simp_all add: less_mult_imp_div_less)
      obtain w where w: "byte_to_sector i (int p) s = Some w" "w = block_no (devs s) (data i) (p div 512)"
        using byte_to_sector_ok [OF dev lay pn(2)] pn(1) by auto
      define c where "c = min m (min (E - p) (512 - p mod 512))"
      have c: "0 < c" "c \<le> m" "p + c \<le> E" "p mod 512 + c \<le> 512" using \<open>m \<noteq> 0\<close> True by (auto simp: c_def)
      have ww: "unat w < length (devs s)" using lay pn(1) w(2) by (simp add: lay_ok_def)
      have "min_left = int (min (E - p) (512 - p mod 512))" if "min_left = (if int E - int p < 512 - int (p mod 512) then int E - int p else 512 - int (p mod 512))" for min_left
        using that True by (auto simp: min_def of_nat_diff)
      then have ch: "(if int m < (if int E - int p < 512 - int (p mod 512) then int E - int p else 512 - int (p mod 512)) then int m
          else (if int E - int p < 512 - int (p mod 512) then int E - int p else 512 - int (p mod 512))) = int c"
        using True by (auto simp: c_def min_def of_nat_diff)
      have ih: "read_loop i (int m - int c) (int p + int c) b' s = Some (take (m - c) (drop (p + c) ?X), s)" for b'
        using less [of "m - c" "p + c" b'] c by (simp add: of_nat_diff)
      have "take c (drop p ?X) = take c (drop p (contents (devs s) (data i) n))" using c by (simp add: drop_take min_def)
      also have "\<dots> = take c (drop (p mod 512) (devs s ! unat w))" using contents_chunk [OF dev lay pn(1) c(4)] w(2) by simp
      finally have head: "take c (drop p ?X) = take c (drop (p mod 512) (devs s ! unat w))" .
      have res: "take m (drop p ?X) = take c (drop (p mod 512) (devs s ! unat w)) @ take (m - c) (drop (p + c) ?X)"
        using take_split [OF c(2), of "drop p ?X"] head by (simp add: add.commute)
      have full: "take c (drop (p mod 512) (devs s ! unat w)) = devs s ! unat w" if "p mod 512 = 0" "c = 512"
        using that dev_length [OF dev ww] by simp
      show ?thesis
      proof (cases "p mod 512 = 0 \<and> c = 512")
        case True
        then show ?thesis
          unfolding read_loop.simps [of i "int m"] res
          using \<open>m \<noteq> 0\<close> w(1) ofs ch ih [of b] c fs_read_ok [OF ww] full E(1) by (simp add: Let_def)
      next
        case False
        then show ?thesis
          unfolding read_loop.simps [of i "int m"] res
          using \<open>m \<noteq> 0\<close> w(1) ofs ch ih [of True] c fs_read_ok [OF ww] mal E(1) by (auto simp: Let_def)
      qed
    qed
  qed
qed

lemma inode_read_at_ok:
  assumes "inodes s ip = Some i" and "dev_ok s" and "lay_ok (devs s) (data i) n" and "mallocs s = []"
    and "eof (data i) = int E" "int E \<le> dlength (data i)" "dlength (data i) \<le> int (512 * n)"
  shows "inode_read_at ip (int m) (int p) s = Some (take m (drop p (take E (contents (devs s) (data i) n))), s)"
  using read_loop_ok [OF assms(2-7)] assms(1) by (simp add: inode_read_at_def)

end
