(* ===== verification/Kinode_Write.thy ===== *)
theory Kinode_Write
  imports Kinode_Read
begin

text \<open>
  Writing inside a file: the bytes of the file change as an array would, and nothing outside the
  blocks of the file and the sector of its inode changes.
\<close>

section \<open>The sector of an inode\<close>

definition disk_ok :: "inode_disk \<Rightarrow> bool" where
  "disk_ok d \<longleftrightarrow> length (direct_blocks d) = 10 \<and> length (unused d) = 112 \<and>
     0 \<le> eof d \<and> eof d < 2 ^ 31 \<and> 0 \<le> dlength d \<and> dlength d < 2 ^ 31"

lemma sint_word_of_int: "0 \<le> x \<Longrightarrow> x < 2 ^ 31 \<Longrightarrow> sint (word_of_int x :: u32) = x"
  by (simp add: sint_sbintrunc' signed_take_bit_int_eq_self)

lemma sector_inode_inverse: "disk_ok d \<Longrightarrow> sector_inode (inode_sector d) = d"
  by (cases d) (auto simp: disk_ok_def sector_inode_def inode_sector_def words_disk_def disk_words_def nth_append
      sint_word_of_int numeral_eq_Suc)

lemma inode_sector_length: "disk_ok d \<Longrightarrow> length (inode_sector d) = 512"
  by (simp add: disk_ok_def inode_sector_def disk_words_def)

section \<open>Blocks that hold block numbers\<close>

definition level2 :: "nat \<Rightarrow> nat" where
  "level2 n = (n - 138 + 127) div 128"

definition metas :: "u8 list list \<Rightarrow> inode_disk \<Rightarrow> nat \<Rightarrow> nat set" where
  "metas D d n = (if 10 < n then {unat (indirect_block d)} else {}) \<union> (if 138 \<le> n then {unat (double_indirect_block d)} else {}) \<union>
     (\<lambda>j. unat (blk D (double_indirect_block d) ! j)) ` {..<level2 n}"

definition datas :: "u8 list list \<Rightarrow> inode_disk \<Rightarrow> nat \<Rightarrow> nat set" where
  "datas D d n = (\<lambda>k. unat (block_no D d k)) ` {..<n}"

definition sep :: "u8 list list \<Rightarrow> inode_disk \<Rightarrow> nat \<Rightarrow> bool" where
  "sep D d n \<longleftrightarrow> inj_on (\<lambda>k. unat (block_no D d k)) {..<n} \<and> datas D d n \<inter> metas D d n = {}"

definition agree :: "u8 list list \<Rightarrow> u8 list list \<Rightarrow> nat set \<Rightarrow> bool" where
  "agree D D' A \<longleftrightarrow> length D' = length D \<and> (\<forall>x\<in>A. D' ! x = D ! x)"

lemma agree_refl [simp]: "agree D D A"
  by (simp add: agree_def)

lemma agree_trans: "agree D D' A \<Longrightarrow> agree D' D'' A \<Longrightarrow> agree D D'' A"
  by (simp add: agree_def)

lemma agree_mono: "agree D D' A \<Longrightarrow> B \<subseteq> A \<Longrightarrow> agree D D' B"
  by (auto simp: agree_def)

lemma agree_upd: "x \<notin> A \<Longrightarrow> agree D (D[x := b]) A"
  by (auto simp: agree_def) (metis nth_list_update_neq)

lemma blk_agree: "agree D D' A \<Longrightarrow> unat w \<in> A \<Longrightarrow> blk D' w = blk D w"
  by (simp add: agree_def blk_def)

lemma level2_index: "138 \<le> k \<Longrightarrow> k < n \<Longrightarrow> (k - 138) div 128 < level2 n"
proof -
  assume "138 \<le> k" "k < n"
  then have "k - 138 + 128 \<le> n - 138 + 127" by simp
  then have "(k - 138 + 128) div 128 \<le> (n - 138 + 127) div 128" by (rule div_le_mono)
  then show ?thesis by (simp add: level2_def)
qed

lemma level2_0: "n < 138 \<Longrightarrow> level2 n = 0"
  by (simp add: level2_def)

lemma block_no_agree:
  assumes a: "agree D D' (metas D d n)" and k: "k < n"
  shows "block_no D' d k = block_no D d k"
proof -
  consider "k < 10" | "10 \<le> k" "k < 138" | "138 \<le> k" by linarith
  then show ?thesis
  proof cases
    case 2
    have "blk D' (indirect_block d) = blk D (indirect_block d)" by (rule blk_agree [OF a]) (use 2 k in \<open>simp add: metas_def\<close>)
    then show ?thesis using 2 by (simp add: block_no_def)
  next
    case 3
    have "blk D' (double_indirect_block d) = blk D (double_indirect_block d)" by (rule blk_agree [OF a]) (use 3 k in \<open>simp add: metas_def\<close>)
    moreover have "blk D' (blk D (double_indirect_block d) ! ((k - 138) div 128)) = blk D (blk D (double_indirect_block d) ! ((k - 138) div 128))"
      by (rule blk_agree [OF a]) (use level2_index [OF 3 k] in \<open>auto simp: metas_def\<close>)
    ultimately show ?thesis using 3 by (simp add: block_no_def)
  qed (simp add: block_no_def)
qed

lemma layout_agree:
  assumes a: "agree D D' (metas D d n)"
  shows "metas D' d n = metas D d n" and "datas D' d n = datas D d n" and "lay_ok D d n \<Longrightarrow> lay_ok D' d n" and "sep D d n \<Longrightarrow> sep D' d n"
proof -
  have dd: "blk D' (double_indirect_block d) = blk D (double_indirect_block d)" if "138 \<le> n"
    by (rule blk_agree [OF a]) (use that in \<open>simp add: metas_def\<close>)
  have len: "length D' = length D" using a by (simp add: agree_def)
  show m: "metas D' d n = metas D d n" using dd level2_0 [of n] by (cases "138 \<le> n") (simp_all add: metas_def)
  show t: "datas D' d n = datas D d n" using block_no_agree [OF a] by (simp add: datas_def)
  show "lay_ok D d n \<Longrightarrow> lay_ok D' d n" using block_no_agree [OF a] dd by (auto simp: lay_ok_def len)
  have "inj_on (\<lambda>k. unat (block_no D' d k)) {..<n} = inj_on (\<lambda>k. unat (block_no D d k)) {..<n}"
    by (rule inj_on_cong) (simp add: block_no_agree [OF a])
  then show "sep D d n \<Longrightarrow> sep D' d n" by (simp add: sep_def m t)
qed

lemma layout_same:
  assumes "direct_blocks d' = direct_blocks d" and "indirect_block d' = indirect_block d" and "double_indirect_block d' = double_indirect_block d"
  shows "metas D d' n = metas D d n" and "datas D d' n = datas D d n" and "lay_ok D d' n = lay_ok D d n" and "sep D d' n = sep D d n"
    and "contents D d' n = contents D d n"
proof -
  have b: "block_no D d' = block_no D d" by (rule ext) (simp add: block_no_def assms)
  show m: "metas D d' n = metas D d n" "datas D d' n = datas D d n" by (simp_all add: metas_def datas_def assms b)
  show "lay_ok D d' n = lay_ok D d n" "sep D d' n = sep D d n" "contents D d' n = contents D d n"
    by (simp_all add: lay_ok_def sep_def contents_def assms b m)
qed

lemma contents_agree:
  assumes "agree D D' (metas D d n \<union> datas D d n)"
  shows "contents D' d n = contents D d n"
proof -
  have "D' ! unat (block_no D' d k) = D ! unat (block_no D d k)" if "k < n" for k
    using block_no_agree [OF agree_mono [OF assms] that] assms that by (auto simp: agree_def datas_def)
  then show ?thesis unfolding contents_def by (intro arg_cong [of _ _ concat] map_cong) simp_all
qed

section \<open>Writing one block\<close>

definition overwrite :: "'a list \<Rightarrow> nat \<Rightarrow> 'a list \<Rightarrow> 'a list" where
  "overwrite xs p ys = take p xs @ ys @ drop (p + length ys) xs"

lemma length_overwrite [simp]: "p + length ys \<le> length xs \<Longrightarrow> length (overwrite xs p ys) = length xs"
  by (simp add: overwrite_def)

lemma overwrite_Nil [simp]: "overwrite xs p [] = xs"
  by (simp add: overwrite_def)

lemma drop_append_plus: "length xs = n \<Longrightarrow> drop (n + k) (xs @ ys) = drop k ys"
  by simp

lemma overwrite_overwrite:
  assumes "p + length ys + length zs \<le> length xs"
  shows "overwrite (overwrite xs p ys) (p + length ys) zs = overwrite xs p (ys @ zs)"
proof -
  have l: "length (take p xs @ ys) = p + length ys" using assms by simp
  have "overwrite (overwrite xs p ys) (p + length ys) zs = (take p xs @ ys) @ zs @ drop (length zs) (drop (p + length ys) xs)"
    unfolding overwrite_def append_assoc [symmetric] using l by (metis (no_types) append_assoc append_eq_conv_conj drop_append_plus)
  then show ?thesis by (simp add: overwrite_def add.assoc add.commute [of "length zs"])
qed

lemma concat_overwrite:
  assumes "\<And>k. k < n \<Longrightarrow> length (f k) = 512" and k: "k < n" and ofs: "ofs + length ys \<le> 512"
  shows "concat (map (f(k := overwrite (f k) ofs ys)) [0..<n]) = overwrite (concat (map f [0..<n])) (512 * k + ofs) ys"
proof -
  have len: "length (concat (map f [0..<j])) = 512 * j" if "j \<le> n" for j
    using that assms(1) by (induction j) simp_all
  have u: "[0..<n] = [0..<k] @ k # [Suc k..<n]" using k upt_add_eq_append [of 0 k "n - k"] upt_conv_Cons [of k n] by simp
  have "map (f(k := g)) [0..<k] = map f [0..<k]" "map (f(k := g)) [Suc k..<n] = map f [Suc k..<n]" for g by simp_all
  then show ?thesis unfolding u using len [of k] assms(1) [OF k] k ofs by (simp add: overwrite_def)
qed

lemma write_block:
  assumes dev: "\<forall>b\<in>set D. length b = 512" and lay: "lay_ok D d n" and sep: "sep D d n"
    and p: "p div 512 < n" "p mod 512 + length ys \<le> 512"
    and D': "D' = D[unat (block_no D d (p div 512)) := overwrite (D ! unat (block_no D d (p div 512))) (p mod 512) ys]"
  shows "agree D D' (- datas D d n)" and "contents D' d n = overwrite (contents D d n) p ys" and "\<forall>b\<in>set D'. length b = 512"
proof -
  let ?w = "unat (block_no D d (p div 512))"
  have w: "?w < length D" "?w \<in> datas D d n" using lay p(1) by (auto simp: lay_ok_def datas_def)
  show a: "agree D D' (- datas D d n)" unfolding D' by (rule agree_upd) (use w(2) in simp)
  have am: "agree D D' (metas D d n)" by (rule agree_mono [OF a]) (use sep in \<open>auto simp: sep_def\<close>)
  have len: "length (D ! unat (block_no D d k)) = 512" if "k < n" for k using dev lay that by (simp add: lay_ok_def)
  have "D' ! unat (block_no D' d k) = ((\<lambda>k. D ! unat (block_no D d k))(p div 512 := overwrite (D ! ?w) (p mod 512) ys)) k" if "k < n" for k
    using block_no_agree [OF am that] w(1) sep that p(1) unfolding D' by (auto simp: sep_def inj_on_def nth_list_update)
  then have "contents D' d n = concat (map ((\<lambda>k. D ! unat (block_no D d k))(p div 512 := overwrite (D ! ?w) (p mod 512) ys)) [0..<n])"
    unfolding contents_def by (intro arg_cong [of _ _ concat] map_cong) simp_all
  then show "contents D' d n = overwrite (contents D d n) p ys"
    using concat_overwrite [of n "\<lambda>k. D ! unat (block_no D d k)" "p div 512" "p mod 512" ys] len p by (simp add: contents_def)
  show "\<forall>b\<in>set D'. length b = 512"
    unfolding D' using dev len [OF p(1)] p(2) set_update_subset_insert [of D ?w] by fastforce
qed

section \<open>Writing inside a file\<close>

definition put_devs :: "u8 list list \<Rightarrow> fs \<Rightarrow> fs" where
  "put_devs D s = s\<lparr>fs_device := (fs_device s)\<lparr>sectors := D\<rparr>\<rparr>"

lemma put_devs_simps [simp]:
  "devs (put_devs D s) = D" "inodes (put_devs D s) = inodes s" "open_inodes (put_devs D s) = open_inodes s" "files (put_devs D s) = files s"
  "dirs (put_devs D s) = dirs s" "free_map (put_devs D s) = free_map s" "free_map_file (put_devs D s) = free_map_file s"
  "mallocs (put_devs D s) = mallocs s" "next_ptr (put_devs D s) = next_ptr s" "stack (put_devs D s) = stack s"
  "btype (fs_device (put_devs D s)) = btype (fs_device s)"
  "put_devs D (put_devs D' s) = put_devs D s" "put_devs (devs s) s = s"
  by (simp_all add: put_devs_def)

lemma put_devs_set_inode: "set_inode ip i (put_devs D s) = put_devs D (set_inode ip i s)"
  by (simp add: put_devs_def set_inode_def)

lemma dev_ok_put: "dev_ok s \<Longrightarrow> length D = length (devs s) \<Longrightarrow> \<forall>b\<in>set D. length b = 512 \<Longrightarrow> dev_ok (put_devs D s)"
  by (simp add: dev_ok_def)

lemma fs_write_ok:
  "dev_ok s \<Longrightarrow> unat w < length (devs s) \<Longrightarrow> fs_write w b s = Some (put_devs ((devs s)[unat w := b]) s)"
  by (simp add: fs_write_def dev_ok_def block_size_def put_devs_def)

text \<open>One round of the loop, with the size of the chunk.\<close>

lemma write_loop_step:
  assumes "0 < m" and "byte_to_sector i p s = Some w" and ofs: "p smod int BLOCK_SECTOR_SIZE = int k"
    and ch: "(if m < (if inode_length i - p < int BLOCK_SECTOR_SIZE - int k then inode_length i - p else int BLOCK_SECTOR_SIZE - int k) then m
      else (if inode_length i - p < int BLOCK_SECTOR_SIZE - int k then inode_length i - p else int BLOCK_SECTOR_SIZE - int k)) = int c"
    and "0 < c" and "chunk_of buffer (nat bw) c = Some ys" and "malloc_ok s = (True, s)"
  shows "write_loop i buffer m p bw b s =
    (if k = 0 \<and> c = 512
     then do { s \<leftarrow> fs_write w ys s; write_loop i buffer (m - int c) (p + int c) (bw + int c) b s }
     else do {
       B \<leftarrow> (if 0 < k \<or> int c < 512 - int k then fs_read w s else Some zeros);
       s \<leftarrow> fs_write w (take k B @ ys @ drop (k + c) B) s;
       write_loop i buffer (m - int c) (p + int c) (bw + int c) True s
     })"
proof -
  have "nat (int k + int c) = k + c" by simp
  then show ?thesis
    unfolding write_loop.simps [of i buffer m] Let_def ofs ch using assms(1,2,5-) by simp
qed

lemma write_loop_ok:
  assumes "dev_ok s" and "lay_ok (devs s) (data i) n" and "sep (devs s) (data i) n" and "mallocs s = []"
    and L: "dlength (data i) = int L" "L \<le> 512 * n" and "p + m \<le> L" and "bw + m \<le> length buffer"
  shows "\<exists>D'. write_loop i buffer (int m) (int p) (int bw) b s = Some (int (bw + m), put_devs D' s) \<and>
    agree (devs s) D' (- datas (devs s) (data i) n) \<and> (\<forall>b\<in>set D'. length b = 512) \<and>
    contents D' (data i) n = overwrite (contents (devs s) (data i) n) p (take m (drop bw buffer))"
  using assms(1-4,7-)
proof (induction m arbitrary: p bw b s rule: less_induct)
  case (less m)
  note dev = less.prems(1) and lay = less.prems(2) and se = less.prems(3)
  let ?D = "devs s" and ?d = "data i"
  show ?case
  proof (cases "m = 0")
    case True
    then show ?thesis using dev by (intro exI [of _ ?D]) (simp add: write_loop.simps dev_ok_def)
  next
    case False
    have ofs: "int p smod int 512 = int (p mod 512)" by (rule smod_nat)
    have "p < n * 512" and pd: "int p \<le> dlength ?d" using False less.prems(5) L by linarith+
    then have pn: "p div 512 < n" by (simp add: less_mult_imp_div_less)
    obtain w where w: "byte_to_sector i (int p) s = Some w" "w = block_no ?D ?d (p div 512)"
      using byte_to_sector_ok [OF dev lay pd] pn by auto
    have ww: "unat w < length ?D" using lay pn w(2) by (simp add: lay_ok_def)
    define c where "c = min m (512 - p mod 512)"
    have c: "0 < c" "c \<le> m" "p mod 512 + c \<le> 512" using False by (auto simp: c_def)
    have ch: "(if int m < (if int L - int p < 512 - int (p mod 512) then int L - int p else 512 - int (p mod 512)) then int m
        else (if int L - int p < 512 - int (p mod 512) then int L - int p else 512 - int (p mod 512))) = int c"
      using False less.prems(5) by (auto simp: c_def min_def of_nat_diff)
    define ys where "ys = take c (drop bw buffer)"
    have ly: "length ys = c" using c less.prems(6) by (simp add: ys_def)
    have cho: "chunk_of buffer (nat (int bw)) (nat (int c)) = Some ys" using c less.prems(6) by (simp add: chunk_of_def ys_def)
    define B where "B = overwrite (?D ! unat w) (p mod 512) ys"
    define D1 where "D1 = ?D[unat w := B]"
    have "\<forall>b\<in>set ?D. length b = 512" using dev by (simp add: dev_ok_def)
    note wb = write_block [OF this lay se pn, of ys D1]
    have a1: "agree ?D D1 (- datas ?D ?d n)" and c1: "contents D1 ?d n = overwrite (contents ?D ?d n) p ys" and b1: "\<forall>b\<in>set D1. length b = 512"
      using wb c(3) ly w(2) unfolding D1_def B_def by simp_all
    have am: "agree ?D D1 (metas ?D ?d n)" by (rule agree_mono [OF a1]) (use se in \<open>auto simp: sep_def\<close>)
    note la = layout_agree [OF am]
    let ?s1 = "put_devs D1 s"
    have s1: "dev_ok ?s1" "lay_ok (devs ?s1) ?d n" "sep (devs ?s1) ?d n" "mallocs ?s1 = []" "p + c + (m - c) \<le> L" "bw + c + (m - c) \<le> length buffer"
      using dev_ok_put [OF dev _ b1] a1 la lay se less.prems(4-6) c by (simp_all add: agree_def)
    have wr: "fs_write w B s = Some ?s1" using fs_write_ok [OF dev ww] by (simp add: D1_def)
    have ih: "\<exists>D'. write_loop i buffer (int m - int c) (int p + int c) (int bw + int c) b' ?s1 = Some (int (bw + m), put_devs D' s) \<and>
        agree ?D D' (- datas ?D ?d n) \<and> (\<forall>b\<in>set D'. length b = 512) \<and>
        contents D' ?d n = overwrite (contents ?D ?d n) p (take m (drop bw buffer))" for b'
    proof -
      from less.IH [OF _ s1, of b'] c obtain D' where D': "write_loop i buffer (int (m - c)) (int (p + c)) (int (bw + c)) b' ?s1 = Some (int (bw + c + (m - c)), put_devs D' ?s1)"
          "agree D1 D' (- datas D1 ?d n)" "\<forall>b\<in>set D'. length b = 512"
          "contents D' ?d n = overwrite (contents D1 ?d n) (p + c) (take (m - c) (drop (bw + c) buffer))" by auto
      have len: "p + m \<le> length (contents ?D ?d n)" using contents_length [OF dev lay] less.prems(5) L(2) by simp
      have "overwrite (overwrite (contents ?D ?d n) p ys) (p + length ys) (take (m - c) (drop (bw + c) buffer)) =
          overwrite (contents ?D ?d n) p (ys @ take (m - c) (drop (bw + c) buffer))"
        by (rule overwrite_overwrite) (use len c ly less.prems(6) in simp)
      moreover have "ys @ take (m - c) (drop (bw + c) buffer) = take m (drop bw buffer)"
        using take_split [OF c(2), of "drop bw buffer"] by (simp add: ys_def add.commute)
      ultimately have "contents D' ?d n = overwrite (contents ?D ?d n) p (take m (drop bw buffer))" using D'(4) c1 ly by simp
      moreover have "agree ?D D' (- datas ?D ?d n)" using agree_trans [OF a1] D'(2) la(2) by simp
      ultimately show ?thesis using D'(1,3) c by (intro exI [of _ D']) (simp add: of_nat_diff)
    qed
    have lw: "length (?D ! unat w) = 512" by (rule dev_length [OF dev ww])
    have mal: "malloc_ok s = (True, s)" using less.prems(4) by (simp add: malloc_ok_def)
    have ofs': "int p smod int BLOCK_SECTOR_SIZE = int (p mod 512)" using ofs by simp
    have ch': "(if int m < (if inode_length i - int p < int BLOCK_SECTOR_SIZE - int (p mod 512) then inode_length i - int p
          else int BLOCK_SECTOR_SIZE - int (p mod 512)) then int m
        else (if inode_length i - int p < int BLOCK_SECTOR_SIZE - int (p mod 512) then inode_length i - int p
          else int BLOCK_SECTOR_SIZE - int (p mod 512))) = int c"
      unfolding inode_length_def sizes L(1) of_nat_numeral by (rule ch)
    have m0: "0 < int m" using False by simp
    have cho': "chunk_of buffer (nat (int bw)) c = Some ys" using cho by simp
    note step = write_loop_step [OF m0 w(1) ofs' ch' c(1) cho' mal]
    show ?thesis
    proof (cases "p mod 512 = 0 \<and> c = 512")
      case True
      then have "B = ys" using ly lw by (simp add: B_def overwrite_def)
      then show ?thesis unfolding step using True wr ih [of b] by simp
    next
      case nf: False
      have rd: "(if 0 < p mod 512 \<or> int c < 512 - int (p mod 512) then fs_read w s else Some zeros) = Some (?D ! unat w)"
        using nf c fs_read_ok [OF ww] by auto
      have B: "take (p mod 512) (?D ! unat w) @ ys @ drop (p mod 512 + c) (?D ! unat w) = B"
        using ly by (simp add: B_def overwrite_def)
      show ?thesis unfolding step rd if_not_P [OF nf] using wr B ih [of True] by simp
    qed
  qed
qed

text \<open>An open inode that agrees with its sector.\<close>

definition file_ok :: "fs \<Rightarrow> nat \<Rightarrow> inode \<Rightarrow> nat \<Rightarrow> bool" where
  "file_ok s ip i n \<longleftrightarrow> inodes s ip = Some i \<and> lay_ok (devs s) (data i) n \<and> sep (devs s) (data i) n \<and> disk_ok (data i) \<and>
     unat (isector i) < length (devs s) \<and> unat (isector i) \<notin> metas (devs s) (data i) n \<union> datas (devs s) (data i) n \<and>
     sector_inode (devs s ! unat (isector i)) = data i \<and> n = (nat (dlength (data i)) + 511) div 512 \<and> eof (data i) \<le> dlength (data i)"

text \<open>The bytes of a file.\<close>

definition bytes :: "fs \<Rightarrow> inode \<Rightarrow> u8 list" where
  "bytes s i = take (nat (eof (data i))) (contents (devs s) (data i) ((nat (dlength (data i)) + 511) div 512))"

lemma round_up: "(x :: nat) \<le> 512 * ((x + 511) div 512)"
  using div_mult_mod_eq [of "x + 511" 512] mod_less_divisor [of 512 "x + 511"] by linarith

lemma file_ok_bounds:
  assumes "file_ok s ip i n"
  shows "dlength (data i) = int (nat (dlength (data i)))" and "nat (dlength (data i)) \<le> 512 * n" and "eof (data i) = int (nat (eof (data i)))"
    and "nat (dlength (data i)) < 2 ^ 31 - 512" and "n \<le> 16521"
proof -
  show nb: "n \<le> 16521" using assms by (simp add: file_ok_def lay_ok_def)
  have "n = (nat (dlength (data i)) + 511) div 512" using assms by (simp add: file_ok_def)
  then show "nat (dlength (data i)) \<le> 512 * n" by (simp add: round_up)
  then show "nat (dlength (data i)) < 2 ^ 31 - 512" using nb by simp
qed (use assms in \<open>simp_all add: file_ok_def disk_ok_def\<close>)

lemma inode_read_bytes:
  assumes f: "file_ok s ip i n" and dev: "dev_ok s" and mem: "mallocs s = []"
  shows "inode_read_at ip (int m) (int p) s = Some (take m (drop p (bytes s i)), s)"
proof -
  note b = file_ok_bounds [OF f]
  have a: "inodes s ip = Some i" "lay_ok (devs s) (data i) n" "n = (nat (dlength (data i)) + 511) div 512" "eof (data i) \<le> dlength (data i)"
    using f by (auto simp: file_ok_def)
  have "dlength (data i) \<le> int (512 * n)" using b(1,2) by linarith
  moreover have "int (nat (eof (data i))) \<le> dlength (data i)" using a(4) b(3) by simp
  ultimately show ?thesis using inode_read_at_ok [OF a(1) dev a(2) mem b(3)] a(3) by (simp add: bytes_def)
qed

text \<open>Locking and unlocking leaves the inode as it was.\<close>

lemma lock_unlock:
  assumes "inodes s ip = Some i" and "\<not> inode_lock i"
  shows "inode_lock_acquire ip s = Some (set_inode ip (i\<lparr>inode_lock := True\<rparr>) s)"
    and "inode_lock_release ip (set_inode ip (j\<lparr>inode_lock := True\<rparr>) t) = Some (set_inode ip (j\<lparr>inode_lock := False\<rparr>) t)"
  using assms by (simp_all add: inode_lock_acquire_def inode_lock_release_def set_inode_def)

lemma set_inode_simps [simp]:
  "inodes (set_inode ip i s) ip = Some i" "set_inode ip i (set_inode ip j s) = set_inode ip i s" "devs (set_inode ip i s) = devs s"
  "fs_device (set_inode ip i s) = fs_device s" "mallocs (set_inode ip i s) = mallocs s" "free_map (set_inode ip i s) = free_map s"
  "files (set_inode ip i s) = files s" "dirs (set_inode ip i s) = dirs s" "free_map_file (set_inode ip i s) = free_map_file s"
  "open_inodes (set_inode ip i s) = open_inodes s" "next_ptr (set_inode ip i s) = next_ptr s" "stack (set_inode ip i s) = stack s"
  "dev_ok (set_inode ip i s) = dev_ok s" "fs_read w (set_inode ip i s) = fs_read w s"
  "malloc_ok (set_inode ip i s) = map_prod id (set_inode ip i) (malloc_ok s)"
  by (simp_all add: set_inode_def dev_ok_def fs_read_def malloc_ok_def split: list.splits)

lemma set_inode_same: "inodes s ip = Some i \<Longrightarrow> set_inode ip i s = s"
  by (simp add: set_inode_def fun_upd_idem)

lemma bytes_to_sectors_mono: "p \<le> q \<Longrightarrow> q < 2 ^ 31 - 512 \<Longrightarrow> bytes_to_sectors (int p) \<le> bytes_to_sectors (int q)"
  by (simp add: bytes_to_sectors_nat div_le_mono)

lemma store_inode_ok:
  assumes "dev_ok s" and "inodes s ip = Some i" and "unat (isector i) < length (devs s)" and "disk_ok d"
  shows "store_inode ip d s = Some (set_inode ip (i\<lparr>data := d\<rparr>) (put_devs ((devs s)[unat (isector i) := inode_sector d]) s))"
proof -
  let ?s = "put_devs ((devs s)[unat (isector i) := inode_sector d]) s"
  have "fs_read (isector i) ?s = Some (inode_sector d)" using assms(3) by (simp add: fs_read_ok)
  then show ?thesis using assms fs_write_ok [OF assms(1,3)] sector_inode_inverse [OF assms(4)] by (simp add: store_inode_def)
qed

text \<open>
  The end of a write: after the file is long enough, the loop writes the bytes and the end of the
  file moves.
\<close>

lemma write_tail:
  assumes f: "file_ok s ip i n" and dev: "dev_ok s" and mem: "mallocs s = []"
    and p: "int (p + m) \<le> dlength (data i)" and buf: "m \<le> length buffer"
  obtains D' i' where
    "do { (bw, s) \<leftarrow> write_loop i buffer (int m) (int p) 0 False s;
          s \<leftarrow> (if int (p + m) > eof (data i) then store_inode ip ((data i)\<lparr>eof := int (p + m)\<rparr>) s else Some s);
          Some (bw, s) } = Some (int m, set_inode ip i' (put_devs D' s))"
    and "i' = i\<lparr>data := (data i)\<lparr>eof := max (eof (data i)) (int (p + m))\<rparr>\<rparr>"
    and "file_ok (set_inode ip i' (put_devs D' s)) ip i' n" and "dev_ok (put_devs D' s)"
    and "agree (devs s) D' (- insert (unat (isector i)) (datas (devs s) (data i) n))"
    and "contents D' (data i') n = overwrite (contents (devs s) (data i) n) p (take m buffer)"
proof -
  let ?D = "devs s" and ?d = "data i"
  note b = file_ok_bounds [OF f]
  have F: "inodes s ip = Some i" "lay_ok ?D ?d n" "sep ?D ?d n" "disk_ok ?d" "unat (isector i) < length ?D"
      "unat (isector i) \<notin> metas ?D ?d n" "unat (isector i) \<notin> datas ?D ?d n" "sector_inode (?D ! unat (isector i)) = ?d"
      "n = (nat (dlength ?d) + 511) div 512" "eof ?d \<le> dlength ?d"
    using f by (auto simp: file_ok_def)
  have pL: "p + m \<le> nat (dlength ?d)" using p by linarith
  from write_loop_ok [OF dev F(2,3) mem b(1,2) pL, of 0 buffer False] buf
  obtain D1 where D1: "write_loop i buffer (int m) (int p) 0 False s = Some (int m, put_devs D1 s)"
      "agree ?D D1 (- datas ?D ?d n)" "\<forall>b\<in>set D1. length b = 512" "contents D1 ?d n = overwrite (contents ?D ?d n) p (take m buffer)"
    by auto
  define d' where "d' = ?d\<lparr>eof := max (eof ?d) (int (p + m))\<rparr>"
  have d': "disk_ok d'" using F(4) p by (auto simp: disk_ok_def d'_def)
  have len: "length D1 = length ?D" using D1(2) by (simp add: agree_def)
  have dev1: "dev_ok (put_devs D1 s)" by (rule dev_ok_put [OF dev len D1(3)])
  define D' where "D' = (if int (p + m) > eof ?d then D1[unat (isector i) := inode_sector d'] else D1)"
  have a1: "agree D1 D' (- {unat (isector i)})" unfolding D'_def by (auto intro: agree_upd)
  have a: "agree ?D D' (- insert (unat (isector i)) (datas ?D ?d n))"
    by (rule agree_trans [OF agree_mono [OF D1(2)] agree_mono [OF a1]]) auto
  have l5: "\<forall>b\<in>set D'. length b = 512"
    using D1(3) inode_sector_length [OF d'] set_update_subset_insert [of D1 "unat (isector i)" "inode_sector d'"] by (auto simp: D'_def)
  have am: "agree ?D D' (metas ?D ?d n)" by (rule agree_mono [OF a]) (use F(3,6) in \<open>auto simp: sep_def\<close>)
  note la = layout_agree [OF am]
  have same: "metas D d' n = metas D ?d n" "datas D d' n = datas D ?d n" "lay_ok D d' n = lay_ok D ?d n" "sep D d' n = sep D ?d n"
      "contents D d' n = contents D ?d n" for D
    by (intro layout_same; simp add: d'_def)+
  have c': "contents D' d' n = overwrite (contents ?D ?d n) p (take m buffer)"
  proof -
    have "agree ?D D1 (metas ?D ?d n)" by (rule agree_mono [OF D1(2)]) (use F(3) in \<open>auto simp: sep_def\<close>)
    note mm = layout_agree(1,2) [OF this]
    have "contents D' ?d n = contents D1 ?d n"
      by (rule contents_agree [OF agree_mono [OF a1]]) (use mm F(6,7) in auto)
    then show ?thesis using D1(4) same(5) by simp
  qed
  let ?s' = "set_inode ip (i\<lparr>data := d'\<rparr>) (put_devs D' s)"
  have sec: "sector_inode (D' ! unat (isector i)) = d'"
  proof (cases "int (p + m) > eof ?d")
    case True
    then show ?thesis using F(5) len sector_inode_inverse [OF d'] by (simp add: D'_def)
  next
    case False
    have "D1 ! unat (isector i) = ?D ! unat (isector i)" using D1(2) F(7) by (simp add: agree_def)
    then show ?thesis using False F(8) by (simp add: D'_def d'_def max_def)
  qed
  have "file_ok ?s' ip (i\<lparr>data := d'\<rparr>) n"
    unfolding file_ok_def using la F same sec d' p a by (auto simp: agree_def d'_def)
  moreover have "do { (bw, s) \<leftarrow> write_loop i buffer (int m) (int p) 0 False s;
        s \<leftarrow> (if int (p + m) > eof ?d then store_inode ip (?d\<lparr>eof := int (p + m)\<rparr>) s else Some s);
        Some (bw, s) } = Some (int m, ?s')"
  proof (cases "int (p + m) > eof ?d")
    case True
    then have "?d\<lparr>eof := int (p + m)\<rparr> = d'" by (simp add: d'_def max_def)
    then show ?thesis
      using True D1(1) store_inode_ok [OF dev1, of ip i d'] F(1,5) len d' by (simp add: D'_def)
  next
    case False
    then have "d' = ?d" by (simp add: d'_def max_def)
    then have "i\<lparr>data := d'\<rparr> = i" by simp
    then show ?thesis using False D1(1) F(1) set_inode_same [of "put_devs D1 s" ip i] by (simp add: D'_def)
  qed
  moreover have "dev_ok (put_devs D' s)" by (rule dev_ok_put [OF dev _ l5]) (use a in \<open>simp add: agree_def\<close>)
  ultimately show thesis using that [of "i\<lparr>data := d'\<rparr>" D'] a c' by (simp add: d'_def)
qed

lemma inode_write_within:
  assumes f: "file_ok s ip i n" and dev: "dev_ok s" and mem: "mallocs s = []" and deny: "deny_write_cnt i = 0"
    and lock: "isdir (data i) \<or> \<not> inode_lock i" and p: "int (p + m) \<le> dlength (data i)" and buf: "m \<le> length buffer"
  obtains D' i' where "inode_write_at (Suc depth) ip buffer (int m) (int p) s = Some (int m, set_inode ip i' (put_devs D' s))"
    and "i' = i\<lparr>data := (data i)\<lparr>eof := max (eof (data i)) (int (p + m))\<rparr>\<rparr>"
    and "file_ok (set_inode ip i' (put_devs D' s)) ip i' n" and "dev_ok (put_devs D' s)"
    and "agree (devs s) D' (- insert (unat (isector i)) (datas (devs s) (data i) n))"
    and "contents D' (data i') n = overwrite (contents (devs s) (data i) n) p (take m buffer)"
proof -
  note b = file_ok_bounds [OF f]
  have F: "inodes s ip = Some i" "unat (isector i) < length (devs s)" "sector_inode (devs s ! unat (isector i)) = data i"
    using f by (auto simp: file_ok_def)
  have pL: "p + m \<le> nat (dlength (data i))" using p by linarith
  have nl: "off_wrap (int p + int m) = int (p + m)" using pL b(4) by (subst off_wrap_small) auto
  have grow: "\<not> bytes_to_sectors (int (p + m)) > bytes_to_sectors (dlength (data i))"
    using bytes_to_sectors_mono [OF pL b(4)] b(1) by simp
  have nolen: "\<not> int (p + m) > dlength (data i)" using p by simp
  have mal: "malloc_ok s = (True, s)" using mem by (simp add: malloc_ok_def)
  have rd: "fs_read (isector i) s = Some (devs s ! unat (isector i))" by (rule fs_read_ok [OF F(2)])
  have "inode_write_at (Suc depth) ip buffer (int m) (int p) s =
      do { (bw, s) \<leftarrow> write_loop i buffer (int m) (int p) 0 False s;
           s \<leftarrow> (if int (p + m) > eof (data i) then store_inode ip ((data i)\<lparr>eof := int (p + m)\<rparr>) s else Some s);
           Some (bw, s) }"
  proof (cases "isdir (data i)")
    case True
    then show ?thesis
      unfolding inode_write_at_Suc nl Let_def
      using F deny mal rd grow nolen by (simp add: inode_isdir_def)
  next
    case False
    then have lk: "\<not> inode_lock i" using lock by simp
    have un: "set_inode ip (i\<lparr>inode_lock := False\<rparr>) s = s" using set_inode_same [OF F(1)] lk by (cases i) simp
    show ?thesis
      unfolding inode_write_at_Suc nl Let_def
      using F deny mal rd grow nolen False lk lock_unlock [OF F(1) lk] un by (simp add: inode_isdir_def)
  qed
  note e = this
  show thesis by (rule write_tail [OF f dev mem p buf]) (rule that, unfold e, assumption+)
qed

end
