(* ===== verification/Kinode_Grow.thy ===== *)
theory Kinode_Grow
  imports Kinode_Write
begin

text \<open>
  Allocating sectors: the free map is a file, and taking a sector writes it. Files grow up to the
  last block that the indirect block reaches.
\<close>

section \<open>The file of the free map\<close>

text \<open>The blocks that writing the file \<open>i\<close> of \<open>n\<close> blocks inside its length may change, and all those that belong to it.\<close>

definition wblocks :: "u8 list list \<Rightarrow> inode \<Rightarrow> nat \<Rightarrow> nat set" where
  "wblocks D i n = insert (unat (isector i)) (datas D (data i) n)"

definition owns :: "u8 list list \<Rightarrow> inode \<Rightarrow> nat \<Rightarrow> nat set" where
  "owns D i n = wblocks D i n \<union> metas D (data i) n"

definition map_ok :: "fs \<Rightarrow> nat \<Rightarrow> inode \<Rightarrow> nat \<Rightarrow> bool" where
  "map_ok s mp mi k \<longleftrightarrow> bm_inv (free_map s) \<and> bit_cnt (free_map s) \<le> length (devs s) \<and> free_map_file s \<noteq> 0 \<and>
     (\<exists>f. files s (free_map_file s) = Some f \<and> finode f = mp) \<and> file_ok s mp mi k \<and> deny_write_cnt mi = 0 \<and> \<not> inode_lock mi \<and>
     int (byte_cnt (bit_cnt (free_map s))) \<le> eof (data mi) \<and>
     insert 0 (owns (devs s) mi k) \<subseteq> bm_used (free_map s)"

lemma put_devs_free_map [simp]: "put_devs D s\<lparr>free_map := fm\<rparr> = put_devs D (s\<lparr>free_map := fm\<rparr>)"
  by (simp add: put_devs_def)

lemma byte_cnt_le: "bm_inv b \<Longrightarrow> byte_cnt (bit_cnt b) \<le> length (bytes_of (bits b))"
proof -
  assume a: "bm_inv b"
  have "byte_cnt (bit_cnt b) \<le> 4 * elem_cnt (bit_cnt b)" by (simp add: byte_cnt_def size_wrap_def)
  then show ?thesis using a by (simp add: bm_inv_def)
qed

lemma write_map_ok:
  assumes m: "map_ok s mp mi k" and dev: "dev_ok s" and mem: "mallocs s = []"
  obtains D' where "write_free_map (Suc depth) s = Some (True, put_devs D' s)" and "dev_ok (put_devs D' s)"
    and "agree (devs s) D' (- wblocks (devs s) mi k)" and "map_ok (put_devs D' s) mp mi k"
    and "wblocks D' mi k = wblocks (devs s) mi k"
    and "take (byte_cnt (bit_cnt (free_map s))) (contents D' (data mi) k) = take (byte_cnt (bit_cnt (free_map s))) (bytes_of (bits (free_map s)))"
proof -
  let ?b = "byte_cnt (bit_cnt (free_map s))" and ?buf = "bytes_of (bits (free_map s))" and ?D = "devs s"
  obtain f where f: "files s (free_map_file s) = Some f" "finode f = mp" using m by (auto simp: map_ok_def)
  have F: "file_ok s mp mi k" "deny_write_cnt mi = 0" "\<not> inode_lock mi" "int ?b \<le> eof (data mi)" "bm_inv (free_map s)"
      "insert 0 (owns ?D mi k) \<subseteq> bm_used (free_map s)"
    using m by (auto simp: map_ok_def)
  have len: "int (0 + ?b) \<le> dlength (data mi)" using F(1,4) by (simp add: file_ok_def)
  obtain D' mi' where w: "inode_write_at (Suc depth) mp ?buf (int ?b) (int 0) s = Some (int ?b, set_inode mp mi' (put_devs D' s))"
      and mi': "mi' = mi\<lparr>data := (data mi)\<lparr>eof := max (eof (data mi)) (int (0 + ?b))\<rparr>\<rparr>"
      and ok: "file_ok (set_inode mp mi' (put_devs D' s)) mp mi' k" "dev_ok (put_devs D' s)"
      and ag: "agree ?D D' (- insert (unat (isector mi)) (datas ?D (data mi) k))"
      and ct: "contents D' (data mi') k = overwrite (contents ?D (data mi) k) 0 (take ?b ?buf)"
    by (rule inode_write_within [OF F(1) dev mem F(2) _ len byte_cnt_le [OF F(5)], of depth]) (use F(3) in auto)
  have "max (eof (data mi)) (int (0 + ?b)) = eof (data mi)" using F(4) by simp
  then have mi: "mi' = mi" unfolding mi' by (cases mi) simp
  have si: "set_inode mp mi (put_devs D' s) = put_devs D' s" using F(1) by (intro set_inode_same) (simp add: file_ok_def)
  have am: "agree ?D D' (metas ?D (data mi) k)" by (rule agree_mono [OF ag]) (use F(1) in \<open>auto simp: file_ok_def sep_def\<close>)
  have wb: "wblocks D' mi k = wblocks ?D mi k" "owns D' mi k = owns ?D mi k"
    using layout_agree [OF am] by (simp_all add: wblocks_def owns_def)
  show thesis
  proof (rule that)
    show "write_free_map (Suc depth) s = Some (True, put_devs D' s)"
      using w mi si f unfolding bitmap_write_def file_write_at_def Let_def by simp
    show "dev_ok (put_devs D' s)" by (rule ok)
    show "agree ?D D' (- wblocks ?D mi k)" using ag by (simp add: wblocks_def)
    show "map_ok (put_devs D' s) mp mi k"
      using m ok(1) wb ag unfolding mi si by (simp add: map_ok_def agree_def)
    show "wblocks D' mi k = wblocks ?D mi k" by (rule wb)
    show "take ?b (contents D' (data mi) k) = take ?b ?buf"
      using ct byte_cnt_le [OF F(5)] unfolding mi by (simp add: overwrite_def)
  qed
qed

section \<open>Taking one sector\<close>

definition free_sectors :: "fs \<Rightarrow> nat set" where
  "free_sectors s = {..<bit_cnt (free_map s)} - bm_used (free_map s)"

lemma finite_free [simp]: "finite (free_sectors s)"
  by (simp add: free_sectors_def)

lemma map_ok_free_map:
  assumes "map_ok s mp mi k" and "bm_inv fm" and "bit_cnt fm = bit_cnt (free_map s)" and "bm_used (free_map s) \<subseteq> bm_used fm"
  shows "map_ok (s\<lparr>free_map := fm\<rparr>) mp mi k"
  using assms by (auto simp: map_ok_def file_ok_def)

lemma dev_ok_free_map [simp]: "dev_ok (s\<lparr>free_map := fm\<rparr>) = dev_ok s"
  by (simp add: dev_ok_def)

lemma allocate_ok:
  assumes m: "map_ok s mp mi k" and dev: "dev_ok s" and mem: "mallocs s = []" and free: "0 < card (free_sectors s)"
  obtains w D' fm where "free_map_allocate (write_free_map (Suc depth)) 1 s = Some (Some w, put_devs D' (s\<lparr>free_map := fm\<rparr>))"
    and "dev_ok (put_devs D' s)" and "map_ok (put_devs D' (s\<lparr>free_map := fm\<rparr>)) mp mi k"
    and "bit_cnt fm = bit_cnt (free_map s)" and "bm_used fm = insert (unat w) (bm_used (free_map s))"
    and "unat w \<in> free_sectors s" and "agree (devs s) D' (- wblocks (devs s) mi k)" and "wblocks D' mi k = wblocks (devs s) mi k"
proof -
  have inv: "bm_inv (free_map s)" "free_map_file s \<noteq> 0" using m by (auto simp: map_ok_def)
  from free obtain j where "j \<in> free_sectors s" by (metis card_gt_0_iff ex_in_conv)
  then have j: "group_at (free_map s) 1 False j" by (auto simp: group_at_free free_sectors_def)
  from bitmap_scan_and_flip_found [OF inv(1) _ _ j, of 0] obtain x fm where
    x: "bitmap_scan_and_flip (free_map s) 0 1 False = Some (x, fm)" "bm_inv fm" "group_at (free_map s) 1 False x"
      "bm_bits fm = fill_segment (bm_bits (free_map s)) x 1 True" by auto
  have nx: "x \<noteq> BITMAP_ERROR" by (rule group_at_not_error [OF inv(1) x(3)])
  have xr: "x + 1 \<le> bit_cnt (free_map s)" "x \<notin> bm_used (free_map s)" using x(3) by (auto simp: group_at_free)
  note u = bm_used_fill [OF x(4) xr(1)]
  have ux: "unat (of_nat x :: u32) = x" using xr(1) inv(1) unfolding bm_inv_def unat_of_nat by simp
  let ?s = "s\<lparr>free_map := fm\<rparr>"
  have m1: "map_ok ?s mp mi k" by (rule map_ok_free_map [OF m x(2) u(1)]) (use u(2) in auto)
  obtain D' where D': "write_free_map (Suc depth) ?s = Some (True, put_devs D' ?s)" "dev_ok (put_devs D' ?s)"
      "agree (devs s) D' (- wblocks (devs s) mi k)" "map_ok (put_devs D' ?s) mp mi k" "wblocks D' mi k = wblocks (devs s) mi k"
    by (rule write_map_ok [OF m1, of depth]) (use dev mem in auto)
  show thesis
  proof (rule that)
    show "free_map_allocate (write_free_map (Suc depth)) 1 s = Some (Some (of_nat x), put_devs D' ?s)"
      using x(1) nx inv(2) D'(1) by (simp add: free_map_allocate_def)
    show "dev_ok (put_devs D' s)" using D'(2) by (simp add: put_devs_def dev_ok_def)
    show "map_ok (put_devs D' ?s) mp mi k" "agree (devs s) D' (- wblocks (devs s) mi k)" "wblocks D' mi k = wblocks (devs s) mi k"
      by (rule D')+
    show "bit_cnt fm = bit_cnt (free_map s)" by (rule u(1))
    show "bm_used fm = insert (unat (of_nat x :: u32)) (bm_used (free_map s))" using u(2) ux by simp
    show "unat (of_nat x :: u32) \<in> free_sectors s" using xr ux by (simp add: free_sectors_def)
  qed
qed

section \<open>Taking many sectors\<close>

text \<open>The state \<open>t\<close> is \<open>s\<close> after the sectors \<open>ns\<close> were taken and cleared; \<open>M\<close> is what the file of the free map may change.\<close>

definition got :: "nat set \<Rightarrow> fs \<Rightarrow> u32 list \<Rightarrow> fs \<Rightarrow> bool" where
  "got M s ns t \<longleftrightarrow> distinct ns \<and> (\<exists>D fm. t = put_devs D (s\<lparr>free_map := fm\<rparr>)) \<and>
     unat ` set ns \<subseteq> free_sectors s \<and> bm_used (free_map t) = bm_used (free_map s) \<union> unat ` set ns \<and>
     bit_cnt (free_map t) = bit_cnt (free_map s) \<and>
     (\<forall>x\<in>set ns. devs t ! unat x = zeros) \<and> agree (devs s) (devs t) (bm_used (free_map s) - M)"

lemma got_Nil: "got M s [] s"
proof -
  have "s = put_devs (devs s) (s\<lparr>free_map := free_map s\<rparr>)" by (simp add: put_devs_def)
  then have "\<exists>D fm. s = put_devs D (s\<lparr>free_map := fm\<rparr>)" by blast
  then show ?thesis by (simp add: got_def)
qed

lemma got_shape: "got M s ns t \<Longrightarrow> \<exists>D fm. t = put_devs D (s\<lparr>free_map := fm\<rparr>)"
  by (simp add: got_def)

lemma got_append:
  assumes a: "got M s ns t" and b: "got M t ms u" and M: "M \<subseteq> bm_used (free_map s)"
  shows "got M s (ns @ ms) u"
proof -
  have fr: "free_sectors t = free_sectors s - unat ` set ns" using a by (auto simp: free_sectors_def got_def)
  have "set ns \<inter> set ms = {}" using a b fr by (fastforce simp: got_def)
  moreover have "devs u ! unat x = zeros" if x: "x \<in> set ns" for x
  proof -
    have "unat x \<in> free_sectors s" using a x by (auto simp: got_def)
    then have "unat x \<notin> M" using M by (auto simp: free_sectors_def)
    moreover have "unat x \<in> bm_used (free_map t)" using a x by (auto simp: got_def)
    ultimately have "devs u ! unat x = devs t ! unat x" using b by (auto simp: got_def agree_def)
    then show ?thesis using a x by (simp add: got_def)
  qed
  moreover have "agree (devs s) (devs u) (bm_used (free_map s) - M)"
    by (rule agree_trans [of _ "devs t"]) (use a b in \<open>auto simp: got_def intro: agree_mono\<close>)
  moreover obtain D1 f1 D2 f2 where "t = put_devs D1 (s\<lparr>free_map := f1\<rparr>)" "u = put_devs D2 (t\<lparr>free_map := f2\<rparr>)"
    using got_shape [OF a] got_shape [OF b] by blast
  then have "u = put_devs D2 (s\<lparr>free_map := f2\<rparr>)" by simp
  moreover have "unat ` set ns \<subseteq> free_sectors s" "unat ` set ms \<subseteq> free_sectors s" "distinct ns" "distinct ms"
      "bm_used (free_map u) = bm_used (free_map s) \<union> unat ` set ns \<union> unat ` set ms" "bit_cnt (free_map u) = bit_cnt (free_map s)"
      "\<forall>x\<in>set ms. devs u ! unat x = zeros"
    using a b fr unfolding got_def by auto
  ultimately show ?thesis unfolding got_def by (auto simp: image_Un)
qed

lemma inj_unat: "inj_on (unat :: u32 \<Rightarrow> nat) A"
  by (rule inj_onI) (rule unsigned_word_eqI)

lemma got_free: "got M s ns t \<Longrightarrow> card (free_sectors t) = card (free_sectors s) - length ns"
proof -
  assume a: "got M s ns t"
  then have "free_sectors t = free_sectors s - unat ` set ns" by (auto simp: free_sectors_def got_def)
  moreover have "card (unat ` set ns) = length ns"
    using a by (simp add: got_def distinct_card card_image inj_unat)
  moreover have "unat ` set ns \<subseteq> free_sectors s" using a by (simp add: got_def)
  ultimately show ?thesis by (simp add: card_Diff_subset)
qed

lemma got_same:
  assumes "got M s ns t"
  shows "inodes t = inodes s" and "mallocs t = mallocs s" and "files t = files s" and "free_map_file t = free_map_file s"
    and "stack t = stack s" and "length (devs t) = length (devs s)" and "dirs t = dirs s" and "open_inodes t = open_inodes s" and "next_ptr t = next_ptr s"
    and "free_sectors t = free_sectors s - unat ` set ns"
  using assms by (auto simp: got_def agree_def free_sectors_def)

text \<open>A file whose blocks do not change stays what it is.\<close>

lemma file_ok_agree:
  assumes f: "file_ok s ip i n" and "inodes t ip = Some i" and a: "agree (devs s) (devs t) (owns (devs s) i n)"
  shows "file_ok t ip i n" and "wblocks (devs t) i n = wblocks (devs s) i n" and "owns (devs t) i n = owns (devs s) i n"
    and "contents (devs t) (data i) n = contents (devs s) (data i) n"
proof -
  have am: "agree (devs s) (devs t) (metas (devs s) (data i) n)" by (rule agree_mono [OF a]) (auto simp: owns_def)
  note la = layout_agree [OF am]
  show "wblocks (devs t) i n = wblocks (devs s) i n" "owns (devs t) i n = owns (devs s) i n" using la by (simp_all add: owns_def wblocks_def)
  show "contents (devs t) (data i) n = contents (devs s) (data i) n"
    by (rule contents_agree [OF agree_mono [OF a]]) (auto simp: owns_def wblocks_def)
  have "devs t ! unat (isector i) = devs s ! unat (isector i)" "length (devs t) = length (devs s)"
    using a by (simp_all add: agree_def owns_def wblocks_def)
  then show "file_ok t ip i n" using f la assms(2) by (auto simp: file_ok_def)
qed

lemma map_ok_agree:
  assumes m: "map_ok s mp mi k" and a: "agree (devs s) D (owns (devs s) mi k)"
  shows "map_ok (put_devs D s) mp mi k" and "wblocks D mi k = wblocks (devs s) mi k"
proof -
  have f: "file_ok s mp mi k" using m by (simp add: map_ok_def)
  then have "inodes (put_devs D s) mp = Some mi" by (simp add: file_ok_def)
  note fa = file_ok_agree [OF f this, simplified, OF a]
  show "wblocks D mi k = wblocks (devs s) mi k" by (rule fa)
  show "map_ok (put_devs D s) mp mi k" using m fa a by (simp add: map_ok_def agree_def)
qed

text \<open>The state between two steps of an allocation.\<close>

definition alloc_ok :: "nat set \<Rightarrow> nat \<Rightarrow> inode \<Rightarrow> nat \<Rightarrow> fs \<Rightarrow> bool" where
  "alloc_ok M mp mi k s \<longleftrightarrow> map_ok s mp mi k \<and> dev_ok s \<and> mallocs s = [] \<and> wblocks (devs s) mi k = M"

lemma alloc_ok_M: "alloc_ok M mp mi k s \<Longrightarrow> M \<subseteq> bm_used (free_map s)"
  by (auto simp: alloc_ok_def map_ok_def owns_def)

lemma alloc_ok_free: "alloc_ok M mp mi k s \<Longrightarrow> x \<in> free_sectors s \<Longrightarrow> x < length (devs s) \<and> x \<noteq> 0 \<and> x \<notin> owns (devs s) mi k"
  by (cases "x = 0") (auto simp: alloc_ok_def map_ok_def free_sectors_def)

lemma owns_same:
  assumes a: "alloc_ok M mp mi k s" and "agree (devs s) D (bm_used (free_map s) - M)"
  shows "owns D mi k = owns (devs s) mi k"
proof -
  have "agree (devs s) D (metas (devs s) (data mi) k)"
    by (rule agree_mono [OF assms(2)])
      (use a in \<open>auto simp: map_ok_def file_ok_def sep_def alloc_ok_def owns_def wblocks_def\<close>)
  then show ?thesis using layout_agree(1,2) by (auto simp: owns_def wblocks_def)
qed

lemma alloc_ok_write:
  assumes a: "alloc_ok M mp mi k s" and w: "unat w < length (devs s)" "unat w \<notin> owns (devs s) mi k" and b: "length b = 512"
  shows "fs_write w b s = Some (put_devs ((devs s)[unat w := b]) s)" and "alloc_ok M mp mi k (put_devs ((devs s)[unat w := b]) s)"
proof -
  have dev: "dev_ok s" and m: "map_ok s mp mi k" using a by (auto simp: alloc_ok_def)
  show "fs_write w b s = Some (put_devs ((devs s)[unat w := b]) s)" by (rule fs_write_ok [OF dev w(1)])
  have "\<forall>c\<in>set ((devs s)[unat w := b]). length c = 512"
    using dev b set_update_subset_insert [of "devs s" "unat w" b] by (auto simp: dev_ok_def)
  then have "dev_ok (put_devs ((devs s)[unat w := b]) s)" by (intro dev_ok_put [OF dev]) auto
  then show "alloc_ok M mp mi k (put_devs ((devs s)[unat w := b]) s)"
    using a map_ok_agree [OF m agree_upd [OF w(2)]] by (simp add: alloc_ok_def)
qed

lemma allocate_step:
  assumes a: "alloc_ok M mp mi k s" and free: "0 < card (free_sectors s)"
  obtains w D fm where "free_map_allocate (write_free_map (Suc depth)) 1 s = Some (Some w, put_devs D (s\<lparr>free_map := fm\<rparr>))"
    and "alloc_ok M mp mi k (put_devs D (s\<lparr>free_map := fm\<rparr>))" and "bit_cnt fm = bit_cnt (free_map s)"
    and "bm_used fm = insert (unat w) (bm_used (free_map s))" and "unat w \<in> free_sectors s" and "agree (devs s) D (- M)"
proof -
  have A: "map_ok s mp mi k" "dev_ok s" "mallocs s = []" "wblocks (devs s) mi k = M" using a by (auto simp: alloc_ok_def)
  obtain w D fm where *: "free_map_allocate (write_free_map (Suc depth)) 1 s = Some (Some w, put_devs D (s\<lparr>free_map := fm\<rparr>))"
      "dev_ok (put_devs D s)" "map_ok (put_devs D (s\<lparr>free_map := fm\<rparr>)) mp mi k" "bit_cnt fm = bit_cnt (free_map s)"
      "bm_used fm = insert (unat w) (bm_used (free_map s))" "unat w \<in> free_sectors s" "agree (devs s) D (- wblocks (devs s) mi k)"
      "wblocks D mi k = wblocks (devs s) mi k"
    by (rule allocate_ok [OF A(1-3) free, of depth])
  show thesis by (rule that [OF *(1)]) (use * A in \<open>auto simp: alloc_ok_def dev_ok_def\<close>)
qed

lemma take_step:
  assumes a: "alloc_ok M mp mi k s" and free: "0 < card (free_sectors s)"
  obtains w s1 t where "free_map_allocate (write_free_map (Suc depth)) 1 s = Some (Some w, s1)" and "fs_write w zeros s1 = Some t"
    and "got M s [w] t" and "alloc_ok M mp mi k t"
proof -
  obtain w D fm where f: "free_map_allocate (write_free_map (Suc depth)) 1 s = Some (Some w, put_devs D (s\<lparr>free_map := fm\<rparr>))"
      "alloc_ok M mp mi k (put_devs D (s\<lparr>free_map := fm\<rparr>))" "bit_cnt fm = bit_cnt (free_map s)"
      "bm_used fm = insert (unat w) (bm_used (free_map s))" "unat w \<in> free_sectors s" "agree (devs s) D (- M)"
    by (rule allocate_step [OF a free, of depth])
  let ?s1 = "put_devs D (s\<lparr>free_map := fm\<rparr>)"
  have wf: "unat w < length (devs s)" "unat w \<notin> owns (devs s) mi k" using alloc_ok_free [OF a f(5)] by auto
  have o: "owns D mi k = owns (devs s) mi k" by (rule owns_same [OF a agree_mono [OF f(6)]]) auto
  have len: "length D = length (devs s)" using f(6) by (simp add: agree_def)
  have w: "fs_write w zeros ?s1 = Some (put_devs (D[unat w := zeros]) (s\<lparr>free_map := fm\<rparr>))"
      "alloc_ok M mp mi k (put_devs (D[unat w := zeros]) (s\<lparr>free_map := fm\<rparr>))"
    using alloc_ok_write [OF f(2), of w zeros] wf len o by simp_all
  show thesis
  proof (rule that [OF f(1) w(1) _ w(2)])
    have "agree (devs s) (D[unat w := zeros]) (bm_used (free_map s) - M)"
      by (rule agree_trans [OF agree_mono [OF f(6)] agree_upd]) (use f(5) in \<open>auto simp: free_sectors_def\<close>)
    then show "got M s [w] (put_devs (D[unat w := zeros]) (s\<lparr>free_map := fm\<rparr>))"
      unfolding got_def using f wf(1) len by (auto simp: agree_def)
  qed
qed

lemma fill_direct_ok:
  assumes "alloc_ok M mp mi k s" and "min a (10 - c) \<le> card (free_sectors s)" and "length (direct_blocks d) = 10"
  obtains ns t where "fill_direct (write_free_map (Suc depth)) a c d s =
      Some (True, a - length ns, c + length ns, d\<lparr>direct_blocks := take c (direct_blocks d) @ ns @ drop (c + length ns) (direct_blocks d)\<rparr>, t)"
    and "length ns = min a (10 - c)" and "got M s ns t" and "alloc_ok M mp mi k t"
  using assms
proof (induction a arbitrary: c d s thesis)
  case 0
  then show ?case using 0(1) [of "[]" s] got_Nil by simp
next
  case (Suc a)
  show ?case
  proof (cases "c < 10")
    case False
    then show ?thesis using Suc.prems(1) [of "[]" s] got_Nil Suc.prems(2) by simp
  next
    case True
    have "0 < card (free_sectors s)" using Suc.prems(3) True by linarith
    then obtain w s1 t where t: "free_map_allocate (write_free_map (Suc depth)) 1 s = Some (Some w, s1)" "fs_write w zeros s1 = Some t"
        "got M s [w] t" "alloc_ok M mp mi k t"
      by (rule take_step [OF Suc.prems(2), of depth])
    let ?d = "d\<lparr>direct_blocks := (direct_blocks d)[c := w]\<rparr>"
    have card: "min a (10 - Suc c) \<le> card (free_sectors t)" using got_free [OF t(3)] Suc.prems(3) True by simp
    obtain ns u where u: "fill_direct (write_free_map (Suc depth)) a (Suc c) ?d t =
        Some (True, a - length ns, Suc c + length ns,
          ?d\<lparr>direct_blocks := take (Suc c) (direct_blocks ?d) @ ns @ drop (Suc c + length ns) (direct_blocks ?d)\<rparr>, u)"
        "length ns = min a (10 - Suc c)" "got M t ns u" "alloc_ok M mp mi k u"
      by (rule Suc.IH [OF _ t(4) card, of ?d]) (use Suc.prems(4) in auto)
    have "take (Suc c) ((direct_blocks d)[c := w]) = take c (direct_blocks d) @ [w]"
      using True Suc.prems(4) by (simp add: take_Suc_conv_app_nth)
    then show ?thesis
      using True t(1,2) u Suc.prems(4) got_append [OF t(3) u(3) alloc_ok_M [OF Suc.prems(2)]]
      by (intro Suc.prems(1) [of "w # ns" u]) (simp_all add: aset_def)
  qed
qed

lemma fill_indirect_ok:
  assumes "alloc_ok M mp mi k s" and "a \<le> card (free_sectors s)" and "c + a \<le> length buffer"
  obtains ns t where "fill_indirect (write_free_map (Suc depth)) c buffer s a = Some (take c buffer @ ns @ drop (c + a) buffer, t)"
    and "length ns = a" and "got M s ns t" and "alloc_ok M mp mi k t"
  using assms
proof (induction a arbitrary: c buffer s thesis)
  case 0
  then show ?case using 0(1) [of "[]" s] got_Nil by simp
next
  case (Suc a)
  have "0 < card (free_sectors s)" using Suc.prems(3) by linarith
  then obtain w s1 t where t: "free_map_allocate (write_free_map (Suc depth)) 1 s = Some (Some w, s1)" "fs_write w zeros s1 = Some t"
      "got M s [w] t" "alloc_ok M mp mi k t"
    by (rule take_step [OF Suc.prems(2), of depth])
  have card: "a \<le> card (free_sectors t)" using got_free [OF t(3)] Suc.prems(3) by simp
  obtain ns u where u: "fill_indirect (write_free_map (Suc depth)) (Suc c) (buffer[c := w]) t a =
        Some (take (Suc c) (buffer[c := w]) @ ns @ drop (Suc c + a) (buffer[c := w]), u)"
      "length ns = a" "got M t ns u" "alloc_ok M mp mi k u"
    by (rule Suc.IH [OF _ t(4) card, of "Suc c" "buffer[c := w]"]) (use Suc.prems(4) in auto)
  have "take (Suc c) (buffer[c := w]) = take c buffer @ [w]" using Suc.prems(4) by (simp add: take_Suc_conv_app_nth)
  then show ?case
    using t(1,2) u Suc.prems(4) got_append [OF t(3) u(3) alloc_ok_M [OF Suc.prems(2)]]
    by (intro Suc.prems(1) [of "w # ns" u]) (simp_all add: aset_def)
qed

end
