(* ===== verification/Kinode_Alloc.thy ===== *)
theory Kinode_Alloc
  imports Kinode_Grow
begin

text \<open>
  What \<^verbatim>\<open>sector_allocate\<close> does to a file that stays within its direct blocks and its indirect
  block: the file gets blocks of zeros at its end, from sectors that were free.
\<close>

section \<open>Sectors for data and for block numbers\<close>

text \<open>
  The state \<open>t\<close> is \<open>s\<close> after the sectors \<open>ns\<close> were taken and cleared and the sectors \<open>W\<close> were taken for
  block numbers; the blocks of \<open>X\<close> may have been rewritten, and \<open>M\<close> is as above.
\<close>

definition took :: "nat set \<Rightarrow> nat set \<Rightarrow> fs \<Rightarrow> nat set \<Rightarrow> u32 list \<Rightarrow> fs \<Rightarrow> bool" where
  "took M X s W ns t \<longleftrightarrow> distinct ns \<and> (\<exists>D fm. t = put_devs D (s\<lparr>free_map := fm\<rparr>)) \<and>
     unat ` set ns \<subseteq> free_sectors s \<and> W \<subseteq> free_sectors s \<and> W \<inter> unat ` set ns = {} \<and>
     bm_used (free_map t) = bm_used (free_map s) \<union> unat ` set ns \<union> W \<and> bit_cnt (free_map t) = bit_cnt (free_map s) \<and>
     (\<forall>x\<in>set ns. devs t ! unat x = zeros) \<and> agree (devs s) (devs t) (bm_used (free_map s) - M - X)"

lemma took_shape: "took M X s W ns t \<Longrightarrow> \<exists>D fm. t = put_devs D (s\<lparr>free_map := fm\<rparr>)"
  by (simp add: took_def)

lemma took_got: "took M {} s {} ns t = got M s ns t"
  by (auto simp: took_def got_def)

lemma got_took:
  assumes a: "got M s ns t" and b: "took M X t W ms u" and M: "M \<subseteq> bm_used (free_map s)" and X: "X \<subseteq> bm_used (free_map s)"
  shows "took M X s W (ns @ ms) u"
proof -
  have fr: "free_sectors t = free_sectors s - unat ` set ns" by (rule got_same [OF a])
  have "set ns \<inter> set ms = {}" using a b fr by (fastforce simp: got_def took_def)
  moreover have "devs u ! unat x = zeros" if x: "x \<in> set ns" for x
  proof -
    have "unat x \<in> free_sectors s" using a x by (auto simp: got_def)
    then have "unat x \<notin> M \<union> X" using M X by (auto simp: free_sectors_def)
    moreover have "unat x \<in> bm_used (free_map t)" using a x by (auto simp: got_def)
    ultimately have "devs u ! unat x = devs t ! unat x" using b by (auto simp: took_def agree_def)
    then show ?thesis using a x by (simp add: got_def)
  qed
  moreover have "agree (devs s) (devs u) (bm_used (free_map s) - M - X)"
  proof (rule agree_trans)
    show "agree (devs s) (devs t) (bm_used (free_map s) - M - X)" by (rule agree_mono [of _ _ "bm_used (free_map s) - M"]) (use a in \<open>auto simp: got_def\<close>)
    show "agree (devs t) (devs u) (bm_used (free_map s) - M - X)"
      by (rule agree_mono [of _ _ "bm_used (free_map t) - M - X"]) (use a b in \<open>auto simp: got_def took_def\<close>)
  qed
  moreover obtain D1 f1 D2 f2 where "t = put_devs D1 (s\<lparr>free_map := f1\<rparr>)" "u = put_devs D2 (t\<lparr>free_map := f2\<rparr>)"
    using got_shape [OF a] took_shape [OF b] by blast
  then have "u = put_devs D2 (s\<lparr>free_map := f2\<rparr>)" by simp
  moreover have "unat ` set ns \<subseteq> free_sectors s" "unat ` set ms \<subseteq> free_sectors s" "W \<subseteq> free_sectors s" "distinct ns" "distinct ms"
      "W \<inter> unat ` set ns = {}" "W \<inter> unat ` set ms = {}"
      "bm_used (free_map u) = bm_used (free_map s) \<union> unat ` set ns \<union> unat ` set ms \<union> W" "bit_cnt (free_map u) = bit_cnt (free_map s)"
      "\<forall>x\<in>set ms. devs u ! unat x = zeros"
    using a b fr unfolding got_def took_def by auto
  ultimately show ?thesis unfolding took_def by (auto simp: image_Un)
qed

lemma took_same:
  assumes "took M X s W ns t"
  shows "inodes t = inodes s" and "mallocs t = mallocs s" and "files t = files s" and "free_map_file t = free_map_file s"
    and "stack t = stack s" and "length (devs t) = length (devs s)" and "dirs t = dirs s" and "open_inodes t = open_inodes s" and "next_ptr t = next_ptr s"
  using assms by (auto simp: took_def agree_def)

section \<open>The indirect block\<close>

lemma stack_array_length: "128 \<le> length (stack s) \<Longrightarrow> length (stack_array s) = 128"
  by (simp add: stack_array_def)

lemma blk_update: "unat w < length D \<Longrightarrow> blk (D[unat w := bytes_of b]) w = b"
  by (simp add: blk_def)

lemma fill_nth: "j < c + length ns \<Longrightarrow> c \<le> length b \<Longrightarrow> (take c b @ ns @ r) ! j = (if j < c then b ! j else ns ! (j - c))"
  by (auto simp: nth_append)

lemma indirect_new:
  assumes A: "alloc_ok M mp mi k s" and a: "a \<le> 128" and st: "128 \<le> length (stack s)" and free: "a + 1 \<le> card (free_sectors s)"
  obtains w ns t where "indirect_block_allocate (write_free_map (Suc depth)) 0 a 0 s = Some (w, t)" and "w \<noteq> 0"
    and "took M {} s {unat w} ns t" and "length ns = a" and "alloc_ok M mp mi k t" and "\<forall>j<a. blk (devs t) w ! j = ns ! j"
proof -
  have f0: "0 < card (free_sectors s)" using free by linarith
  obtain w D fm where f: "free_map_allocate (write_free_map (Suc depth)) 1 s = Some (Some w, put_devs D (s\<lparr>free_map := fm\<rparr>))"
      "alloc_ok M mp mi k (put_devs D (s\<lparr>free_map := fm\<rparr>))" "bit_cnt fm = bit_cnt (free_map s)"
      "bm_used fm = insert (unat w) (bm_used (free_map s))" "unat w \<in> free_sectors s" "agree (devs s) D (- M)"
    by (rule allocate_step [OF A f0, of depth])
  let ?s1 = "put_devs D (s\<lparr>free_map := fm\<rparr>)"
  have fr: "free_sectors ?s1 = free_sectors s - {unat w}" using f(3,4) by (auto simp: free_sectors_def)
  have card: "a \<le> card (free_sectors ?s1)" unfolding fr using free f(5) by simp
  obtain ns u where u: "fill_indirect (write_free_map (Suc depth)) 0 (stack_array s) ?s1 a = Some (take 0 (stack_array s) @ ns @ drop (0 + a) (stack_array s), u)"
      "length ns = a" "got M ?s1 ns u" "alloc_ok M mp mi k u"
    by (rule fill_indirect_ok [OF f(2) card, of 0 "stack_array s" depth]) (use a stack_array_length [OF st] in auto)
  let ?b = "ns @ drop a (stack_array s)"
  have lb: "length (bytes_of ?b) = 512" using u(2) a stack_array_length [OF st] by simp
  have wf: "unat w < length (devs s)" "unat w \<noteq> 0" "unat w \<notin> owns (devs s) mi k" using alloc_ok_free [OF A f(5)] by auto
  have len: "length (devs u) = length (devs s)" using got_same(6) [OF u(3)] f(6) by (simp add: agree_def)
  have ag: "agree (devs s) (devs u) (bm_used (free_map s) - M)"
  proof (rule agree_trans)
    show "agree (devs s) D (bm_used (free_map s) - M)" by (rule agree_mono [OF f(6)]) auto
    show "agree D (devs u) (bm_used (free_map s) - M)"
      by (rule agree_mono [of _ _ "bm_used (free_map ?s1) - M"]) (use u(3) f(4) in \<open>auto simp: got_def\<close>)
  qed
  have wu: "unat w < length (devs u)" "unat w \<notin> owns (devs u) mi k" using wf len owns_same [OF A ag] by auto
  note wr = alloc_ok_write [OF u(4) wu lb]
  let ?t = "put_devs ((devs u)[unat w := bytes_of ?b]) u"
  have wn: "unat w \<notin> unat ` set ns" using u(3) fr by (auto simp: got_def)
  obtain D2 f2 where "u = put_devs D2 (?s1\<lparr>free_map := f2\<rparr>)" using got_shape [OF u(3)] by blast
  then have "?t = put_devs ((devs u)[unat w := bytes_of ?b]) (s\<lparr>free_map := f2\<rparr>)" by simp
  then have shape: "\<exists>D fm. ?t = put_devs D (s\<lparr>free_map := fm\<rparr>)" by blast
  have zs: "devs ?t ! unat x = zeros" if "x \<in> set ns" for x
  proof -
    have "unat x \<noteq> unat w" using that wn by (metis image_eqI)
    then show ?thesis using u(3) that by (simp add: got_def)
  qed
  have ag2: "agree (devs s) (devs ?t) (bm_used (free_map s) - M - {})"
  proof -
    have "unat w \<notin> bm_used (free_map s) - M" using f(5) by (auto simp: free_sectors_def)
    then show ?thesis using agree_trans [OF ag agree_upd] by simp
  qed
  show thesis
  proof (rule that [OF _ _ _ u(2) wr(2)])
    show "indirect_block_allocate (write_free_map (Suc depth)) 0 a 0 s = Some (w, ?t)"
      using f(1) u(1) wr(1) by (simp add: indirect_block_allocate_def)
    show "w \<noteq> 0" using wf(2) by auto
    show "took M {} s {unat w} ns ?t"
      unfolding took_def
    proof (intro conjI)
      show "\<exists>D fm. ?t = put_devs D (s\<lparr>free_map := fm\<rparr>)" by (rule shape)
    qed (use zs ag2 u(3) f(3,4,5) fr wn in \<open>auto simp: got_def\<close>)
    show "\<forall>j<a. blk (devs ?t) w ! j = ns ! j" using u(2) wu(1) by (simp add: blk_update nth_append)
  qed
qed

lemma indirect_more:
  assumes A: "alloc_ok M mp mi k s" and a: "c + a \<le> 128" and free: "a \<le> card (free_sectors s)"
    and ind: "ind \<noteq> 0" "unat ind \<in> bm_used (free_map s)" "unat ind < length (devs s)" "unat ind \<notin> owns (devs s) mi k"
  obtains ns t where "indirect_block_allocate (write_free_map (Suc depth)) c a ind s = Some (ind, t)"
    and "took M {unat ind} s {} ns t" and "length ns = a" and "alloc_ok M mp mi k t"
    and "\<forall>j<c + a. blk (devs t) ind ! j = (if j < c then blk (devs s) ind ! j else ns ! (j - c))"
proof -
  let ?o = "blk (devs s) ind"
  have lo: "length ?o = 128" using A ind(3) blk_length by (auto simp: alloc_ok_def)
  obtain ns u where u: "fill_indirect (write_free_map (Suc depth)) c ?o s a = Some (take c ?o @ ns @ drop (c + a) ?o, u)"
      "length ns = a" "got M s ns u" "alloc_ok M mp mi k u"
    by (rule fill_indirect_ok [OF A free, of c ?o depth]) (use a lo in auto)
  let ?b = "take c ?o @ ns @ drop (c + a) ?o"
  have lb: "length (bytes_of ?b) = 512" using u(2) a lo by simp
  have len: "length (devs u) = length (devs s)" by (rule got_same [OF u(3)])
  have ag: "agree (devs s) (devs u) (bm_used (free_map s) - M)" using u(3) by (simp add: got_def)
  have wu: "unat ind < length (devs u)" "unat ind \<notin> owns (devs u) mi k" using ind len owns_same [OF A ag] by auto
  note wr = alloc_ok_write [OF u(4) wu lb]
  let ?t = "put_devs ((devs u)[unat ind := bytes_of ?b]) u"
  have wn: "unat ind \<notin> unat ` set ns" using u(3) ind(2) by (auto simp: got_def free_sectors_def)
  obtain D2 f2 where "u = put_devs D2 (s\<lparr>free_map := f2\<rparr>)" using got_shape [OF u(3)] by blast
  then have "?t = put_devs ((devs u)[unat ind := bytes_of ?b]) (s\<lparr>free_map := f2\<rparr>)" by simp
  then have shape: "\<exists>D fm. ?t = put_devs D (s\<lparr>free_map := fm\<rparr>)" by blast
  have zs: "devs ?t ! unat x = zeros" if "x \<in> set ns" for x
  proof -
    have "unat x \<noteq> unat ind" using that wn by (metis image_eqI)
    then show ?thesis using u(3) that by (simp add: got_def)
  qed
  have ag2: "agree (devs s) (devs ?t) (bm_used (free_map s) - M - {unat ind})"
    using agree_trans [OF agree_mono [OF ag] agree_upd, of "bm_used (free_map s) - M - {unat ind}"] by simp
  show thesis
  proof (rule that [OF _ _ u(2) wr(2)])
    show "indirect_block_allocate (write_free_map (Suc depth)) c a ind s = Some (ind, ?t)"
      using ind(1) fs_read_ok [OF ind(3)] u(1) wr(1) by (simp add: indirect_block_allocate_def blk_def)
    show "took M {unat ind} s {} ns ?t"
      unfolding took_def
    proof (intro conjI)
      show "\<exists>D fm. ?t = put_devs D (s\<lparr>free_map := fm\<rparr>)" by (rule shape)
    qed (use zs ag2 u(3) in \<open>auto simp: got_def\<close>)
    show "\<forall>j<c + a. blk (devs ?t) ind ! j = (if j < c then ?o ! j else ns ! (j - c))"
      using u(2) wu(1) a lo by (simp add: blk_update fill_nth)
  qed
qed

section \<open>A file that gets blocks\<close>

lemma grown:
  assumes bn: "\<forall>k<n + length ns. block_no D' d' k = (if k < n then block_no D d k else ns ! (k - n))"
    and a: "agree D D' (datas D d n)" and z: "\<forall>x\<in>set ns. D' ! unat x = zeros" and dist: "distinct ns"
    and dj: "unat ` set ns \<inter> datas D d n = {}" and sep: "sep D d n"
  shows "datas D' d' (n + length ns) = datas D d n \<union> unat ` set ns"
    and "inj_on (\<lambda>k. unat (block_no D' d' k)) {..<n + length ns}"
    and "contents D' d' (n + length ns) = contents D d n @ replicate (512 * length ns) 0"
proof -
  have im: "(\<lambda>k. ns ! (k - n)) ` {n..<n + length ns} = set ns"
  proof -
    have "{n..<n + length ns} = (\<lambda>j. n + j) ` {..<length ns}" by (metis add.commute add_0 atLeast0LessThan image_add_atLeastLessThan)
    then have "(\<lambda>k. ns ! (k - n)) ` {n..<n + length ns} = (\<lambda>j. ns ! j) ` {..<length ns}" by (simp add: image_image)
    then show ?thesis using nth_image [of "length ns" ns] by (simp add: atLeast0LessThan)
  qed
  have split: "{..<n + length ns} = {..<n} \<union> {n..<n + length ns}" by auto
  have new: "(\<lambda>k. unat (block_no D' d' k)) ` {n..<n + length ns} = unat ` set ns"
  proof -
    have "(\<lambda>k. unat (block_no D' d' k)) ` {n..<n + length ns} = (\<lambda>k. unat (ns ! (k - n))) ` {n..<n + length ns}"
      by (rule image_cong) (use bn in auto)
    then show ?thesis unfolding im [symmetric] by (simp add: image_image)
  qed
  have old: "(\<lambda>k. unat (block_no D' d' k)) ` {..<n} = datas D d n"
    unfolding datas_def by (rule image_cong) (use bn in auto)
  show "datas D' d' (n + length ns) = datas D d n \<union> unat ` set ns" using old new unfolding datas_def split image_Un by simp
  show "inj_on (\<lambda>k. unat (block_no D' d' k)) {..<n + length ns}"
  proof (rule inj_onI)
    fix x y assume xy: "x \<in> {..<n + length ns}" "y \<in> {..<n + length ns}" "unat (block_no D' d' x) = unat (block_no D' d' y)"
    have in_old: "unat (block_no D' d' z) \<in> datas D d n" if "z < n" for z using old that by blast
    have in_new: "unat (block_no D' d' z) \<in> unat ` set ns" if "\<not> z < n" "z < n + length ns" for z using new that by fastforce
    consider "x < n" "y < n" | "\<not> x < n" "\<not> y < n" | "(x < n) \<noteq> (y < n)" by blast
    then show "x = y"
    proof cases
      case 1
      then have "unat (block_no D d x) = unat (block_no D d y)" using xy bn by simp
      then show ?thesis using sep 1 by (auto simp: sep_def dest: inj_onD)
    next
      case 2
      then have "ns ! (x - n) = ns ! (y - n)" using xy bn by (simp add: word_unat_eq_iff)
      then show ?thesis using dist 2 xy by (simp add: nth_eq_iff_index_eq)
    next
      case 3
      then have "unat (block_no D' d' x) \<in> unat ` set ns \<inter> datas D d n"
        using in_old [of x] in_new [of x] in_old [of y] in_new [of y] xy by (cases "x < n") auto
      then show ?thesis using dj by simp
    qed
  qed
  have "map (\<lambda>k. D' ! unat (block_no D' d' k)) [0..<n] = map (\<lambda>k. D ! unat (block_no D d k)) [0..<n]"
    using bn a by (auto simp: agree_def datas_def)
  moreover have "map (\<lambda>k. D' ! unat (block_no D' d' k)) [n..<n + length ns] = replicate (length ns) zeros"
    by (rule nth_equalityI) (use bn z in auto)
  moreover have "concat (replicate m zeros) = replicate (512 * m) (0 :: u8)" for m
    by (induction m) (simp_all flip: replicate_add)
  ultimately show "contents D' d' (n + length ns) = contents D d n @ replicate (512 * length ns) 0"
    unfolding contents_def upt_add_eq_append [OF le0] map_append concat_append by (simp only:)
qed

text \<open>The blocks \<open>d\<close> of a file that allocation may extend.\<close>

definition room :: "nat set \<Rightarrow> nat \<Rightarrow> inode \<Rightarrow> nat \<Rightarrow> fs \<Rightarrow> inode_disk \<Rightarrow> nat \<Rightarrow> bool" where
  "room M mp mi k s d n \<longleftrightarrow> alloc_ok M mp mi k s \<and> lay_ok (devs s) d n \<and> sep (devs s) d n \<and>
     datas (devs s) d n \<union> metas (devs s) d n \<subseteq> bm_used (free_map s) \<and>
     (datas (devs s) d n \<union> metas (devs s) d n) \<inter> owns (devs s) mi k = {} \<and> (indirect_block d = 0 \<longleftrightarrow> n \<le> 10)"

lemma room_grown:
  assumes r: "room M mp mi k s d n" and t: "took M (metas (devs s) d n) s W ns t" and A: "alloc_ok M mp mi k t"
    and bn: "\<forall>j<n + length ns. block_no (devs t) d' j = (if j < n then block_no (devs s) d j else ns ! (j - n))"
    and l: "length (direct_blocks d') = 10" "unat (indirect_block d') < length (devs t)" "double_indirect_block d' = double_indirect_block d"
    and m: "metas (devs t) d' (n + length ns) = metas (devs s) d n \<union> W" and n: "n + length ns < 138"
    and z: "indirect_block d' = 0 \<longleftrightarrow> n + length ns \<le> 10"
  shows "room M mp mi k t d' (n + length ns)" and "datas (devs t) d' (n + length ns) = datas (devs s) d n \<union> unat ` set ns"
    and "contents (devs t) d' (n + length ns) = contents (devs s) d n @ replicate (512 * length ns) 0"
proof -
  let ?D = "devs s" and ?n = "n + length ns"
  have R: "alloc_ok M mp mi k s" "lay_ok ?D d n" "sep ?D d n" "datas ?D d n \<union> metas ?D d n \<subseteq> bm_used (free_map s)"
      "(datas ?D d n \<union> metas ?D d n) \<inter> owns ?D mi k = {}"
    using r by (auto simp: room_def)
  have T: "unat ` set ns \<subseteq> free_sectors s" "W \<subseteq> free_sectors s" "W \<inter> unat ` set ns = {}" "distinct ns"
      "bm_used (free_map t) = bm_used (free_map s) \<union> unat ` set ns \<union> W" "\<forall>x\<in>set ns. devs t ! unat x = zeros"
      "agree ?D (devs t) (bm_used (free_map s) - M - metas ?D d n)" using t by (auto simp: took_def)
  have Mo: "M \<subseteq> owns ?D mi k" using R(1) by (auto simp: alloc_ok_def owns_def)
  have free: "x \<in> free_sectors s \<Longrightarrow> x \<notin> bm_used (free_map s) \<and> x < length ?D \<and> x \<notin> owns ?D mi k" for x
    using alloc_ok_free [OF R(1)] by (auto simp: free_sectors_def)
  have ad: "agree ?D (devs t) (datas ?D d n)"
    by (rule agree_mono [OF T(7)]) (use R(3,4,5) Mo in \<open>auto simp: sep_def\<close>)
  have dj: "unat ` set ns \<inter> datas ?D d n = {}" using T(1) R(4) free by blast
  note g = grown [OF bn ad T(6,4) dj R(3)]
  show d: "datas (devs t) d' ?n = datas ?D d n \<union> unat ` set ns" by (rule g)
  show "contents (devs t) d' ?n = contents ?D d n @ replicate (512 * length ns) 0" by (rule g)
  have len: "length (devs t) = length ?D" by (rule took_same [OF t])
  have "unat (block_no (devs t) d' j) < length (devs t)" if "j < ?n" for j
  proof -
    have "unat (block_no (devs t) d' j) \<in> datas ?D d n \<union> unat ` set ns" using d that unfolding datas_def by blast
    moreover have "x < length ?D" if "x \<in> datas ?D d n" for x using R(2) that by (auto simp: lay_ok_def datas_def)
    moreover have "x < length ?D" if "x \<in> unat ` set ns" for x using T(1) that free by (meson subsetD)
    ultimately have "unat (block_no (devs t) d' j) < length ?D" by (meson Un_iff)
    then show ?thesis by (simp add: len)
  qed
  then have lay: "lay_ok (devs t) d' ?n" using l n R(2) len by (simp add: lay_ok_def)
  have "unat ` set ns \<inter> metas ?D d n = {}" "W \<inter> datas ?D d n = {}" "W \<inter> metas ?D d n = {}" using T(1,2) R(4) free by blast+
  then have sp: "sep (devs t) d' ?n" unfolding sep_def d m using g(2) T(3) R(3) by (auto simp: sep_def)
  have "agree ?D (devs t) (metas ?D (data mi) k)"
    by (rule agree_mono [OF T(7)])
      (use R in \<open>auto simp: alloc_ok_def map_ok_def file_ok_def sep_def owns_def wblocks_def\<close>)
  then have o: "owns (devs t) mi k = owns ?D mi k" using layout_agree(1,2) by (auto simp: owns_def wblocks_def)
  show "room M mp mi k t d' ?n"
    unfolding room_def d m o
  proof (intro conjI)
    show "(datas ?D d n \<union> unat ` set ns \<union> (metas ?D d n \<union> W)) \<inter> owns ?D mi k = {}"
    proof -
      have "unat ` set ns \<inter> owns ?D mi k = {}" "W \<inter> owns ?D mi k = {}" using T(1,2) free by blast+
      then show ?thesis using R(5) by blast
    qed
    show "datas ?D d n \<union> unat ` set ns \<union> (metas ?D d n \<union> W) \<subseteq> bm_used (free_map t)" unfolding T(5) using R(4) by blast
  qed (fact A lay sp z)+
qed

definition extended :: "nat set \<Rightarrow> nat \<Rightarrow> inode \<Rightarrow> nat \<Rightarrow> fs \<Rightarrow> inode_disk \<Rightarrow> nat \<Rightarrow> u32 list \<Rightarrow> nat set \<Rightarrow> fs \<Rightarrow> inode_disk \<Rightarrow> bool" where
  "extended M mp mi k s d n ns W t d' \<longleftrightarrow> room M mp mi k t d' (n + length ns) \<and> took M (metas (devs s) d n) s W ns t \<and>
     datas (devs t) d' (n + length ns) = datas (devs s) d n \<union> unat ` set ns \<and>
     metas (devs t) d' (n + length ns) = metas (devs s) d n \<union> W \<and>
     contents (devs t) d' (n + length ns) = contents (devs s) d n @ replicate (512 * length ns) 0 \<and>
     length (direct_blocks d') = 10 \<and> (\<exists>db ib. d' = d\<lparr>direct_blocks := db, indirect_block := ib\<rparr>)"

lemma metas_small: "n < 138 \<Longrightarrow> metas D d n = (if 10 < n then {unat (indirect_block d)} else {})"
  by (simp add: metas_def level2_0)

lemma took_weaken: "got M s ns t \<Longrightarrow> took M X s {} ns t"
  by (auto simp: took_def got_def intro: agree_mono)

lemma room_direct: "room M mp mi k s d n \<Longrightarrow> length (direct_blocks d) = 10"
  by (simp add: room_def lay_ok_def)

lemma direct_ok:
  assumes r: "room M mp mi k s d n" and free: "min a (10 - n) \<le> card (free_sectors s)" and n: "n < 138"
  obtains ns t d' where "fill_direct (write_free_map (Suc depth)) a n d s = Some (True, a - length ns, n + length ns, d', t)"
    and "length ns = min a (10 - n)" and "got M s ns t" and "extended M mp mi k s d n ns {} t d'"
proof -
  let ?db = "direct_blocks d"
  have A: "alloc_ok M mp mi k s" and db: "length ?db = 10" using r by (auto simp: room_def lay_ok_def)
  obtain ns t where f: "fill_direct (write_free_map (Suc depth)) a n d s = Some (True, a - length ns, n + length ns,
        d\<lparr>direct_blocks := take n ?db @ ns @ drop (n + length ns) ?db\<rparr>, t)"
      "length ns = min a (10 - n)" "got M s ns t" "alloc_ok M mp mi k t"
    by (rule fill_direct_ok [OF A free db, of depth])
  let ?d = "d\<lparr>direct_blocks := take n ?db @ ns @ drop (n + length ns) ?db\<rparr>"
  have big: "ns = []" if "10 \<le> n" using f(2) that by simp
  have ib: "blk (devs t) (indirect_block d) = blk (devs s) (indirect_block d)" if "10 < n"
  proof -
    have "unat (indirect_block d) \<in> metas (devs s) d n" using that n by (simp add: metas_small)
    then have "unat (indirect_block d) \<in> bm_used (free_map s) - M"
      using r by (auto simp: room_def alloc_ok_def owns_def)
    then show ?thesis using f(3) blk_agree by (auto simp: got_def)
  qed
  have bn: "block_no (devs t) ?d j = (if j < n then block_no (devs s) d j else ns ! (j - n))" if j: "j < n + length ns" for j
  proof (cases "j < 10")
    case True
    then show ?thesis using j db by (auto simp: block_no_def nth_append)
  next
    case False
    then have "10 < n" using j f(2) by simp
    then show ?thesis using False j ib big n by (simp add: block_no_def)
  qed
  have n': "n + length ns < 138" using f(2) n by simp
  have m: "metas (devs t) ?d (n + length ns) = metas (devs s) d n \<union> {}"
  proof -
    have "10 < n + length ns \<longleftrightarrow> 10 < n" using f(2) by linarith
    then show ?thesis using n n' by (simp add: metas_small)
  qed
  have z: "indirect_block ?d = 0 \<longleftrightarrow> n + length ns \<le> 10" using r f(2) by (auto simp: room_def)
  have ind: "unat (indirect_block ?d) < length (devs t)" using r got_same(6) [OF f(3)] by (simp add: room_def lay_ok_def)
  have db': "length (direct_blocks ?d) = 10" using db f(2) by simp
  note g = room_grown [OF r took_weaken [OF f(3)] f(4) allI [OF impI [OF bn]] db' ind _ m n' z]
  have "\<exists>db ib. ?d = d\<lparr>direct_blocks := db, indirect_block := ib\<rparr>"
    by (rule exI [of _ "take n ?db @ ns @ drop (n + length ns) ?db"], rule exI [of _ "indirect_block d"]) simp
  then have "extended M mp mi k s d n ns {} t ?d"
    unfolding extended_def using g m db' took_weaken [OF f(3)] by simp
  then show thesis using that f by blast
qed

lemma indirect_ok:
  assumes r: "room M mp mi k s d n" and n: "10 \<le> n" "n + a < 138" "0 < a" and st: "128 \<le> length (stack s)"
    and free: "a + (if n = 10 then 1 else 0) \<le> card (free_sectors s)"
  obtains b ns W t where "indirect_block_allocate (write_free_map (Suc depth)) (n - 10) a (indirect_block d) s = Some (b, t)" and "b \<noteq> 0"
    and "length ns = a" and "extended M mp mi k s d n ns W t (d\<lparr>indirect_block := b\<rparr>)"
proof -
  have A: "alloc_ok M mp mi k s" and db: "length (direct_blocks d) = 10" using r by (auto simp: room_def lay_ok_def)
  have "\<exists>b ns W t. indirect_block_allocate (write_free_map (Suc depth)) (n - 10) a (indirect_block d) s = Some (b, t) \<and> b \<noteq> 0 \<and>
    took M (metas (devs s) d n) s W ns t \<and> length ns = a \<and> alloc_ok M mp mi k t \<and> {unat b} = metas (devs s) d n \<union> W \<and> unat b < length (devs s) \<and>
    (\<forall>j<n - 10 + a. blk (devs t) b ! j = (if j < n - 10 then blk (devs s) (indirect_block d) ! j else ns ! (j - (n - 10))))"
  proof (cases "n = 10")
    case True
    have i0: "indirect_block d = 0" using r True by (simp add: room_def)
    have a: "a \<le> 128" and f: "a + 1 \<le> card (free_sectors s)" using True n free by auto
    have m: "metas (devs s) d n = {}" using True by (simp add: metas_small)
    obtain w ns t where w: "indirect_block_allocate (write_free_map (Suc depth)) 0 a 0 s = Some (w, t)" "w \<noteq> 0" "took M {} s {unat w} ns t"
        "length ns = a" "alloc_ok M mp mi k t" "\<forall>j<a. blk (devs t) w ! j = ns ! j"
      by (rule indirect_new [OF A a st f, of depth])
    have "unat w < length (devs s)" using w(3) alloc_ok_free [OF A] by (simp add: took_def)
    then show ?thesis using w i0 m True by (intro exI [of _ w] exI [of _ ns] exI [of _ "{unat w}"] exI [of _ t]) simp
  next
    case False
    then have n10: "10 < n" using n by simp
    let ?i = "indirect_block d"
    have m: "metas (devs s) d n = {unat ?i}" using n10 n by (simp add: metas_small)
    have i: "?i \<noteq> 0" "unat ?i \<in> bm_used (free_map s)" "unat ?i < length (devs s)" "unat ?i \<notin> owns (devs s) mi k"
      using r m n10 by (auto simp: room_def lay_ok_def)
    have a: "n - 10 + a \<le> 128" and f: "a \<le> card (free_sectors s)" using n free by auto
    obtain ns t where w: "indirect_block_allocate (write_free_map (Suc depth)) (n - 10) a ?i s = Some (?i, t)"
        "took M {unat ?i} s {} ns t" "length ns = a" "alloc_ok M mp mi k t"
        "\<forall>j<n - 10 + a. blk (devs t) ?i ! j = (if j < n - 10 then blk (devs s) ?i ! j else ns ! (j - (n - 10)))"
      by (rule indirect_more [OF A a f i, of depth])
    then show ?thesis using i m by (intro exI [of _ ?i] exI [of _ ns] exI [of _ "{}"] exI [of _ t]) simp
  qed
  then obtain b ns W t where w: "indirect_block_allocate (write_free_map (Suc depth)) (n - 10) a (indirect_block d) s = Some (b, t)" "b \<noteq> 0"
      "took M (metas (devs s) d n) s W ns t" "length ns = a" "alloc_ok M mp mi k t" "{unat b} = metas (devs s) d n \<union> W" "unat b < length (devs s)"
      "\<forall>j<n - 10 + a. blk (devs t) b ! j = (if j < n - 10 then blk (devs s) (indirect_block d) ! j else ns ! (j - (n - 10)))"
    by blast
  let ?d = "d\<lparr>indirect_block := b\<rparr>"
  have bn: "block_no (devs t) ?d j = (if j < n then block_no (devs s) d j else ns ! (j - n))" if j: "j < n + length ns" for j
  proof (cases "j < 10")
    case True
    then show ?thesis using n by (simp add: block_no_def)
  next
    case False
    have e: "j - 10 - (n - 10) = j - n" "j - 10 < n - 10 + a" "j < 138" "(j - 10 < n - 10) = (j < n)" using False j n w(4) by auto
    then show ?thesis using w(8) False by (simp add: block_no_def)
  qed
  have n': "n + length ns < 138" using w(4) n by simp
  have m: "metas (devs t) ?d (n + length ns) = metas (devs s) d n \<union> W" using n' n w(4,6) by (simp add: metas_small)
  have z: "indirect_block ?d = 0 \<longleftrightarrow> n + length ns \<le> 10" using w(2,4) n by simp
  have ind: "unat (indirect_block ?d) < length (devs t)" using w(7) took_same(6) [OF w(3)] by simp
  have db': "length (direct_blocks ?d) = 10" using db by simp
  note g = room_grown [OF r w(3,5) allI [OF impI [OF bn]] db' ind _ m n' z]
  have "\<exists>db ib. ?d = d\<lparr>direct_blocks := db, indirect_block := ib\<rparr>"
    by (rule exI [of _ "direct_blocks d"], rule exI [of _ b]) simp
  then have "extended M mp mi k s d n ns W t ?d"
    unfolding extended_def using g m db' w(3) by simp
  then show thesis using that w by blast
qed

lemma extended_trans:
  assumes a: "got M s ns t" "extended M mp mi k s d n ns {} t d1" and b: "extended M mp mi k t d1 (n + length ns) ms W u d2" and r: "room M mp mi k s d n"
  shows "extended M mp mi k s d n (ns @ ms) W u d2"
proof -
  have m: "metas (devs t) d1 (n + length ns) = metas (devs s) d n" using a(2) by (simp add: extended_def)
  have "M \<subseteq> bm_used (free_map s)" "metas (devs s) d n \<subseteq> bm_used (free_map s)" using r alloc_ok_M [of M mp mi k s] by (simp_all add: room_def)
  then have "took M (metas (devs s) d n) s W (ns @ ms) u" using got_took [OF a(1)] b m by (simp add: extended_def)
  moreover obtain db ib db' ib' where "d1 = d\<lparr>direct_blocks := db, indirect_block := ib\<rparr>" "d2 = d1\<lparr>direct_blocks := db', indirect_block := ib'\<rparr>"
    using a(2) b unfolding extended_def by blast
  then have "\<exists>db ib. d2 = d\<lparr>direct_blocks := db, indirect_block := ib\<rparr>" by simp blast
  ultimately show ?thesis
    using a(2) b m unfolding extended_def by (simp add: add.assoc [symmetric] image_Un Un_assoc distrib_left replicate_add)
qed

lemma sector_allocate_ok:
  assumes r: "room M mp mi k s d n" and n: "n = bytes_to_sectors (dlength d)" and a: "n + a < 138"
    and free: "a + (if n \<le> 10 \<and> 10 < n + a then 1 else 0) \<le> card (free_sectors s)" and st: "128 \<le> length (stack s)"
  obtains ns W t d' where "sector_allocate (write_free_map (Suc depth)) a d s = Some (True, d', t)" and "length ns = a"
    and "extended M mp mi k s d n ns W t d'"
proof -
  have w: "\<not> size_wrap (n + a) > 10 + 128 + 128 * 128" using a by (simp add: size_wrap_def)
  have f1: "min a (10 - n) \<le> card (free_sectors s)" using free by simp
  have n1: "n < 138" using a by simp
  obtain ns t d1 where p: "fill_direct (write_free_map (Suc depth)) a n d s = Some (True, a - length ns, n + length ns, d1, t)"
      "length ns = min a (10 - n)" "got M s ns t" "extended M mp mi k s d n ns {} t d1"
    by (rule direct_ok [OF r f1 n1, of depth])
  show thesis
  proof (cases "a = 0 \<or> a - length ns = 0")
    case True
    then consider "a = 0" | "0 < a" "length ns = a" using p(2) by linarith
    then show ?thesis
    proof cases
      case 1
      have "took M (metas (devs s) d n) s {} [] s" by (rule took_weaken [OF got_Nil])
      moreover have "\<exists>db ib. d = d\<lparr>direct_blocks := db, indirect_block := ib\<rparr>"
        by (rule exI [of _ "direct_blocks d"], rule exI [of _ "indirect_block d"]) simp
      ultimately have "extended M mp mi k s d n [] {} s d" using r room_direct [OF r] by (simp add: extended_def)
      then show ?thesis using that [of d s "[]" "{}"] 1 w n by (simp add: sector_allocate_def)
    next
      case 2
      then show ?thesis using that [OF _ 2(2) p(4)] p(1) w n by (simp add: sector_allocate_def)
    qed
  next
    case False
    let ?n = "n + length ns" and ?a = "a - length ns"
    have r1: "room M mp mi k t d1 ?n" using p(4) by (simp add: extended_def)
    have q: "10 \<le> ?n" "?n + ?a < 138" "0 < ?a" using False p(2) a by auto
    have st1: "128 \<le> length (stack t)" using st got_same(5) [OF p(3)] by simp
    have "?n = 10 \<Longrightarrow> n \<le> 10 \<and> 10 < n + a" using False p(2) by auto
    then have f2: "?a + (if ?n = 10 then 1 else 0) \<le> card (free_sectors t)" using free got_free [OF p(3)] p(2) by (auto split: if_splits)
    obtain b ms W u where i: "indirect_block_allocate (write_free_map (Suc depth)) (?n - 10) ?a (indirect_block d1) t = Some (b, u)" "b \<noteq> 0"
        "length ms = ?a" "extended M mp mi k t d1 ?n ms W u (d1\<lparr>indirect_block := b\<rparr>)"
      by (rule indirect_ok [OF r1 q st1 f2, of depth])
    have c: "\<not> 128 < ?a" and cur: "?n < 138" using q by linarith+
    have "sector_allocate (write_free_map (Suc depth)) a d s = Some (True, d1\<lparr>indirect_block := b\<rparr>, u)"
      using c w n False p(1) i(1,2) q(3) cur by (simp add: sector_allocate_def Let_def)
    then show ?thesis using that [OF _ _ extended_trans [OF p(3,4) i(4) r]] i(3) q(3) by simp
  qed
qed

end
