(* ===== verification/Spec2Isabelle.thy ===== *)
theory Spec2Isabelle
  imports Klist_Props Kbitmap Kstring_Props Karith Kstdlib_Props Kthread_Props Khash_Props Kpagedir_Life Kfilesys Kinode_Alloc
begin

text \<open>
  A verification of the Pintos kernel of this repository (\<^verbatim>\<open>src/pintos/src\<close>).

  Conventions of the model. An operation that can stop the kernel (a failed
  \<^verbatim>\<open>ASSERT\<close>, a \<^verbatim>\<open>PANIC\<close>, an access through a wild pointer) or that loops returns an
  \<open>option\<close>; \<open>None\<close> is the stop or the absence of a result. Stateful code passes its state
  explicitly. A \<^verbatim>\<open>size_t\<close> is a natural number whose arithmetic is wrapped by
  \<open>size_wrap\<close> where it can overflow; other machine integers are words.
\<close>

end
